(* ===== verification/Blocklist.thy ===== *)
theory Blocklist
  imports Dowse_Prelude "HOL-Library.Multiset"
begin

text \<open>
  The list of blocked IP ranges of the packet filter (\<^verbatim>\<open>src/src/pgld/blocklist.c\<close>):
  appending, sorting, merging overlapping and adjacent ranges, and the binary search
  that decides whether an address is blocked.

  Addresses are 32-bit words in host order. The array of entries is a list whose length
  is the field \<^verbatim>\<open>count\<close>; a null name is \<open>None\<close>. The merge reads every name with strlen,
  so a null name is a crash, modelled by the result \<open>None\<close>. The order in which qsort
  leaves entries with equal keys is unspecified, hence the sorting function is a
  parameter of the operations that sort, and the locale \<open>block_sorter\<close> states what the C
  standard promises about it.
\<close>

subsection \<open>Data\<close>

definition MAX_LABEL_LENGTH :: nat where "MAX_LABEL_LENGTH = 300"
definition MAX_INMEMLABEL_LENGTH :: nat where "MAX_INMEMLABEL_LENGTH = 64"
definition ALLOC_CHUNK :: u32 where "ALLOC_CHUNK = 16384"

abbreviation ip_last :: u32 where "ip_last \<equiv> 4294967295"

record block_entry_t =
  ip_min :: u32
  ip_max :: u32
  name :: "string option"
  hits :: u32

record blocklist_t =
  entries :: "block_entry_t list"
  bsize :: u32
  numips :: u32

definition count :: "blocklist_t \<Rightarrow> nat" where
  "count bl = length (entries bl)"

subsection \<open>Operations\<close>

definition blocklist_init :: blocklist_t where
  "blocklist_init = \<lparr>entries = [], bsize = 0, numips = 0\<rparr>"

text \<open>
  \<open>conv\<close> is the conversion the iconv descriptor stands for: \<open>None\<close> when iconv fails. The
  descriptor is compared with \<^verbatim>\<open>>= 0\<close>, which holds of every pointer, so the conversion
  is always attempted.
\<close>

definition blocklist_append :: "(string \<Rightarrow> string option) \<Rightarrow> u32 \<Rightarrow> u32 \<Rightarrow> string
      \<Rightarrow> blocklist_t \<Rightarrow> blocklist_t" where
  "blocklist_append conv imin imax nm bl =
     (let bl' = (if bsize bl = of_nat (count bl) then bl\<lparr>bsize := bsize bl + ALLOC_CHUNK\<rparr> else bl);
          nm' = (case conv nm of Some s \<Rightarrow> s | None \<Rightarrow> ''(conversion error)'');
          e = \<lparr>ip_min = imin, ip_max = imax, name = Some nm', hits = 0\<rparr>
      in bl'\<lparr>entries := entries bl' @ [e]\<rparr>)"

definition blocklist_clear :: "nat \<Rightarrow> blocklist_t \<Rightarrow> blocklist_t" where
  "blocklist_clear start bl =
     (if start = 0 then blocklist_init
      else bl\<lparr>entries := take start (entries bl), bsize := of_nat start\<rparr>)"

definition block_entry_compare :: "block_entry_t \<Rightarrow> block_entry_t \<Rightarrow> int" where
  "block_entry_compare e1 e2 =
     (if ip_min e1 < ip_min e2 then -1 else if ip_min e1 > ip_min e2 then 1 else 0)"

definition block_key_compare :: "block_entry_t \<Rightarrow> block_entry_t \<Rightarrow> int" where
  "block_key_compare key e =
     (if ip_max key < ip_min e then -1 else if ip_min key > ip_max e then 1 else 0)"

definition blocklist_sort :: "(block_entry_t list \<Rightarrow> block_entry_t list) \<Rightarrow> blocklist_t \<Rightarrow> blocklist_t" where
  "blocklist_sort qs bl = bl\<lparr>entries := qs (entries bl)\<rparr>"

text \<open>
  The inner loop over \<^verbatim>\<open>j\<close>: how many of the following entries the range ending at \<open>m\<close>
  swallows, and where the grown range ends. A range that ends at the last address
  swallows all that follow.
\<close>

fun absorb :: "u32 \<Rightarrow> block_entry_t list \<Rightarrow> nat \<times> u32" where
  "absorb m [] = (0, m)"
| "absorb m (e # es) =
     (if m = ip_last then (length (e # es), m)
      else if ip_min e > m + 1 then (0, m)
      else (let (n, m') = absorb (if ip_max e > m then ip_max e else m) es in (Suc n, m')))"

definition trunc_name :: "string \<Rightarrow> string" where
  "trunc_name s =
     (if length s > MAX_INMEMLABEL_LENGTH then take (MAX_INMEMLABEL_LENGTH - 1) s else s)"

text \<open>The loop over \<^verbatim>\<open>k\<close>, for the name: strlen and strstr read the name of every entry.\<close>

fun merge_names :: "string \<Rightarrow> block_entry_t list \<Rightarrow> string option" where
  "merge_names nm [] = Some nm"
| "merge_names nm (e # es) =
     (case name e of
        None \<Rightarrow> None
      | Some kn \<Rightarrow>
          merge_names
            (if length nm + length kn < MAX_INMEMLABEL_LENGTH \<and> \<not> sublist kn nm
             then nm @ '' | '' @ kn else nm) es)"

text \<open>The loop over \<^verbatim>\<open>k\<close>, for the swallowed entry itself.\<close>

definition blank_entry :: "block_entry_t \<Rightarrow> block_entry_t" where
  "blank_entry e = e\<lparr>ip_min := ip_last, ip_max := ip_last, name := None, hits := 0\<rparr>"

definition count_ips :: "u32 \<Rightarrow> u32 \<Rightarrow> u32" where
  "count_ips n d = (let n' = n + d in if n' < ip_last then n' + 1 else n')"

text \<open>
  One pass of the loop over \<^verbatim>\<open>i\<close>. After a merge \<^verbatim>\<open>i\<close> is the last swallowed entry, which is
  blank by then and adds the difference 0 to the number of addresses.
\<close>

fun merge_pass :: "block_entry_t list \<Rightarrow> u32 \<Rightarrow> nat \<Rightarrow> (block_entry_t list \<times> u32 \<times> nat) option" where
  "merge_pass [] nips merged = Some ([], nips, merged)"
| "merge_pass (e # rest) nips merged =
     (case name e of
        None \<Rightarrow> None
      | Some nm \<Rightarrow>
          let nm0 = trunc_name nm; (n, m) = absorb (ip_max e) rest in
          if n = 0 then
            (case merge_pass rest (count_ips nips (ip_max e - ip_min e)) merged of
               None \<Rightarrow> None
             | Some (es, r) \<Rightarrow> Some (e\<lparr>name := Some nm0\<rparr> # es, r))
          else
            (case merge_names nm0 (take n rest) of
               None \<Rightarrow> None
             | Some nm1 \<Rightarrow>
                 (case merge_pass (drop n rest) (count_ips nips 0) (merged + n) of
                    None \<Rightarrow> None
                  | Some (es, r) \<Rightarrow>
                      Some (e\<lparr>ip_max := m, name := Some (trunc_name nm1)\<rparr>
                              # map blank_entry (take n rest) @ es, r))))"

text \<open>Blank entries sort to the end and are cut off; then the merge starts over.\<close>

function merge_loop :: "(block_entry_t list \<Rightarrow> block_entry_t list) \<Rightarrow> block_entry_t list
      \<Rightarrow> (block_entry_t list \<times> u32) option" where
  "merge_loop qs es =
     (if es = [] then Some ([], 0)
      else (case merge_pass es 0 0 of
              None \<Rightarrow> None
            | Some (es', nips, merged) \<Rightarrow>
                if merged = 0 then Some (es', nips)
                else merge_loop qs (take (length es - merged) (qs es'))))"
  by pat_completeness auto
termination
  by (relation "measure (\<lambda>(qs, es). length es)") (auto simp: min_less_iff_disj)

definition blocklist_merge :: "(block_entry_t list \<Rightarrow> block_entry_t list) \<Rightarrow> blocklist_t
      \<Rightarrow> blocklist_t option" where
  "blocklist_merge qs bl =
     map_option (\<lambda>(es, nips). bl\<lparr>entries := es, numips := nips\<rparr>) (merge_loop qs (entries bl))"

text \<open>bsearch, and the search for the range of an address: the index of the entry found.\<close>

function bsearch :: "(block_entry_t \<Rightarrow> int) \<Rightarrow> block_entry_t list \<Rightarrow> nat \<Rightarrow> nat \<Rightarrow> nat option" where
  "bsearch cmp es l u =
     (if l < u
      then (let idx = (l + u) div 2; c = cmp (es ! idx)
            in if c < 0 then bsearch cmp es l idx
               else if c > 0 then bsearch cmp es (idx + 1) u
               else Some idx)
      else None)"
  by pat_completeness auto
termination
  by (relation "measure (\<lambda>(cmp, es, l, u). u - l)") auto

definition blocklist_find :: "u32 \<Rightarrow> blocklist_t \<Rightarrow> nat option" where
  "blocklist_find ip bl =
     bsearch (block_key_compare \<lparr>ip_min = ip, ip_max = ip, name = None, hits = 0\<rparr>)
       (entries bl) 0 (count bl)"

text \<open>
  The hit statistics: the entries reported, their total, and the list with the reported
  counters reset when asked.
\<close>

definition blocklist_stats :: "bool \<Rightarrow> blocklist_t \<Rightarrow> block_entry_t list \<times> u32 \<times> blocklist_t" where
  "blocklist_stats clearhits bl =
     (let hit = filter (\<lambda>e. hits e \<ge> 1) (entries bl)
      in (hit, sum_list (map hits hit),
          if clearhits
          then bl\<lparr>entries := map (\<lambda>e. if hits e \<ge> 1 then e\<lparr>hits := 0\<rparr> else e) (entries bl)\<rparr>
          else bl))"

subsection \<open>What the operations are about\<close>

text \<open>The addresses a list of entries covers, and lists whose ranges are apart.\<close>

definition covered :: "block_entry_t list \<Rightarrow> u32 set" where
  "covered es = (\<Union>e \<in> set es. {ip_min e .. ip_max e})"

fun separated :: "block_entry_t list \<Rightarrow> bool" where
  "separated [] = True"
| "separated (e # es) =
     ((\<forall>f \<in> set es. ip_max e < ip_min f \<and> ip_min e \<le> ip_min f) \<and> separated es)"

definition named :: "block_entry_t list \<Rightarrow> bool" where
  "named es \<longleftrightarrow> (\<forall>e \<in> set es. name e \<noteq> None)"

definition live :: "block_entry_t list \<Rightarrow> block_entry_t list" where
  "live es = filter (\<lambda>e. name e \<noteq> None) es"

definition proper :: "block_entry_t list \<Rightarrow> bool" where
  "proper es \<longleftrightarrow> (\<forall>e \<in> set es. ip_min e \<le> ip_max e)"

text \<open>Three ranges, two of them overlapping.\<close>

definition two_ranges :: blocklist_t where
  "two_ranges = foldr (\<lambda>(a, b, s). blocklist_append Some a b s)
     [(40, 50, ''c''), (15, 30, ''b''), (10, 20, ''a'')] blocklist_init"

declare merge_loop.simps [simp del] bsearch.simps [simp del]

subsection \<open>Merging and searching\<close>

lemma ip_le_last [simp]: "(x :: u32) \<le> ip_last"
  using unsigned_less[of x, where ?'a = nat] by (simp add: word_le_nat_alt)

lemma ip_less_Suc: "(m :: u32) \<noteq> ip_last \<Longrightarrow> m < m + 1"
proof -
  assume "m \<noteq> ip_last"
  then have "unat m \<noteq> 4294967295" by (simp add: word_unat_eq_iff)
  moreover have "unat m < 4294967296" using unsigned_less[of m, where ?'a = nat] by simp
  ultimately show ?thesis by (simp add: word_less_nat_alt unat_word_ariths)
qed

lemma interval_extend:
  fixes e f g m :: u32
  assumes "e \<le> f" "f \<le> m + 1" "m \<noteq> ip_last"
  shows "{e..m} \<union> {f..g} = {e..(if g > m then g else m)}"
proof -
  have "f \<le> x" if "m < x" for x :: u32
    using assms(2) inc_le[OF that] by simp
  then show ?thesis
    using assms(1) by (auto simp: not_le not_less) (meson not_le order_trans)+
qed

lemma covered_simps [simp]:
  "covered [] = {}" "covered (e # es) = {ip_min e .. ip_max e} \<union> covered es"
  "covered (xs @ ys) = covered xs \<union> covered ys"
  by (auto simp: covered_def)

lemma absorb_le: "fst (absorb m es) \<le> length es"
  by (induction m es rule: absorb.induct) (auto simp: Let_def split: prod.splits)

lemma absorb_covered:
  assumes "\<forall>f \<in> set es. lo \<le> ip_min f" "sorted (map ip_min es)"
  shows "{lo..m} \<union> covered (take (fst (absorb m es)) es) = {lo..snd (absorb m es)}"
  using assms
proof (induction m es rule: absorb.induct)
  case (2 m e es)
  show ?case
  proof (cases "m = ip_last")
    case True
    have "lo \<le> x" if "x \<in> covered (e # es)" for x
      using that "2.prems"(1) unfolding covered_def by (meson UN_E atLeastAtMost_iff order_trans)
    then show ?thesis using True by (auto simp del: covered_simps)
  next
    case False
    show ?thesis
    proof (cases "ip_min e > m + 1")
      case True
      then show ?thesis using \<open>m \<noteq> ip_last\<close> by simp
    next
      case not: False
      let ?m = "if ip_max e > m then ip_max e else m"
      have step: "{lo..m} \<union> {ip_min e..ip_max e} = {lo..?m}"
        using interval_extend[of lo "ip_min e" m "ip_max e"] "2.prems"(1) not False by simp
      have "{lo..?m} \<union> covered (take (fst (absorb ?m es)) es) = {lo..snd (absorb ?m es)}"
        using "2.IH"[OF False not] "2.prems" by simp
      with step False not show ?thesis
        by (simp add: Let_def split_beta Un_assoc[symmetric])
    qed
  qed
qed simp

lemma absorb_zero:
  assumes "fst (absorb m (e # es)) = 0"
  shows "m < ip_min e" "m \<noteq> ip_last" "snd (absorb m (e # es)) = m"
  using assms ip_less_Suc[of m] by (auto simp: Let_def split_beta split: if_splits)

lemma absorb_next:
  assumes "sorted (map ip_min es)" "f \<in> set (drop (fst (absorb m es)) es)"
  shows "snd (absorb m es) < ip_min f"
  using assms
proof (induction m es rule: absorb.induct)
  case (2 m e es)
  show ?case
  proof (cases "m = ip_last")
    case False
    show ?thesis
    proof (cases "ip_min e > m + 1")
      case True
      have "ip_min e \<le> ip_min f" using "2.prems" False True by auto
      with True ip_less_Suc[OF False] False show ?thesis by auto
    next
      case not: False
      then show ?thesis
        using "2.IH"[OF False not] "2.prems" False by (simp add: Let_def split_beta)
    qed
  qed (use "2.prems" in simp)
qed simp

lemma live_simps [simp]:
  "live [] = []" "live (e # es) = (if name e \<noteq> None then e # live es else live es)"
  "live (xs @ ys) = live xs @ live ys" "live (map blank_entry es) = []"
  by (simp_all add: live_def blank_entry_def filter_empty_conv)

lemma blank_simps [simp]:
  "name (blank_entry e) = None" "ip_min (blank_entry e) = ip_last" "ip_max (blank_entry e) = ip_last"
  by (simp_all add: blank_entry_def)

lemma merge_names_named: "merge_names nm es = Some nm' \<Longrightarrow> named es"
  by (induction nm es rule: merge_names.induct) (auto simp: named_def split: option.splits)

lemma merge_pass_Cons:
  assumes "merge_pass (e # rest) nips merged = Some (es', nips', merged')"
  obtains (keep) nm es1 where "name e = Some nm" "fst (absorb (ip_max e) rest) = 0"
      "merge_pass rest (count_ips nips (ip_max e - ip_min e)) merged = Some (es1, nips', merged')"
      "es' = e\<lparr>name := Some (trunc_name nm)\<rparr> # es1"
  | (swallow) nm nm1 n m es1 where "name e = Some nm" "absorb (ip_max e) rest = (n, m)" "0 < n"
      "merge_names (trunc_name nm) (take n rest) = Some nm1"
      "merge_pass (drop n rest) (count_ips nips 0) (merged + n) = Some (es1, nips', merged')"
      "es' = e\<lparr>ip_max := m, name := Some (trunc_name nm1)\<rparr> # map blank_entry (take n rest) @ es1"
  using assms by (auto simp: Let_def split: option.splits prod.splits if_splits)

lemma named_simps [simp]:
  "named []" "named (e # es) \<longleftrightarrow> name e \<noteq> None \<and> named es" "named (xs @ ys) \<longleftrightarrow> named xs \<and> named ys"
  by (auto simp: named_def)

lemma length_live: "length (live es) \<le> length es"
  by (simp add: live_def)

lemma covered_take_drop: "covered es = covered (take n es) \<union> covered (drop n es)"
  by (metis append_take_drop_id covered_simps(3))

lemma merge_pass_facts:
  "merge_pass es nips merged = Some (es', nips', merged') \<Longrightarrow> sorted (map ip_min es) \<Longrightarrow>
     length es' = length es \<and> merged' = merged + (length es' - length (live es'))
   \<and> covered (live es') = covered es \<and> named es
   \<and> ip_min ` set (live es') \<subseteq> ip_min ` set es
   \<and> (\<forall>e \<in> set es'. name e = None \<longrightarrow> ip_min e = ip_last)"
proof (induction es arbitrary: nips merged es' rule: length_induct)
  case (1 es)
  show ?case
  proof (cases es)
    case Nil
    with 1 show ?thesis by simp
  next
    case (Cons e rest)
    from "1.prems" Cons have so: "sorted (map ip_min rest)" "\<forall>f \<in> set rest. ip_min e \<le> ip_min f"
      by auto
    from "1.prems"(1)[unfolded Cons] show ?thesis
    proof (cases rule: merge_pass_Cons)
      case (keep nm es1)
      have "length rest < length es" using Cons by simp
      note IH = "1.IH"[rule_format, OF this keep(3) so(1)]
      with keep Cons length_live[of es1] show ?thesis by auto
    next
      case (swallow nm nm1 n m es1)
      have n: "n \<le> length rest" using absorb_le[of "ip_max e" rest] swallow(2) by simp
      have "length (drop n rest) < length es" "sorted (map ip_min (drop n rest))"
        using Cons so(1) by (auto simp: drop_map[symmetric] sorted_wrt_drop)
      note IH = "1.IH"[rule_format, OF this(1) swallow(5) this(2)]
      have cov: "{ip_min e..ip_max e} \<union> covered rest = {ip_min e..m} \<union> covered (drop n rest)"
        using absorb_covered[OF so(2,1), of "ip_max e"] swallow(2) covered_take_drop[of rest n] by auto
      have "named rest"
        using merge_names_named[OF swallow(4)] IH by (metis append_take_drop_id named_simps(3))
      moreover have "ip_min ` set (live es1) \<subseteq> ip_min ` set rest"
        using IH set_drop_subset[of n rest] by blast
      ultimately show ?thesis
        using IH swallow(1,6) cov n Cons length_live[of es1] by (auto dest: in_set_takeD)
    qed
  qed
qed

lemma merge_pass_none_merged:
  "merge_pass es nips merged = Some (es', nips', merged) \<Longrightarrow> sorted (map ip_min es) \<Longrightarrow>
     separated es' \<and> named es' \<and> es' = map (\<lambda>e. e\<lparr>name := map_option trunc_name (name e)\<rparr>) es
   \<and> nips' = foldl (\<lambda>n e. count_ips n (ip_max e - ip_min e)) nips es"
proof (induction es arbitrary: nips es')
  case (Cons e rest)
  from Cons.prems have so: "sorted (map ip_min rest)" "\<forall>f \<in> set rest. ip_min e \<le> ip_min f"
    by auto
  from Cons.prems(1) show ?case
  proof (cases rule: merge_pass_Cons)
    case (keep nm es1)
    note IH = Cons.IH[OF keep(3) so(1)]
    have "\<forall>f \<in> set rest. ip_max e < ip_min f"
      using absorb_next[OF so(1), of _ "ip_max e"] keep(2) absorb_zero(3)[of "ip_max e"]
      by (cases rest) auto
    with keep IH so(2) show ?thesis by auto
  next
    case (swallow nm nm1 n m es1)
    have "sorted (map ip_min (drop n rest))"
      using so(1) by (auto simp: drop_map[symmetric] sorted_wrt_drop)
    with merge_pass_facts[OF swallow(5)] swallow(3) show ?thesis by simp
  qed
qed simp

lemma live_named: "named es \<Longrightarrow> live es = es"
  by (simp add: live_def named_def)

lemma trunc_name_le: "length (trunc_name s) \<le> MAX_INMEMLABEL_LENGTH"
  by (simp add: trunc_name_def)

lemma merge_loop_named:
  "merge_loop qs es = Some r \<Longrightarrow> sorted (map ip_min es) \<Longrightarrow> named es"
  using merge_pass_facts[of es 0 0]
  by (subst (asm) merge_loop.simps) (auto simp: named_def split: option.splits if_splits)

lemma named_take: "named es \<Longrightarrow> named (take n es)"
  and named_drop: "named es \<Longrightarrow> named (drop n es)"
  by (auto simp: named_def dest: in_set_takeD in_set_dropD)

lemma merge_names_total: "named es \<Longrightarrow> merge_names nm es \<noteq> None"
  by (induction nm es rule: merge_names.induct) (auto simp: named_def)

lemma merge_pass_total: "named es \<Longrightarrow> merge_pass es nips merged \<noteq> None"
proof (induction es arbitrary: nips merged rule: length_induct)
  case (1 es)
  show ?case
  proof (cases es)
    case (Cons e rest)
    have rec: "merge_pass (drop n rest) a b \<noteq> None" for n a b
    proof -
      have "named (drop n rest)" "length (drop n rest) < length es"
        using "1.prems" Cons by (auto simp: named_drop)
      with "1.IH" show ?thesis by blast
    qed
    have nam: "merge_names nm (take n rest) \<noteq> None" for nm n
      using merge_names_total named_take "1.prems" Cons by (metis named_simps(2))
    from "1.prems" Cons obtain nm where "name e = Some nm" by (auto simp: named_def)
    with rec rec[of 0] nam Cons show ?thesis
      by (simp add: Let_def split_beta del: not_None_eq split: option.splits)
  qed simp
qed

lemma sorted_filter_prefix:
  "sorted (map ip_min es) \<Longrightarrow>
     filter (\<lambda>e. ip_min e \<noteq> ip_last) es = take (length (filter (\<lambda>e. ip_min e \<noteq> ip_last) es)) es"
proof (induction es)
  case (Cons e es)
  have "filter (\<lambda>e. ip_min e \<noteq> ip_last) es = []" if "ip_min e = ip_last"
    using Cons.prems that by (auto simp: filter_empty_conv intro: antisym)
  with Cons show ?case by auto
qed simp

locale block_sorter =
  fixes qs :: "block_entry_t list \<Rightarrow> block_entry_t list"
  assumes qs_mset: "mset (qs es) = mset es"
    and qs_sorted: "sorted_wrt (\<lambda>a b. block_entry_compare a b \<le> 0) (qs es)"
begin

lemma qs_set: "set (qs es) = set es"
  by (metis qs_mset set_mset_mset)

lemma qs_length: "length (qs es) = length es"
  by (metis qs_mset size_mset)

lemma qs_sorted_ip_min: "sorted (map ip_min (qs es))"
  using qs_sorted[of es]
  by (auto simp: sorted_map block_entry_compare_def elim!: sorted_wrt_mono_rel[rotated] split: if_splits)

lemma qs_live:
  assumes "named (take (length (live es)) (qs es))"
  shows "set (take (length (live es)) (qs es)) = set (live es)"
proof -
  let ?k = "length (live es)"
  have "mset (live (qs es)) = mset (live es)"
    by (simp add: live_def qs_mset)
  moreover have "live (qs es) = take ?k (qs es) @ live (drop ?k (qs es))"
    using live_simps(3)[of "take ?k (qs es)" "drop ?k (qs es)"] assms
    by (simp add: live_named)
  moreover have "length (take ?k (qs es)) = ?k"
    using length_live[of es] by (simp add: qs_length)
  ultimately show ?thesis
    by (metis add_eq_self_zero append_Nil2 length_0_conv length_append mset_eq_setD size_mset)
qed

lemma merge_loop_correct:
  "merge_loop qs es = Some (es2, nips) \<Longrightarrow> sorted (map ip_min es) \<Longrightarrow>
     covered es2 = covered es \<and> separated es2
     \<and> (\<forall>e \<in> set es2. \<exists>nm. name e = Some nm \<and> length nm \<le> MAX_INMEMLABEL_LENGTH)"
proof (induction "length es" arbitrary: es rule: less_induct)
  case less
  show ?case
  proof (cases "es = []")
    case True
    with less.prems show ?thesis by (simp add: merge_loop.simps)
  next
    case False
    with less.prems(1) obtain es' n m where mp: "merge_pass es 0 0 = Some (es', n, m)"
      by (subst (asm) merge_loop.simps) (auto split: option.splits)
    show ?thesis
    proof (cases "m = 0")
      case True
      with less.prems False mp have "es2 = es'"
        by (simp add: merge_loop.simps)
      with merge_pass_none_merged[of es 0 0 es' n] mp True less.prems(2) show ?thesis
        using trunc_name_le by (fastforce simp: covered_def named_def)
    next
      case m: False
      let ?k = "take (length es - m) (qs es')"
      note f = merge_pass_facts[OF mp less.prems(2)]
      from f length_live[of es'] have len: "length es - m = length (live es')" by simp
      from less.prems False mp m have loop: "merge_loop qs ?k = Some (es2, nips)"
        by (simp add: merge_loop.simps)
      have so: "sorted (map ip_min ?k)"
        using qs_sorted_ip_min[of es'] by (simp add: take_map[symmetric] sorted_wrt_take)
      have "length ?k < length es" using False m by (simp add: min_less_iff_disj)
      note IH = less.hyps[OF this loop so]
      have "named ?k"
        using merge_loop_named[OF loop so] .
      with qs_live[of es'] len have "covered ?k = covered (live es')"
        by (simp add: covered_def)
      with IH f show ?thesis by simp
    qed
  qed
qed

lemma merge_loop_total:
  "named es \<Longrightarrow> \<forall>e \<in> set es. ip_min e \<noteq> ip_last \<Longrightarrow> sorted (map ip_min es) \<Longrightarrow>
     merge_loop qs es \<noteq> None"
proof (induction "length es" arbitrary: es rule: less_induct)
  case less
  show ?case
  proof (cases "es = []")
    case True
    then show ?thesis by (simp add: merge_loop.simps)
  next
    case False
    from merge_pass_total[OF less.prems(1)] obtain es' n m
      where mp: "merge_pass es 0 0 = Some (es', n, m)" by fastforce
    show ?thesis
    proof (cases "m = 0")
      case m: False
      let ?k = "take (length es - m) (qs es')"
      note f = merge_pass_facts[OF mp less.prems(3)]
      from f length_live[of es'] have len: "length es - m = length (live es')" by simp
      have "name e = None \<longleftrightarrow> ip_min e = ip_last" if "e \<in> set es'" for e
        using f less.prems(2) that by (fastforce simp: live_def)
      then have "live (qs es') = filter (\<lambda>e. ip_min e \<noteq> ip_last) (qs es')"
        unfolding live_def by (intro filter_cong) (simp_all add: qs_set del: not_None_eq)
      moreover have "length (live (qs es')) = length (live es')"
        by (metis live_def mset_filter qs_mset size_mset)
      ultimately have k: "?k = live (qs es')"
        using sorted_filter_prefix[OF qs_sorted_ip_min[of es']] len by simp
      have "named ?k" by (auto simp: k named_def live_def)
      moreover have "\<forall>e \<in> set ?k. ip_min e \<noteq> ip_last"
        unfolding k using f less.prems(2) by (fastforce simp: live_def qs_set)
      moreover have "sorted (map ip_min ?k)"
        using qs_sorted_ip_min[of es'] by (simp add: take_map[symmetric] sorted_wrt_take)
      moreover have "length ?k < length es" using False m by (simp add: min_less_iff_disj)
      ultimately have "merge_loop qs ?k \<noteq> None" using less.hyps by blast
      with mp m False show ?thesis by (subst merge_loop.simps) simp
    qed (use False mp in \<open>simp add: merge_loop.simps\<close>)
  qed
qed

end

lemma separated_nth:
  assumes "separated es" "i < j" "j < length es"
  shows "ip_max (es ! i) < ip_min (es ! j)" "ip_min (es ! i) \<le> ip_min (es ! j)"
proof -
  have "separated es = sorted_wrt (\<lambda>e f. ip_max e < ip_min f \<and> ip_min e \<le> ip_min f) es"
    by (induction es) auto
  with assms show "ip_max (es ! i) < ip_min (es ! j)" "ip_min (es ! i) \<le> ip_min (es ! j)"
    by (auto dest: sorted_wrt_nth_less)
qed

lemma bsearch_correct:
  fixes ip :: u32
  defines "cmp \<equiv> block_key_compare \<lparr>ip_min = ip, ip_max = ip, name = None, hits = 0\<rparr>"
  assumes "separated es" "u \<le> length es"
  shows "case bsearch cmp es l u of
           Some i \<Rightarrow> l \<le> i \<and> i < u \<and> ip \<in> {ip_min (es ! i)..ip_max (es ! i)}
         | None \<Rightarrow> \<forall>i \<in> {l..<u}. ip \<notin> {ip_min (es ! i)..ip_max (es ! i)}"
  using assms(3)
proof (induction "u - l" arbitrary: l u rule: less_induct)
  case less
  let ?i = "(l + u) div 2"
  let ?in = "\<lambda>j. ip \<in> {ip_min (es ! j)..ip_max (es ! j)}"
  show ?case
  proof (cases "l < u")
    case True
    then have i: "l \<le> ?i" "?i < u" by auto
    have unf: "bsearch cmp es l u = (if ip < ip_min (es ! ?i) then bsearch cmp es l ?i
        else if ip > ip_max (es ! ?i) then bsearch cmp es (?i + 1) u else Some ?i)"
      using True by (subst bsearch.simps) (simp add: cmp_def block_key_compare_def Let_def)
    consider (lo) "ip < ip_min (es ! ?i)" | (hi) "ip_min (es ! ?i) \<le> ip" "ip_max (es ! ?i) < ip"
      | (eq) "?in ?i" by (meson atLeastAtMost_iff not_le)
    then show ?thesis
    proof cases
      case lo
      have out: "\<not> ?in j" if "?i \<le> j" "j < u" for j
        using lo separated_nth(2)[OF assms(2), of ?i j] that less.prems by (cases "j = ?i") auto
      have "\<forall>j \<in> {l..<u}. \<not> ?in j" if "\<forall>j \<in> {l..<?i}. \<not> ?in j"
        using that out by (metis atLeastLessThan_iff not_le)
      moreover have "?i - l < u - l" "?i \<le> length es" using i less.prems by auto
      note less.hyps[OF this]
      ultimately show ?thesis using lo i by (auto simp: unf split: option.splits)
    next
      case hi
      have out: "\<not> ?in j" if "l \<le> j" "j \<le> ?i" for j
        using hi separated_nth(1)[OF assms(2), of j ?i] that less.prems i by (cases "j = ?i") auto
      have "\<forall>j \<in> {l..<u}. \<not> ?in j" if "\<forall>j \<in> {?i + 1..<u}. \<not> ?in j"
        using that out by (metis Suc_eq_plus1 atLeastLessThan_iff not_less_eq_eq)
      moreover have "u - (?i + 1) < u - l" using i by auto
      note less.hyps[OF this less.prems]
      ultimately show ?thesis using hi i by (auto simp: unf split: option.splits)
    qed (use i in \<open>auto simp: unf\<close>)
  qed (simp add: bsearch.simps)
qed

lemma blocklist_find_separated:
  assumes "separated (entries bl)"
  shows "(\<exists>i. blocklist_find ip bl = Some i) \<longleftrightarrow> ip \<in> covered (entries bl)"
    and "blocklist_find ip bl = Some i \<Longrightarrow> i < length (entries bl)
           \<and> ip_min (entries bl ! i) \<le> ip \<and> ip \<le> ip_max (entries bl ! i)"
proof -
  note c = bsearch_correct[OF assms order.refl, of 0 ip]
  show "(\<exists>i. blocklist_find ip bl = Some i) \<longleftrightarrow> ip \<in> covered (entries bl)"
    using c by (fastforce simp: blocklist_find_def count_def covered_def in_set_conv_nth
        split: option.splits)
  show "i < length (entries bl) \<and> ip_min (entries bl ! i) \<le> ip \<and> ip \<le> ip_max (entries bl ! i)"
    if "blocklist_find ip bl = Some i"
    using c that by (simp add: blocklist_find_def count_def)
qed

context block_sorter
begin

lemma sort_merge_total:
  assumes "named (entries bl)" "\<forall>e \<in> set (entries bl). ip_min e \<noteq> ip_last"
  obtains bl' where "blocklist_merge qs (blocklist_sort qs bl) = Some bl'"
  using merge_loop_total[of "qs (entries bl)"] assms qs_set[of "entries bl"] qs_sorted_ip_min
  by (auto simp: blocklist_merge_def blocklist_sort_def named_def)

lemma sort_merge_correct:
  assumes "blocklist_merge qs (blocklist_sort qs bl) = Some bl'"
  shows "separated (entries bl')" "covered (entries bl') = covered (entries bl)"
    "\<forall>e \<in> set (entries bl'). \<exists>nm. name e = Some nm \<and> length nm \<le> MAX_INMEMLABEL_LENGTH"
  using merge_loop_correct[of "qs (entries bl)"] assms qs_set[of "entries bl"] qs_sorted_ip_min
  by (fastforce simp: blocklist_merge_def blocklist_sort_def covered_def)+

end

lemma absorb_grows: "m \<le> snd (absorb m es)"
  by (induction m es rule: absorb.induct) (auto simp: Let_def split_beta intro: order.strict_implies_order order_trans)

lemma merge_pass_proper:
  "merge_pass es nips merged = Some (es', nips', merged') \<Longrightarrow> proper es \<Longrightarrow> proper es'"
proof (induction es arbitrary: nips merged es' rule: length_induct)
  case (1 es)
  show ?case
  proof (cases es)
    case (Cons e rest)
    from "1.prems"(1)[unfolded Cons] show ?thesis
    proof (cases rule: merge_pass_Cons)
      case (keep nm es1)
      then show ?thesis using "1.IH"[rule_format, OF _ keep(3)] "1.prems"(2) Cons
        by (auto simp: proper_def)
    next
      case (swallow nm nm1 n m es1)
      then have "ip_max e \<le> m" using absorb_grows[of "ip_max e" rest] by simp
      moreover have "proper es1"
        using "1.IH"[rule_format, OF _ swallow(5)] "1.prems"(2) Cons set_drop_subset[of n rest]
        by (auto simp: proper_def less_Suc_eq_le subset_iff)
      ultimately show ?thesis using "1.prems"(2) Cons swallow(6)
        by (auto simp: proper_def intro: order_trans)
    qed
  qed (use "1.prems" in simp)
qed

lemma card_interval: "(a :: u32) \<le> b \<Longrightarrow> card {a..b} = unat b - unat a + 1"
proof -
  assume "a \<le> b"
  have "unat ` {a..b} = {unat a..unat b}"
  proof (intro set_eqI iffI)
    fix x assume x: "x \<in> {unat a..unat b}"
    then have "x < 2 ^ 32" using unsigned_less[of b, where ?'a = nat] by simp
    with x have "x = unat (of_nat x :: u32)" "of_nat x \<in> {a..b}"
      by (simp_all add: word_le_nat_alt unat_of_nat)
    then show "x \<in> unat ` {a..b}" by blast
  qed (auto simp: word_le_nat_alt)
  then have "card {a..b} = card {unat a..unat b}"
    by (metis card_image inj_on_def word_unat_eq_iff)
  then show ?thesis using \<open>a \<le> b\<close> by (simp add: word_le_nat_alt)
qed

lemma count_ips_unat:
  assumes "unat n = min s (2 ^ 32 - 1)" "s + unat d + 1 \<le> 2 ^ 32"
  shows "unat (count_ips n d) = min (s + unat d + 1) (2 ^ 32 - 1)"
proof -
  have "unat (n + d) = unat n + unat d" using assms by (intro unat_add_lem[THEN iffD1]) auto
  moreover have "unat (n + d + 1) = unat (n + d) + 1" if "unat (n + d) < 2 ^ 32 - 1"
    using that unat_add_lem[of "n + d" 1] by simp
  ultimately show ?thesis using assms
    by (auto simp: count_ips_def Let_def word_less_nat_alt)
qed

lemma card_covered_Cons:
  assumes "separated (e # es)" "proper (e # es)"
  shows "card (covered (e # es)) = unat (ip_max e - ip_min e) + 1 + card (covered es)"
proof -
  have "{ip_min e..ip_max e} \<inter> covered es = {}"
    using assms by (fastforce simp: covered_def)
  moreover have "unat (ip_max e - ip_min e) = unat (ip_max e) - unat (ip_min e)"
    using assms(2) by (simp add: proper_def unat_sub)
  ultimately show ?thesis using assms(2) card_interval[of "ip_min e" "ip_max e"]
    by (simp add: card_Un_disjoint proper_def)
qed

lemma separated_map: "separated (map (\<lambda>e. e\<lparr>name := f (name e)\<rparr>) es) = separated es"
  by (induction es) auto

lemma foldl_count_ips:
  assumes "separated es" "proper es" "unat n = min s (2 ^ 32 - 1)" "s + card (covered es) \<le> 2 ^ 32"
  shows "unat (foldl (\<lambda>n e. count_ips n (ip_max e - ip_min e)) n es)
         = min (s + card (covered es)) (2 ^ 32 - 1)"
  using assms
proof (induction es arbitrary: n s)
  case (Cons e es)
  note c = card_covered_Cons[OF Cons.prems(1,2)]
  have "unat (count_ips n (ip_max e - ip_min e)) = min (s + unat (ip_max e - ip_min e) + 1) (2 ^ 32 - 1)"
    using count_ips_unat Cons.prems(3,4) c by simp
  from Cons.IH[OF _ _ this] Cons.prems c show ?case by (simp add: proper_def add.assoc)
qed simp

context block_sorter
begin

lemma merge_loop_numips:
  "merge_loop qs es = Some (es2, nips) \<Longrightarrow> sorted (map ip_min es) \<Longrightarrow> proper es \<Longrightarrow>
     unat nips = min (card (covered es)) (2 ^ 32 - 1)"
proof (induction "length es" arbitrary: es rule: less_induct)
  case less
  show ?case
  proof (cases "es = []")
    case True
    with less.prems show ?thesis by (simp add: merge_loop.simps)
  next
    case False
    with less.prems(1) obtain es' n m where mp: "merge_pass es 0 0 = Some (es', n, m)"
      by (subst (asm) merge_loop.simps) (auto split: option.splits)
    show ?thesis
    proof (cases "m = 0")
      case True
      with less.prems False mp have r: "es2 = es'" "nips = n"
        by (simp_all add: merge_loop.simps)
      from mp True merge_pass_none_merged[of es 0 0 es' n] less.prems(2) have
        "separated es" "n = foldl (\<lambda>n e. count_ips n (ip_max e - ip_min e)) 0 es"
        by (auto simp: separated_map)
      moreover have "card (covered es) \<le> 2 ^ 32"
        using card_mono[of UNIV "covered es"] by (simp add: card_word)
      ultimately show ?thesis
        using foldl_count_ips[of es 0 0] less.prems(3) r by simp
    next
      case m: False
      let ?k = "take (length es - m) (qs es')"
      from less.prems False mp m have loop: "merge_loop qs ?k = Some (es2, nips)"
        by (simp add: merge_loop.simps)
      have so: "sorted (map ip_min ?k)"
        using qs_sorted_ip_min[of es'] by (simp add: take_map[symmetric] sorted_wrt_take)
      have "proper ?k"
        using merge_pass_proper[OF mp less.prems(3)]
        by (auto simp: proper_def qs_set dest!: in_set_takeD)
      moreover have "length ?k < length es" using False m by (simp add: min_less_iff_disj)
      ultimately have "unat nips = min (card (covered ?k)) (2 ^ 32 - 1)"
        using less.hyps loop so by blast
      moreover have "covered ?k = covered es"
        using merge_loop_correct[OF loop so] merge_loop_correct[OF less.prems(1,2)] by simp
      ultimately show ?thesis by simp
    qed
  qed
qed

lemma sort_merge_numips:
  assumes "blocklist_merge qs (blocklist_sort qs bl) = Some bl'" "proper (entries bl)"
  shows "unat (numips bl') = min (card (covered (entries bl))) (2 ^ 32 - 1)"
  using merge_loop_numips[of "qs (entries bl)"] assms qs_set[of "entries bl"] qs_sorted_ip_min
  by (fastforce simp: blocklist_merge_def blocklist_sort_def covered_def proper_def)

end

text \<open>The C library's qsort may be any such function; a stable sort is one of them.\<close>

interpretation stable: block_sorter "sort_key ip_min"
proof
  fix es :: "block_entry_t list"
  show "mset (sort_key ip_min es) = mset es" by simp
  show "sorted_wrt (\<lambda>a b. block_entry_compare a b \<le> 0) (sort_key ip_min es)"
    using sorted_sort_key[of ip_min es] unfolding sorted_map
    by (rule sorted_wrt_mono_rel[rotated]) (auto simp: block_entry_compare_def)
qed

lemma two_ranges_facts:
  "named (entries two_ranges)" "\<forall>e \<in> set (entries two_ranges). ip_min e \<noteq> ip_last"
  "proper (entries two_ranges)"
  "25 \<in> covered (entries two_ranges)" "35 \<notin> covered (entries two_ranges)"
  by (simp_all add: two_ranges_def blocklist_append_def blocklist_init_def Let_def named_def proper_def)

subsection \<open>Properties\<close>

text \<open>
  C2. For every sorting function that does what the C standard promises of qsort, and any
  list of ranges that were appended with a name and do not start at the last address:
  sorting and merging succeeds, and afterwards the binary search finds an entry for an
  address exactly if one of the original ranges contains it; the entry found contains it.
\<close>

theorem blocklist_find_correct:
  assumes "block_sorter qs" "named (entries bl)" "\<forall>e \<in> set (entries bl). ip_min e \<noteq> ip_last"
  shows "\<exists>bl'. blocklist_merge qs (blocklist_sort qs bl) = Some bl'
     \<and> (\<forall>ip. blocklist_find ip bl' \<noteq> None \<longleftrightarrow> ip \<in> covered (entries bl))
     \<and> (\<forall>ip i. blocklist_find ip bl' = Some i \<longrightarrow> i < count bl'
          \<and> ip_min (entries bl' ! i) \<le> ip \<and> ip \<le> ip_max (entries bl' ! i))"
proof -
  obtain bl' where m: "blocklist_merge qs (blocklist_sort qs bl) = Some bl'"
    using block_sorter.sort_merge_total[OF assms] .
  from blocklist_find_separated[OF block_sorter.sort_merge_correct(1)[OF assms(1) m]]
    block_sorter.sort_merge_correct(2)[OF assms(1) m] m
  show ?thesis by (simp add: count_def)
qed

theorem blocklist_find_correct_witness:
  "\<exists>bl'. blocklist_merge (sort_key ip_min) (blocklist_sort (sort_key ip_min) two_ranges) = Some bl'
     \<and> blocklist_find 25 bl' \<noteq> None \<and> blocklist_find 35 bl' = None"
  using blocklist_find_correct[OF stable.block_sorter_axioms two_ranges_facts(1,2)]
    two_ranges_facts(4,5) by blast

text \<open>
  C28. What the merge leaves: the same addresses in ascending, disjoint ranges, and every
  name present and no longer than the in-memory limit of 64 characters.
\<close>

theorem blocklist_merge_canonical:
  assumes "block_sorter qs" "blocklist_merge qs (blocklist_sort qs bl) = Some bl'"
  shows "separated (entries bl') \<and> covered (entries bl') = covered (entries bl)
     \<and> (\<forall>e \<in> set (entries bl'). \<exists>nm. name e = Some nm \<and> length nm \<le> MAX_INMEMLABEL_LENGTH)"
  using block_sorter.sort_merge_correct[OF assms] by blast

theorem blocklist_merge_canonical_witness:
  "\<exists>bl'. blocklist_merge (sort_key ip_min) (blocklist_sort (sort_key ip_min) two_ranges) = Some bl'
     \<and> separated (entries bl')"
proof -
  obtain bl' where "blocklist_merge (sort_key ip_min) (blocklist_sort (sort_key ip_min) two_ranges) = Some bl'"
    using stable.sort_merge_total[OF two_ranges_facts(1,2)] .
  then show ?thesis
    using blocklist_merge_canonical[OF stable.block_sorter_axioms] by blast
qed




end
