(* ===== verification/C_Stdlib.thy ===== *)
theory C_Stdlib
  imports Dowse_Prelude
begin

text \<open>
  The functions of the C library that the programs parse and print with: decimal numbers,
  the conversions of \<^verbatim>\<open>sscanf\<close> that occur in the sources, and \<^verbatim>\<open>fgets\<close>. They are modelled as
  glibc has them on a 64-bit machine: a decimal number that does not fit a long saturates,
  and \<^verbatim>\<open>%d\<close> stores its low 32 bits. The input of a reader is the list of the bytes that are
  left.
\<close>

subsection \<open>Decimal numbers\<close>

definition digit_char :: "nat \<Rightarrow> char" where
  "digit_char d = char_of (48 + d)"

definition digit_val :: "char \<Rightarrow> nat" where
  "digit_val c = of_char c - 48"

fun show_nat :: "nat \<Rightarrow> string" where
  "show_nat n = (if n < 10 then [digit_char n] else show_nat (n div 10) @ [digit_char (n mod 10)])"

declare show_nat.simps [simp del]

definition read_nat :: "string \<Rightarrow> nat" where
  "read_nat ds = foldl (\<lambda>a c. a * 10 + digit_val c) 0 ds"

definition clamp_long :: "int \<Rightarrow> int" where
  "clamp_long v = max (- (2 ^ 63)) (min (2 ^ 63 - 1) v)"

text \<open>
  The number at the start of a text, behind white space and a sign, and the unread rest;
  \<open>None\<close> if there is none.
\<close>

definition scan_long :: "string \<Rightarrow> (int \<times> string) option" where
  "scan_long s =
     (let s1 = dropWhile isspace s;
          (neg, s2) = (case s1 of c # cs \<Rightarrow> if c = CHR ''-'' then (True, cs)
                          else if c = CHR ''+'' then (False, cs) else (False, s1)
                        | [] \<Rightarrow> (False, []));
          ds = takeWhile isdigit s2
      in if ds = [] then None
         else Some (if neg then - int (read_nat ds) else int (read_nat ds), drop (length ds) s2))"

definition strtol10 :: "string \<Rightarrow> (int \<times> string) option" where
  "strtol10 s = map_option (\<lambda>(v, r). (clamp_long v, r)) (scan_long s)"

text \<open>strtol in base 10: the value, what the end pointer points to and whether errno is set.\<close>

definition strtol :: "string \<Rightarrow> int \<times> string \<times> bool" where
  "strtol s = (case scan_long s of None \<Rightarrow> (0, s, False) | Some (v, r) \<Rightarrow> (clamp_long v, r, clamp_long v \<noteq> v))"

definition to_int32 :: "int \<Rightarrow> int" where
  "to_int32 v = (v + 2 ^ 31) mod 2 ^ 32 - 2 ^ 31"

definition atoi :: "string \<Rightarrow> int" where
  "atoi s = (case strtol10 s of None \<Rightarrow> 0 | Some (v, _) \<Rightarrow> to_int32 v)"

definition show_int :: "int \<Rightarrow> string" where
  "show_int v = (if v < 0 then CHR ''-'' # show_nat (nat (- v)) else show_nat (nat v))"

text \<open>The conversion \<^verbatim>\<open>%02x\<close> of a byte.\<close>

definition hex_digit :: "nat \<Rightarrow> char" where
  "hex_digit n = char_of (if n < 10 then 48 + n else 87 + n)"

definition hex2 :: "u8 \<Rightarrow> string" where
  "hex2 b = [hex_digit (unat b div 16), hex_digit (unat b mod 16)]"

text \<open>The dotted form of an address that is given in host order.\<close>

definition octet :: "nat \<Rightarrow> u32 \<Rightarrow> nat" where
  "octet k ip = (unat ip div 2 ^ (8 * k)) mod 256"

definition inet_ntoa :: "u32 \<Rightarrow> string" where
  "inet_ntoa ip = show_nat (octet 3 ip) @ ''.'' @ show_nat (octet 2 ip) @ ''.''
     @ show_nat (octet 1 ip) @ ''.'' @ show_nat (octet 0 ip)"

subsection \<open>Scanning\<close>

text \<open>
  The items of a format: a literal character, white space, \<^verbatim>\<open>%d\<close>, a character class with a
  width, and a class that is skipped. The result is the list of the values assigned, up to
  the first item that does not match.
\<close>

datatype scan_item = Lit char | White | Dec | Class nat "char \<Rightarrow> bool" | Skip "char \<Rightarrow> bool"
datatype scan_val = IntV int | StrV string

fun sscanf :: "scan_item list \<Rightarrow> string \<Rightarrow> scan_val list" where
  "sscanf [] s = []"
| "sscanf (White # fs) s = sscanf fs (dropWhile isspace s)"
| "sscanf (Lit c # fs) s =
     (case s of x # xs \<Rightarrow> if x = c then sscanf fs xs else [] | [] \<Rightarrow> [])"
| "sscanf (Dec # fs) s =
     (case strtol10 s of None \<Rightarrow> [] | Some (v, r) \<Rightarrow> IntV (to_int32 v) # sscanf fs r)"
| "sscanf (Class w p # fs) s =
     (let t = takeWhile p (take w s)
      in if t = [] then [] else StrV t # sscanf fs (drop (length t) s))"
| "sscanf (Skip p # fs) s =
     (let t = takeWhile p s in if t = [] then [] else sscanf fs (drop (length t) s))"

subsection \<open>Reading lines\<close>

text \<open>
  fgets with a buffer of \<open>n\<close> bytes: at most \<open>n - 1\<close> bytes, up to and including a newline;
  \<open>None\<close> at the end of the file.
\<close>

definition fgets :: "nat \<Rightarrow> char list \<Rightarrow> (char list \<times> char list) option" where
  "fgets n s =
     (if s = [] then None
      else let body = takeWhile (\<lambda>c. c \<noteq> CHR 0x0A) s;
               k = min (n - 1) (if length body < length s then Suc (length body) else length body)
           in Some (take k s, drop k s))"

subsection \<open>Tokens\<close>

text \<open>The tokens that repeated calls of strtok with one delimiter return.\<close>

function (sequential) strtok_all :: "char \<Rightarrow> string \<Rightarrow> string list" where
  "strtok_all c s =
     (let r = dropWhile (\<lambda>x. x = c) s
      in if r = [] then [] else takeWhile (\<lambda>x. x \<noteq> c) r # strtok_all c (dropWhile (\<lambda>x. x \<noteq> c) r))"
  by pat_completeness auto
termination strtok_all
proof (relation "measure (\<lambda>(c, s). length s)", goal_cases)
  case (2 c s r)
  obtain x xs where r: "r = x # xs" using 2(2) by (meson neq_Nil_conv)
  have "x \<noteq> c" using 2 r hd_dropWhile[of "\<lambda>x. x = c" s] by (metis list.sel(1))
  then have "length (dropWhile (\<lambda>x. x \<noteq> c) r) < length r" by (simp add: r le_imp_less_Suc length_dropWhile_le)
  moreover have "length r \<le> length s" unfolding 2(1) by (rule length_dropWhile_le)
  ultimately show ?case by simp
qed simp

declare strtok_all.simps [simp del]

subsection \<open>Command lines\<close>

text \<open>
  getopt with short options: for every option character whether it takes an argument. The
  result is the list of the options found, in order, an unknown or incomplete one as \<open>?\<close>,
  and the operands. Options after an operand are found too, unless \<open>stop\<close> is set.
\<close>

fun getopt_word :: "(char \<Rightarrow> bool option) \<Rightarrow> string \<Rightarrow> (char \<times> string) list \<times> char option" where
  "getopt_word spec [] = ([], None)"
| "getopt_word spec (c # cs) =
     (case spec c of
        None \<Rightarrow> let (os, n) = getopt_word spec cs in ((CHR ''?'', []) # os, n)
      | Some False \<Rightarrow> let (os, n) = getopt_word spec cs in ((c, []) # os, n)
      | Some True \<Rightarrow> if cs = [] then ([], Some c) else ([(c, cs)], None))"

fun getopt :: "bool \<Rightarrow> (char \<Rightarrow> bool option) \<Rightarrow> string list \<Rightarrow> (char \<times> string) list \<times> string list" where
  "getopt stop spec [] = ([], [])"
| "getopt stop spec (a # as) =
     (if a = ''--'' then ([], as)
      else if length a > 1 \<and> hd a = CHR ''-'' then
        (let (os, n) = getopt_word spec (tl a)
         in case n of
              None \<Rightarrow> let (os', rs) = getopt stop spec as in (os @ os', rs)
            | Some c \<Rightarrow>
                (case as of
                   [] \<Rightarrow> (os @ [(CHR ''?'', [])], [])
                 | b # bs \<Rightarrow> let (os', rs) = getopt stop spec bs in (os @ (c, b) # os', rs)))
      else if stop then ([], a # as)
      else let (os', rs) = getopt stop spec as in (os', a # rs))"

subsection \<open>Printing and reading back\<close>

lemma digit_char_simps [simp]:
  assumes "d < 10"
  shows "isdigit (digit_char d)" "digit_val (digit_char d) = d"
  using assms by (simp_all add: isdigit_def digit_char_def digit_val_def)

lemma digit_chars [scan_simps]:
  "digit_char 0 = CHR ''0''" "digit_char (Suc 0) = CHR ''1''" "digit_char 2 = CHR ''2''"
  "digit_char 3 = CHR ''3''" "digit_char 4 = CHR ''4''" "digit_char 5 = CHR ''5''"
  "digit_char 6 = CHR ''6''" "digit_char 7 = CHR ''7''" "digit_char 8 = CHR ''8''"
  "digit_char 9 = CHR ''9''"
  by code_simp+

lemma show_nat_steps [scan_simps]:
  "n < 10 \<Longrightarrow> show_nat n = [digit_char n]"
  "10 \<le> n \<Longrightarrow> show_nat n = show_nat (n div 10) @ [digit_char (n mod 10)]"
  by (subst show_nat.simps, simp)+

lemma show_nat_digits: "\<forall>c \<in> set (show_nat n). isdigit c"
  by (induction n rule: show_nat.induct) (subst show_nat.simps, auto)

lemma show_nat_nonempty [simp]: "show_nat n \<noteq> []"
  by (subst show_nat.simps) simp

lemma read_show_nat [simp]: "read_nat (show_nat n) = n"
proof (induction n rule: show_nat.induct)
  case (1 n)
  then show ?case
    by (subst show_nat.simps) (simp add: read_nat_def)
qed

lemma show_nat_length: "n < 10 ^ k \<Longrightarrow> 0 < k \<Longrightarrow> length (show_nat n) \<le> k"
proof (induction k arbitrary: n)
  case (Suc k)
  show ?case
  proof (cases "n < 10")
    case False
    then have "0 < k" using Suc.prems by (cases k) auto
    moreover have "n div 10 < 10 ^ k" using Suc.prems by (simp add: less_mult_imp_div_less mult.commute)
    ultimately show ?thesis using False Suc.IH[of "n div 10"] by (subst show_nat.simps) simp
  qed (subst show_nat.simps, simp)
qed simp

lemma octet_less [simp]: "octet k ip < 256"
  by (simp add: octet_def)

lemma isdigit_not_special [simp]:
  "isdigit c \<Longrightarrow> c \<noteq> CHR ''-''" "isdigit c \<Longrightarrow> c \<noteq> CHR ''+''" "isdigit c \<Longrightarrow> \<not> isspace c"
  by (auto simp: isdigit_def isspace_def)

lemma to_int32_small [simp]: "- (2 ^ 31) \<le> v \<Longrightarrow> v < 2 ^ 31 \<Longrightarrow> to_int32 v = v"
  by (simp add: to_int32_def)

text \<open>A printed number that is followed by a non-digit is read back, and the rest is left.\<close>

lemma scan_long_show:
  assumes "r = [] \<or> \<not> isdigit (hd r)"
  shows "scan_long (show_nat n @ r) = Some (int n, r)"
proof -
  obtain d ds where d: "show_nat n = d # ds" by (cases "show_nat n") auto
  have dig: "isdigit d" using show_nat_digits[of n] d by simp
  have tw: "takeWhile isdigit (show_nat n @ r) = show_nat n"
    using show_nat_digits[of n] assms by (cases r) (auto simp: takeWhile_append2)
  have dw: "dropWhile isspace (show_nat n @ r) = show_nat n @ r"
    using dig by (simp add: d)
  have "(case show_nat n @ r of c # cs \<Rightarrow> if c = CHR ''-'' then (True, cs)
          else if c = CHR ''+'' then (False, cs) else (False, show_nat n @ r)
        | [] \<Rightarrow> (False, [])) = (False, show_nat n @ r)"
    using isdigit_not_special[OF dig] by (simp add: d)
  then show ?thesis
    by (simp add: scan_long_def Let_def tw dw)
qed

lemma strtol10_show [scan_simps]:
  assumes "int n < 2 ^ 63" "r = [] \<or> \<not> isdigit (hd r)"
  shows "strtol10 (show_nat n @ r) = Some (int n, r)"
  using assms(1) by (simp add: strtol10_def scan_long_show[OF assms(2)] clamp_long_def)

lemma strtol_show:
  assumes "int n < 2 ^ 63" "r = [] \<or> \<not> isdigit (hd r)"
  shows "strtol (show_nat n @ r) = (int n, r, False)"
  using assms(1) by (simp add: strtol_def scan_long_show[OF assms(2)] clamp_long_def)

lemma sscanf_dec_show [scan_simps]:
  assumes "n < 2 ^ 31" "r = [] \<or> \<not> isdigit (hd r)"
  shows "sscanf (Dec # fs) (show_nat n @ r) = IntV (int n) # sscanf fs r"
  using assms strtol10_show[of n r] by simp

lemma sscanf_class [scan_simps]:
  assumes "\<forall>c \<in> set t. p c" "t \<noteq> []" "length t \<le> w" "r = [] \<or> \<not> p (hd r)"
  shows "sscanf (Class w p # fs) (t @ r) = StrV t # sscanf fs r"
proof -
  have "takeWhile p (take w (t @ r)) = t"
    using assms by (cases r) (auto simp: takeWhile_append2 take_Cons')
  with assms(2) show ?thesis by (simp add: Let_def)
qed

lemma fgets_line:
  assumes "CHR 0x0A \<notin> set l" "length l + 1 < n"
  shows "fgets n (l @ CHR 0x0A # s) = Some (l @ [CHR 0x0A], s)"
proof -
  have "takeWhile (\<lambda>c. c \<noteq> CHR 0x0A) (l @ CHR 0x0A # s) = l"
    using assms(1) by (subst takeWhile_append2) auto
  with assms(2) show ?thesis by (simp add: fgets_def Let_def)
qed

lemma fgets_shorter:
  assumes "fgets n s = Some (l, r)" "1 < n"
  shows "length r < length s"
  using assms length_takeWhile_le[of "\<lambda>c. c \<noteq> CHR 0x0A" s]
  by (cases s) (auto simp: fgets_def Let_def min_def split: if_splits)

lemma strtok_all_empty: "strtok_all c [] = []"
  by (simp add: strtok_all.simps)

lemma strtok_all_token:
  assumes "f \<noteq> []" "c \<notin> set f" "s = [] \<or> hd s = c"
  shows "strtok_all c (f @ s) = f # strtok_all c s"
proof -
  obtain x xs where f: "f = x # xs" "x \<noteq> c" using assms(1,2) by (cases f) auto
  have n: "\<forall>y \<in> set f. y \<noteq> c" using assms(2) by auto
  have "dropWhile (\<lambda>x. x = c) (f @ s) = f @ s" using f by simp
  moreover have "takeWhile (\<lambda>x. x \<noteq> c) (f @ s) = f" "dropWhile (\<lambda>x. x \<noteq> c) (f @ s) = s"
    using n assms(3) by (cases s; simp add: takeWhile_append2 dropWhile_append2)+
  ultimately show ?thesis using f(1) by (subst strtok_all.simps) simp
qed

lemma strtok_all_delim: "strtok_all c (c # s) = strtok_all c s"
  by (simp add: strtok_all.simps[of c "c # s"] strtok_all.simps[of c s])

lemma strtok_all_next:
  assumes "f \<noteq> []" "c \<notin> set f"
  shows "strtok_all c (f @ c # s) = f # strtok_all c s" "strtok_all c f = [f]"
  using strtok_all_token[OF assms, of "c # s"] strtok_all_token[OF assms, of "[]"]
  by (simp_all add: strtok_all_delim strtok_all_empty)

end
