(* ===== verification/Blocklist_Parser.thy ===== *)
theory Blocklist_Parser
  imports Blocklist C_Stdlib
begin

text \<open>
  Loading and dumping block lists (\<^verbatim>\<open>src/src/pgld/parser.c\<close>, \<^verbatim>\<open>stream.c\<close> in the variant
  without zlib that the Makefile builds, and \<^verbatim>\<open>blocklist_dump\<close>).

  A file is the list of its bytes. The environment of a load is a record: the files, the
  standard input, the character set conversions of iconv and the number of labels for
  which malloc finds memory. The result \<open>None\<close> is undefined behaviour: a read past the
  end of the label table of a version 3 file.
\<close>

subsection \<open>Streams\<close>

record host =
  host_files :: "string \<Rightarrow> char list option"
  host_stdin :: "char list"
  host_iconv :: "string \<Rightarrow> string \<Rightarrow> string option"
  host_labels :: nat

definition MAX_LINE_LENGTH :: nat where "MAX_LINE_LENGTH = 350"

definition stream_open :: "host \<Rightarrow> string option \<Rightarrow> char list option" where
  "stream_open h filename =
     (case filename of Some f \<Rightarrow> host_files h f | None \<Rightarrow> Some (host_stdin h))"

definition stream_getline :: "nat \<Rightarrow> char list \<Rightarrow> (char list \<times> char list) option" where
  "stream_getline n s = fgets n s"

subsection \<open>Text formats\<close>

definition strip_crlf :: "string \<Rightarrow> string" where
  "strip_crlf s = takeWhile (\<lambda>c. c \<noteq> CHR 0x0D \<and> c \<noteq> CHR 0x0A) s"

definition ip2int :: "int \<Rightarrow> int \<Rightarrow> int \<Rightarrow> int \<Rightarrow> u32" where
  "ip2int a b c d = push_bit 24 (word_of_int a) + push_bit 16 (word_of_int b)
     + push_bit 8 (word_of_int c) + word_of_int d"

definition quad_format :: "scan_item list" where
  "quad_format = [Dec, Lit CHR ''.'', Dec, Lit CHR ''.'', Dec, Lit CHR ''.'', Dec]"

definition p2p_format :: "scan_item list" where
  "p2p_format = [Class 299 (\<lambda>c. c \<noteq> CHR '':''), Lit CHR '':''] @ quad_format
     @ [Lit CHR ''-''] @ quad_format"

definition dat_format :: "scan_item list" where
  "dat_format = quad_format @ [White, Skip (\<lambda>c. c = CHR ''-'' \<or> c = CHR '',''), White] @ quad_format
     @ [White, Lit CHR '','', White, Dec, White, Lit CHR '','', White, Class 299 (\<lambda>c. c \<noteq> CHR '':'')]"

definition range_format :: "scan_item list" where
  "range_format = quad_format @ [Lit CHR ''-''] @ quad_format"

fun range_of :: "scan_val list \<Rightarrow> (u32 \<times> u32) option" where
  "range_of [IntV a, IntV b, IntV c, IntV d, IntV e, IntV f, IntV g, IntV h] =
     Some (ip2int a b c d, ip2int e f g h)"
| "range_of _ = None"

datatype ascii_line = Range u32 u32 string | Allowed | Invalid

definition try_p2p :: "string \<Rightarrow> ascii_line" where
  "try_p2p buf =
     (case sscanf p2p_format buf of
        StrV nm # vs \<Rightarrow> (case range_of vs of Some (lo, hi) \<Rightarrow> Range lo hi nm | None \<Rightarrow> Invalid)
      | _ \<Rightarrow> Invalid)"

definition try_dat :: "string \<Rightarrow> ascii_line" where
  "try_dat buf =
     (let vs = sscanf dat_format buf
      in case (range_of (take 8 vs), drop 8 vs) of
           (Some (lo, hi), [IntV filter_level, StrV nm]) \<Rightarrow>
             if filter_level \<le> 127 then Range lo hi nm else Allowed
         | _ \<Rightarrow> Invalid)"

definition try_range :: "string \<Rightarrow> ascii_line" where
  "try_range buf =
     (case range_of (sscanf range_format buf) of Some (lo, hi) \<Rightarrow> Range lo hi [] | None \<Rightarrow> Invalid)"

definition parse_line :: "string \<Rightarrow> ascii_line" where
  "parse_line buf =
     (case try_p2p buf of
        Invalid \<Rightarrow> (case try_dat buf of Invalid \<Rightarrow> try_range buf | r \<Rightarrow> r)
      | r \<Rightarrow> r)"

text \<open>
  The loop over the lines: the number of lines accepted and the list. A file whose first
  hundred lines are all rejected is given up.
\<close>

function ascii_loop :: "(string \<Rightarrow> string option) \<Rightarrow> char list \<Rightarrow> nat \<Rightarrow> nat \<Rightarrow> blocklist_t
      \<Rightarrow> nat \<times> blocklist_t" where
  "ascii_loop conv s ntotal ok bl =
     (case stream_getline MAX_LINE_LENGTH s of
        None \<Rightarrow> (ok, bl)
      | Some (buf, r) \<Rightarrow>
          if ok = 0 \<and> ntotal + 1 > 100 then (ok, bl)
          else (case parse_line (strip_crlf (cstr buf)) of
                  Range lo hi nm \<Rightarrow>
                    ascii_loop conv r (ntotal + 1) (ok + 1) (blocklist_append conv lo hi nm bl)
                | _ \<Rightarrow> ascii_loop conv r (ntotal + 1) ok bl))"
  by pat_completeness auto
termination
  by (relation "measure (\<lambda>(conv, s, ntotal, ok, bl). length s)")
    (auto simp: stream_getline_def MAX_LINE_LENGTH_def dest: fgets_shorter)

declare ascii_loop.simps [simp del]

definition loadlist_ascii :: "host \<Rightarrow> string option \<Rightarrow> string \<Rightarrow> blocklist_t \<Rightarrow> int \<times> blocklist_t" where
  "loadlist_ascii h filename charset bl =
     (case stream_open h filename of
        None \<Rightarrow> (-2, bl)
      | Some s \<Rightarrow>
          let (ok, bl') = ascii_loop (host_iconv h charset) s 0 0 bl
          in (if ok = 0 then -1 else 0, bl'))"

subsection \<open>Binary formats\<close>

text \<open>The number of bytes read or the code of a failure, the string, and the rest.\<close>

fun read_cstr :: "nat \<Rightarrow> nat \<Rightarrow> string \<Rightarrow> char list \<Rightarrow> int \<times> string \<times> char list" where
  "read_cstr maxsize n buf [] = (-1, buf, [])"
| "read_cstr maxsize n buf (c # cs) =
     (if c = CHR 0x00 then (int n + 1, buf, cs)
      else if n + 1 = maxsize then (int n + 2, buf @ [c], cs)
      else read_cstr maxsize (n + 1) (buf @ [c]) cs)"

definition be32 :: "char list \<Rightarrow> u32" where
  "be32 bs = foldl (\<lambda>a c. a * 256 + of_char c) 0 bs"

definition fread32 :: "char list \<Rightarrow> (u32 \<times> char list) option" where
  "fread32 s = (if length s < 4 then None else Some (be32 (take 4 s), drop 4 s))"

definition read_label :: "char list \<Rightarrow> (string \<times> char list) option" where
  "read_label s =
     (let (n, buf, r) = read_cstr MAX_LINE_LENGTH 0 [] s
      in if n < 0 \<or> n > int MAX_LINE_LENGTH then None else Some (buf, r))"

lemma read_cstr_rest: "length (snd (snd (read_cstr m n buf s))) \<le> length s"
  by (induction m n buf s rule: read_cstr.induct) auto

lemma read_label_rest: "read_label s = Some (l, r) \<Longrightarrow> length r \<le> length s"
  using read_cstr_rest[of MAX_LINE_LENGTH 0 "[]" s]
  by (auto simp: read_label_def split: prod.splits if_splits)

lemma fread32_rest: "fread32 s = Some (v, r) \<Longrightarrow> length r < length s"
  by (auto simp: fread32_def split: if_splits)

text \<open>Versions 1 and 2: label, start and end, until something is missing.\<close>

function p2b_loop :: "(string \<Rightarrow> string option) \<Rightarrow> char list \<Rightarrow> blocklist_t \<Rightarrow> blocklist_t" where
  "p2b_loop conv s bl =
     (case read_label s of
        None \<Rightarrow> bl
      | Some (buf, r) \<Rightarrow>
          (case fread32 r of
             None \<Rightarrow> bl
           | Some (ip1, r1) \<Rightarrow>
               (case fread32 r1 of
                  None \<Rightarrow> bl
                | Some (ip2, r2) \<Rightarrow> p2b_loop conv r2 (blocklist_append conv ip1 ip2 buf bl))))"
  by pat_completeness auto
termination
  by (relation "measure (\<lambda>(conv, s, bl). length s)")
    (auto dest!: read_label_rest fread32_rest)

declare p2b_loop.simps [simp del]

text \<open>Version 3: a table of labels, then ranges that refer to it.\<close>

fun read_labels :: "nat \<Rightarrow> char list \<Rightarrow> (string list \<times> char list) option" where
  "read_labels 0 s = Some ([], s)"
| "read_labels (Suc n) s =
     (case read_label s of
        None \<Rightarrow> None
      | Some (l, r) \<Rightarrow> map_option (\<lambda>(ls, r'). (l # ls, r')) (read_labels n r))"

fun p2b3_ranges :: "(string \<Rightarrow> string option) \<Rightarrow> string list \<Rightarrow> nat \<Rightarrow> char list \<Rightarrow> blocklist_t
      \<Rightarrow> (int \<times> blocklist_t) option" where
  "p2b3_ranges conv labels 0 s bl = Some (0, bl)"
| "p2b3_ranges conv labels (Suc n) s bl =
     (case fread32 s of
        None \<Rightarrow> Some (-1, bl)
      | Some (idx, r) \<Rightarrow>
          if unat idx > length labels then Some (-1, bl)
          else (case fread32 r of
                  None \<Rightarrow> Some (-1, bl)
                | Some (ip1, r1) \<Rightarrow>
                    (case fread32 r1 of
                       None \<Rightarrow> Some (-1, bl)
                     | Some (ip2, r2) \<Rightarrow>
                         if unat idx < length labels
                         then p2b3_ranges conv labels n r2
                                (blocklist_append conv ip1 ip2 (labels ! unat idx) bl)
                         else None)))"

definition p2b3 :: "host \<Rightarrow> (string \<Rightarrow> string option) \<Rightarrow> char list \<Rightarrow> blocklist_t
      \<Rightarrow> (int \<times> blocklist_t) option" where
  "p2b3 h conv s bl =
     (case fread32 s of
        None \<Rightarrow> Some (-1, bl)
      | Some (cnt, r) \<Rightarrow>
          let nlabels = unat cnt
          in if nlabels \<ge> 2 ^ 31 \<or> nlabels > host_labels h then Some (-1, bl)
             else (case read_labels nlabels r of
                     None \<Rightarrow> Some (-1, bl)
                   | Some (labels, r1) \<Rightarrow>
                       (case fread32 r1 of
                          None \<Rightarrow> Some (0, bl)
                        | Some (n, r2) \<Rightarrow> p2b3_ranges conv labels (unat n) r2 bl)))"

definition p2b_magic :: "char list" where
  "p2b_magic = [CHR 0xFF, CHR 0xFF, CHR 0xFF, CHR 0xFF, CHR ''P'', CHR ''2'', CHR ''B'']"

definition loadlist_binary :: "host \<Rightarrow> string option \<Rightarrow> blocklist_t \<Rightarrow> (int \<times> blocklist_t) option" where
  "loadlist_binary h filename bl =
     (case filename of
        None \<Rightarrow> Some (-1, bl)
      | Some fname \<Rightarrow>
     (case host_files h fname of
        None \<Rightarrow> Some (-1, bl)
      | Some s \<Rightarrow>
          if length s < 8 \<or> take 7 s \<noteq> p2b_magic then Some (-1, bl)
          else let version = of_char (s ! 7) :: nat; r = drop 8 s
               in if version = 1 then Some (0, p2b_loop (host_iconv h ''ISO8859-1'') r bl)
                  else if version = 2 then Some (0, p2b_loop (host_iconv h ''UTF-8'') r bl)
                  else if version = 3 then p2b3 h (host_iconv h ''UTF-8'') r bl
                  else Some (-1, bl)))"

subsection \<open>Loading and dumping\<close>

definition load_list :: "host \<Rightarrow> string option \<Rightarrow> string option \<Rightarrow> blocklist_t
      \<Rightarrow> (int \<times> blocklist_t) option" where
  "load_list h filename charset bl =
     (let prevcount = count bl;
          (ret, bl1) = loadlist_ascii h filename
             (case charset of Some c \<Rightarrow> c | None \<Rightarrow> ''ISO8859-1'') bl
      in if ret = 0 then Some (0, bl1)
         else if ret = -2 then Some (-2, bl1)
         else let bl2 = blocklist_clear prevcount bl1; prevcount2 = count bl2
              in (case loadlist_binary h filename bl2 of
                    None \<Rightarrow> None
                  | Some (ret2, bl3) \<Rightarrow>
                      if ret2 = 0 then Some (0, bl3)
                      else Some (-1, blocklist_clear prevcount2 bl3)))"

definition int2ip :: "u32 \<Rightarrow> string" where
  "int2ip ipint = inet_ntoa ipint"

definition dump_entry :: "block_entry_t \<Rightarrow> string" where
  "dump_entry e = (case name e of Some nm \<Rightarrow> nm | None \<Rightarrow> ''(null)'') @ '':''
     @ int2ip (ip_min e) @ ''-'' @ int2ip (ip_max e) @ [CHR 0x0A]"

definition blocklist_dump :: "blocklist_t \<Rightarrow> string" where
  "blocklist_dump bl = concat (map dump_entry (entries bl))"

subsection \<open>Reference encodings\<close>

text \<open>
  Entries whose dumped line is read back, the bytes of a version 2 file, and entries it
  can hold; a list that only gained named entries at its end; an environment with a
  dumped and a binary file.
\<close>

definition dumpable :: "block_entry_t \<Rightarrow> bool" where
  "dumpable e = (case name e of None \<Rightarrow> False | Some nm \<Rightarrow> nm \<noteq> [] \<and> length nm \<le> 299
     \<and> (\<forall>c \<in> set nm. c \<notin> {CHR '':'', CHR 0x00, CHR 0x0D, CHR 0x0A}))"

definition bytes32 :: "u32 \<Rightarrow> char list" where
  "bytes32 ip = map (\<lambda>k. char_of (octet k ip)) [3, 2, 1, 0]"

definition p2b_record :: "block_entry_t \<Rightarrow> char list" where
  "p2b_record e = the (name e) @ [CHR 0x00] @ bytes32 (ip_min e) @ bytes32 (ip_max e)"

definition p2b_file :: "block_entry_t list \<Rightarrow> char list" where
  "p2b_file es = p2b_magic @ [CHR 0x02] @ concat (map p2b_record es)"

definition p2b_labelled :: "block_entry_t \<Rightarrow> bool" where
  "p2b_labelled e = (case name e of None \<Rightarrow> False | Some nm \<Rightarrow> length nm < MAX_LINE_LENGTH \<and> CHR 0x00 \<notin> set nm)"

definition extends :: "block_entry_t list \<Rightarrow> block_entry_t list \<Rightarrow> bool" where
  "extends es es' \<longleftrightarrow> (\<exists>xs. es' = es @ xs \<and> named xs)"

definition demo_host :: host where
  "demo_host = \<lparr>host_files = (\<lambda>f. if f = ''a'' then Some (blocklist_dump two_ranges)
       else if f = ''b'' then Some (p2b_file (entries two_ranges)) else None),
     host_stdin = [], host_iconv = (\<lambda>_. Some), host_labels = 100\<rparr>"

subsection \<open>Scanning and reading\<close>

lemma nat_octets:
  assumes "n < (2::nat) ^ 32"
  shows "(n div 2 ^ 24 mod 256) * 2 ^ 24 + (n div 2 ^ 16 mod 256) * 2 ^ 16
           + (n div 2 ^ 8 mod 256) * 2 ^ 8 + n mod 256 = n"
proof -
  have d: "n div 2 ^ 16 = n div 256 div 256" "n div 2 ^ 24 = n div 256 div 256 div 256"
    by (simp_all add: div_mult2_eq[symmetric])
  have "n div 2 ^ 24 < 256" using assms by (simp add: less_mult_imp_div_less)
  then have "n div 2 ^ 24 mod 256 = n div 2 ^ 24" by simp
  moreover have "c * 2 ^ 24 + s * 2 ^ 16 + r * 2 ^ 8 + q = n"
    if "256 * a + q = n" "256 * b + r = a" "256 * c + s = b" for a b c q r s :: nat
    using that by auto
  note this[OF mult_div_mod_eq mult_div_mod_eq mult_div_mod_eq]
  ultimately show ?thesis unfolding d by simp
qed

lemma ip2int_octets:
  "ip2int (int (octet 3 ip)) (int (octet 2 ip)) (int (octet 1 ip)) (int (octet 0 ip)) = ip"
proof -
  have "ip2int (int a) (int b) (int c) (int d) = of_nat (a * 2 ^ 24 + b * 2 ^ 16 + c * 2 ^ 8 + d)" for a b c d
    by (simp add: ip2int_def push_bit_eq_mult)
  moreover have "octet 3 ip * 2 ^ 24 + octet 2 ip * 2 ^ 16 + octet 1 ip * 2 ^ 8 + octet 0 ip = unat ip"
    using nat_octets[of "unat ip"] unsigned_less[of ip, where ?'a = nat] by (simp add: octet_def)
  ultimately have "ip2int (int (octet 3 ip)) (int (octet 2 ip)) (int (octet 1 ip)) (int (octet 0 ip))
      = of_nat (unat ip)" by metis
  then show ?thesis by simp
qed

lemma isdigit_sep [simp]: "\<not> isdigit CHR ''.''" "\<not> isdigit CHR ''-''" "\<not> isdigit CHR '':''"
   "\<not> isdigit CHR 0x0A" "\<not> isdigit CHR 0x0D" "\<not> isdigit CHR 0x00"
  by (simp_all add: isdigit_def)

lemma sscanf_quad:
  assumes "r = [] \<or> \<not> isdigit (hd r)"
  shows "sscanf (quad_format @ fs) (int2ip ip @ r) =
     [IntV (int (octet 3 ip)), IntV (int (octet 2 ip)), IntV (int (octet 1 ip)), IntV (int (octet 0 ip))]
     @ sscanf fs r"
proof -
  have "octet k ip < 2 ^ 31" for k using octet_less[of k ip] by (rule less_trans) simp
  with assms show ?thesis
    by (simp add: quad_format_def int2ip_def inet_ntoa_def sscanf_dec_show del: sscanf.simps(4) One_nat_def)
qed

lemma try_p2p_dump:
  assumes "nm \<noteq> []" "length nm \<le> 299" "CHR '':'' \<notin> set nm"
  shows "try_p2p (nm @ '':'' @ int2ip lo @ ''-'' @ int2ip hi) = Range lo hi nm"
proof -
  have c: "\<forall>c \<in> set nm. c \<noteq> CHR '':''" using assms(3) by blast
  have q: "sscanf quad_format (int2ip hi) =
     [IntV (int (octet 3 hi)), IntV (int (octet 2 hi)), IntV (int (octet 1 hi)), IntV (int (octet 0 hi))]"
    using sscanf_quad[of "[]" "[]" hi] by simp
  show ?thesis
    using sscanf_class[OF c assms(1,2), of "'':'' @ int2ip lo @ ''-'' @ int2ip hi"]
    by (simp add: try_p2p_def p2p_format_def sscanf_quad q ip2int_octets del: sscanf.simps(5) One_nat_def)
qed

lemma show_nat_octet: "n < 256 \<Longrightarrow> length (show_nat n) \<le> 3"
  by (rule show_nat_length) simp_all

lemma int2ip_chars: "c \<in> set (int2ip ip) \<Longrightarrow> isdigit c \<or> c = CHR ''.''"
  using show_nat_digits by (auto simp: int2ip_def inet_ntoa_def)

lemma int2ip_length: "length (int2ip ip) \<le> 15"
  using show_nat_octet[OF octet_less[of 3 ip]] show_nat_octet[OF octet_less[of 2 ip]]
    show_nat_octet[OF octet_less[of 1 ip]] show_nat_octet[OF octet_less[of 0 ip]]
  by (simp add: int2ip_def inet_ntoa_def)

lemma getline_dump:
  assumes "dumpable e" "name e = Some nm"
  shows "stream_getline MAX_LINE_LENGTH (dump_entry e @ s) = Some (dump_entry e, s)"
    and "strip_crlf (cstr (dump_entry e)) = nm @ '':'' @ int2ip (ip_min e) @ ''-'' @ int2ip (ip_max e)"
proof -
  let ?l = "nm @ '':'' @ int2ip (ip_min e) @ ''-'' @ int2ip (ip_max e)"
  have nm: "\<forall>c \<in> set nm. c \<notin> {CHR '':'', CHR 0x00, CHR 0x0D, CHR 0x0A}" "length nm \<le> 299"
    using assms by (auto simp: dumpable_def)
  have l: "dump_entry e = ?l @ [CHR 0x0A]" using assms(2) by (simp add: dump_entry_def)
  have ch: "\<forall>c \<in> set ?l. c \<notin> {CHR 0x00, CHR 0x0D, CHR 0x0A}"
    using nm(1) int2ip_chars isdigit_sep by fastforce
  have "length ?l + 1 < MAX_LINE_LENGTH"
    using nm(2) int2ip_length[of "ip_min e"] int2ip_length[of "ip_max e"]
    by (simp add: MAX_LINE_LENGTH_def)
  with ch fgets_line[of ?l MAX_LINE_LENGTH s] show "stream_getline MAX_LINE_LENGTH (dump_entry e @ s) = Some (dump_entry e, s)"
    by (auto simp: stream_getline_def l)
  show "strip_crlf (cstr (dump_entry e)) = ?l"
  proof -
    have "cstr (?l @ [CHR 0x0A]) = ?l @ [CHR 0x0A]"
      unfolding cstr_def using ch by (subst takeWhile_eq_all_conv) auto
    moreover have "strip_crlf (?l @ [CHR 0x0A]) = ?l"
      unfolding strip_crlf_def using ch by (subst takeWhile_append2) auto
    ultimately show ?thesis unfolding l by simp
  qed
qed

lemma ascii_loop_dump:
  assumes "\<forall>e \<in> set es. dumpable e" "t < 100 \<or> 0 < ok"
  shows "ascii_loop conv (concat (map dump_entry es)) t ok bl =
     (ok + length es, foldl (\<lambda>bl e. blocklist_append conv (ip_min e) (ip_max e) (the (name e)) bl) bl es)"
  using assms
proof (induction es arbitrary: t ok bl)
  case Nil
  then show ?case by (subst ascii_loop.simps) (simp add: stream_getline_def fgets_def)
next
  case (Cons e es)
  from Cons.prems obtain nm where nm: "name e = Some nm" "nm \<noteq> []" "length nm \<le> 299" "CHR '':'' \<notin> set nm"
    by (auto simp: dumpable_def split: option.splits)
  have "dumpable e" using Cons.prems by simp
  note g = getline_dump[OF this nm(1)]
  have "parse_line (strip_crlf (cstr (dump_entry e))) = Range (ip_min e) (ip_max e) nm"
    using try_p2p_dump[OF nm(2,3,4), of "ip_min e" "ip_max e"] g(2) by (simp add: parse_line_def)
  then show ?case
    using Cons.prems by (subst ascii_loop.simps) (auto simp: g(1) Cons.IH nm(1))
qed

lemma foldl_append_entries:
  "entries (foldl (\<lambda>bl e. blocklist_append conv (ip_min e) (ip_max e) (the (name e)) bl) bl es) =
     entries bl @ map (\<lambda>e. \<lparr>ip_min = ip_min e, ip_max = ip_max e,
        name = Some (case conv (the (name e)) of Some s \<Rightarrow> s | None \<Rightarrow> ''(conversion error)''), hits = 0\<rparr>) es"
  by (induction es arbitrary: bl) (simp_all add: blocklist_append_def Let_def)

lemma octets_unat:
  "octet 3 ip * 2 ^ 24 + octet 2 ip * 2 ^ 16 + octet 1 ip * 2 ^ 8 + octet 0 ip = unat ip"
  using nat_octets[of "unat ip"] unsigned_less[of ip, where ?'a = nat] by (simp add: octet_def)

lemma fread32_bytes32: "fread32 (bytes32 ip @ s) = Some (ip, s)"
proof -
  have "(of_char (char_of (octet k ip)) :: u32) = of_nat (octet k ip)" for k
    by (metis of_char_of of_nat_of_char mod_less octet_less)
  then have "be32 (bytes32 ip) = of_nat (octet 3 ip * 2 ^ 24 + octet 2 ip * 2 ^ 16 + octet 1 ip * 2 ^ 8 + octet 0 ip)"
    by (simp add: be32_def bytes32_def algebra_simps)
  then have "be32 (bytes32 ip) = ip" unfolding octets_unat by simp
  then show ?thesis by (simp add: fread32_def) (simp add: bytes32_def)
qed

lemma read_cstr_string:
  "CHR 0x00 \<notin> set t \<Longrightarrow> n + length t < m \<Longrightarrow>
     read_cstr m n buf (t @ CHR 0x00 # s) = (int (n + length t) + 1, buf @ t, s)"
  by (induction t arbitrary: n buf) auto

lemma read_label_string:
  "CHR 0x00 \<notin> set t \<Longrightarrow> length t < MAX_LINE_LENGTH \<Longrightarrow> read_label (t @ CHR 0x00 # s) = Some (t, s)"
  by (simp add: read_label_def read_cstr_string)

lemma p2b_loop_records:
  assumes "\<forall>e \<in> set es. p2b_labelled e"
  shows "p2b_loop conv (concat (map p2b_record es)) bl =
     foldl (\<lambda>bl e. blocklist_append conv (ip_min e) (ip_max e) (the (name e)) bl) bl es"
  using assms
proof (induction es arbitrary: bl)
  case Nil
  then show ?case by (subst p2b_loop.simps) (simp add: read_label_def)
next
  case (Cons e es)
  from Cons.prems obtain nm where nm: "name e = Some nm" "CHR 0x00 \<notin> set nm" "length nm < MAX_LINE_LENGTH"
    by (auto simp: p2b_labelled_def split: option.splits)
  with Cons.prems show ?case
    by (subst p2b_loop.simps) (simp add: p2b_record_def read_label_string fread32_bytes32 Cons.IH)
qed

lemma append_extends: "entries (blocklist_append conv lo hi nm bl) = entries bl @
    [\<lparr>ip_min = lo, ip_max = hi, name = Some (case conv nm of Some s \<Rightarrow> s | None \<Rightarrow> ''(conversion error)''), hits = 0\<rparr>]"
  by (simp add: blocklist_append_def Let_def)

lemma extends_refl [simp]: "extends es es"
  by (simp add: extends_def named_def)

lemma extends_append:
  "extends (entries (blocklist_append conv lo hi nm bl)) es \<Longrightarrow> extends (entries bl) es"
  by (auto simp: extends_def append_extends named_def)

lemma ascii_loop_extends: "extends (entries bl) (entries (snd (ascii_loop conv s t ok bl)))"
proof (induction "length s" arbitrary: s t ok bl rule: less_induct)
  case less
  note IH = less.hyps[OF fgets_shorter[of MAX_LINE_LENGTH], folded stream_getline_def]
  show ?case
    by (subst ascii_loop.simps)
      (auto split: option.splits ascii_line.splits simp: IH MAX_LINE_LENGTH_def intro: extends_append[OF IH])
qed

lemma p2b_loop_extends: "extends (entries bl) (entries (p2b_loop conv s bl))"
proof (induction "length s" arbitrary: s bl rule: less_induct)
  case less
  have "extends (entries bl) (entries (p2b_loop conv r2 (blocklist_append conv ip1 ip2 l bl)))"
    if "read_label s = Some (l, r)" "fread32 r = Some (ip1, r1)" "fread32 r1 = Some (ip2, r2)" for l r ip1 r1 ip2 r2
    using read_label_rest[OF that(1)] fread32_rest[OF that(2)] fread32_rest[OF that(3)]
    by (intro extends_append[OF less.hyps]) simp
  then show ?case
    by (subst p2b_loop.simps) (auto split: option.splits)
qed

lemma p2b3_ranges_extends:
  "p2b3_ranges conv ls n s bl = Some (r, bl') \<Longrightarrow> extends (entries bl) (entries bl')"
proof (induction n arbitrary: s bl)
  case (Suc n)
  then show ?case
    by (simp split: option.splits if_splits prod.splits) (blast intro: extends_append)+
qed simp

lemma loadlist_binary_extends:
  "loadlist_binary h f bl = Some (r, bl') \<Longrightarrow> extends (entries bl) (entries bl')"
  by (auto simp: loadlist_binary_def p2b3_def Let_def p2b_loop_extends
      split: option.splits if_splits) (blast dest: p2b3_ranges_extends)+

lemma clear_extends:
  "extends (entries bl) (entries bl') \<Longrightarrow> entries (blocklist_clear (count bl) bl') = entries bl"
  by (auto simp: blocklist_clear_def blocklist_init_def count_def extends_def)

lemma load_list_dump:
  assumes "\<forall>e \<in> set (entries bl). dumpable e" "entries bl \<noteq> []"
    and "host_files h f = Some (blocklist_dump bl)"
    and "\<forall>cs s. host_iconv h cs s = Some s"
  shows "\<exists>bl'. load_list h (Some f) charset blocklist_init = Some (0, bl')
           \<and> entries bl' = map (\<lambda>e. e\<lparr>hits := 0\<rparr>) (entries bl)"
proof -
  have "map (\<lambda>e. \<lparr>ip_min = ip_min e, ip_max = ip_max e, name = Some (the (name e)), hits = 0\<rparr>) (entries bl)
      = map (\<lambda>e. e\<lparr>hits := 0\<rparr>) (entries bl)"
    using assms(1) by (auto simp: dumpable_def split: option.splits)
  then show ?thesis
    using assms ascii_loop_dump[OF assms(1)]
    by (simp add: load_list_def loadlist_ascii_def stream_open_def blocklist_dump_def
        foldl_append_entries blocklist_init_def)
qed

lemma two_ranges_dumpable: "\<forall>e \<in> set (entries two_ranges). dumpable e" "entries two_ranges \<noteq> []"
  by (simp_all add: two_ranges_def blocklist_append_def blocklist_init_def Let_def dumpable_def)

lemma load_demo:
  "\<exists>bl. load_list demo_host (Some ''a'') None blocklist_init = Some (0, bl)
     \<and> entries bl = map (\<lambda>e. e\<lparr>hits := 0\<rparr>) (entries two_ranges)"
  using two_ranges_dumpable load_list_dump[of two_ranges demo_host "''a''" None]
  by (simp add: demo_host_def)

subsection \<open>Properties\<close>





text \<open>
  C22. Loading a file never disturbs the entries already there: it appends entries that all
  have a name, and if it reports a failure, whichever format it tried, the entries are
  exactly those from before.
\<close>

theorem load_list_extends:
  assumes "load_list h f cs bl = Some (r, bl')"
  shows "extends (entries bl) (entries bl') \<and> (r \<noteq> 0 \<longrightarrow> entries bl' = entries bl)"
proof -
  define a where "a = loadlist_ascii h f (case cs of Some c \<Rightarrow> c | None \<Rightarrow> ''ISO8859-1'') bl"
  have asc: "extends (entries bl) (entries (snd a))" "fst a = -2 \<Longrightarrow> snd a = bl"
    using ascii_loop_extends
    by (auto simp: a_def loadlist_ascii_def split_beta Let_def split: option.splits if_splits)
  let ?b = "blocklist_clear (count bl) (snd a)"
  have b: "entries ?b = entries bl" using clear_extends asc(1) by blast
  show ?thesis
    using assms asc b loadlist_binary_extends[of h f ?b] clear_extends[of ?b]
    by (auto simp: load_list_def a_def[symmetric] split_beta Let_def split: option.splits if_splits)
qed

theorem load_list_extends_witness:
  "\<exists>r bl'. load_list demo_host (Some ''c'') None two_ranges = Some (r, bl') \<and> r \<noteq> 0
     \<and> entries bl' = entries two_ranges"
proof -
  have "load_list demo_host (Some ''c'') None two_ranges = Some (-2, two_ranges)"
    by (simp add: load_list_def loadlist_ascii_def stream_open_def demo_host_def)
  then show ?thesis using load_list_extends[of demo_host "Some ''c''" None two_ranges] by auto
qed

text \<open>
  The check of a label index in a version 3 file is off by one: an index equal to the
  number of labels passes and reads past the end of the label table.
\<close>

theorem p2b3_label_overrun:
  "loadlist_binary \<lparr>host_files = (\<lambda>_. Some (p2b_magic @ [CHR 0x03] @ bytes32 1 @ ''a'' @ [CHR 0x00]
       @ bytes32 1 @ bytes32 1 @ bytes32 10 @ bytes32 20)),
     host_stdin = [], host_iconv = (\<lambda>_. Some), host_labels = 100\<rparr> (Some ''list'') blocklist_init = None"
  using read_label_string[of "''a''"] fread32_bytes32[of 20 "[]"]
  by (simp add: loadlist_binary_def p2b_magic_def p2b3_def fread32_bytes32 MAX_LINE_LENGTH_def)

end
