(* ===== verification/Redis_Client.thy ===== *)
theory Redis_Client
  imports C_Stdlib
begin

text \<open>
  The wrapper around hiredis that the programs share (\<^verbatim>\<open>src/src/libdowse/redis.c\<close>). The
  server is a parameter: a function from its state and a command line to an optional reply
  (a missing one is a lost connection) and the next state. The constants that name the
  databases come from a generated header and are an enumeration here.

  \<^verbatim>\<open>cmd_redis\<close> prints the command into a buffer of 512 bytes and then passes the buffer to
  \<^verbatim>\<open>redisCommand\<close> as a format. A percent sign left in it makes hiredis fetch arguments that
  were never passed, which is undefined behaviour: the outcome \<open>None\<close>.
\<close>

datatype redis_reply = ReplyString string | ReplyArray "redis_reply list" | ReplyInteger int
  | ReplyNil | ReplyStatus string | ReplyError string

datatype redis_db = Db_dynamic | Db_storage | Db_runtime

datatype 'r redis_connection = No_context | Connection_error | Connected 'r

type_synonym 'r redis_server = "'r \<Rightarrow> string \<Rightarrow> redis_reply option \<times> 'r"

definition okredis :: "redis_reply option \<Rightarrow> bool" where
  "okredis res = (case res of None \<Rightarrow> False | Some (ReplyError _) \<Rightarrow> False | Some _ \<Rightarrow> True)"

definition cmd_redis :: "'r redis_server \<Rightarrow> 'r \<Rightarrow> string \<Rightarrow> (redis_reply option \<times> 'r) option" where
  "cmd_redis srv r text =
     (let command = take 510 text
      in if CHR ''%'' \<in> set command then None
         else let (res, r') = srv r command in Some (if okredis res then res else None, r'))"

definition redis_port :: "redis_db \<Rightarrow> nat" where
  "redis_port db = (case db of Db_runtime \<Rightarrow> 6378 | Db_dynamic \<Rightarrow> 6378 | Db_storage \<Rightarrow> 6379)"

definition connect_redis :: "(nat \<Rightarrow> 'r redis_connection) \<Rightarrow> redis_db \<Rightarrow> 'r option" where
  "connect_redis net db = (case net (redis_port db) of Connected rx \<Rightarrow> Some rx | _ \<Rightarrow> None)"

subsection \<open>Facts the clients use\<close>

lemma cmd_redis_text:
  assumes "length text \<le> 510" "CHR ''%'' \<notin> set text"
  shows "cmd_redis srv r text = Some (if okredis (fst (srv r text)) then fst (srv r text) else None, snd (srv r text))"
  using assms by (simp add: cmd_redis_def Let_def split_beta)

lemma cmd_redis_no_error:
  "cmd_redis srv r text = Some (Some rep, r') \<Longrightarrow> \<forall>msg. rep \<noteq> ReplyError msg"
  by (auto simp: cmd_redis_def Let_def okredis_def split: if_splits prod.splits option.splits redis_reply.splits)

end
