(* ===== verification/Pgld.thy ===== *)
theory Pgld
  imports Blocklist_Parser Redis_Client
begin

text \<open>
  The packet filter daemon (\<^verbatim>\<open>src/src/pgld/pgld.c\<close>): options, loading of all lists, the
  netfilter queue callback, signals and the main loop.

  The kernel queue, the redis server, the file system and the results of the system calls
  are parameters collected in the record \<open>pgld_env\<close>. The verdicts handed to the kernel and
  the calls made to libnetfilter_queue are recorded in the state, so that properties can
  speak about them. A crash (a null dereference) is the outcome \<open>None\<close>.
\<close>

subsection \<open>Options\<close>

record pgld_opts =
  use_syslog :: bool
  logfile_name :: "string option"
  current_charset :: "string option"
  pidfile_name :: "string option"
  queue_num :: "16 word"
  queue_length :: u32
  reject_mark :: u32
  accept_mark :: u32
  opt_merge :: bool
  block_files :: "(string \<times> string option) list"

definition default_opts :: pgld_opts where
  "default_opts = \<lparr>use_syslog = False, logfile_name = None, current_charset = None,
     pidfile_name = None, queue_num = 0, queue_length = 0, reject_mark = 0, accept_mark = 0,
     opt_merge = False, block_files = []\<rparr>"

definition pgld_optspec :: "char \<Rightarrow> bool option" where
  "pgld_optspec c =
     (if c \<in> set ''smh'' then Some False
      else if c \<in> set ''lcpqQra'' then Some True else None)"

definition set_opt :: "char \<times> string \<Rightarrow> pgld_opts \<Rightarrow> pgld_opts" where
  "set_opt oa p =
     (let (opt, optarg) = oa in
      if opt = CHR ''s'' then p\<lparr>use_syslog := True\<rparr>
      else if opt = CHR ''l'' then p\<lparr>logfile_name := Some optarg\<rparr>
      else if opt = CHR ''c'' then p\<lparr>current_charset := Some optarg\<rparr>
      else if opt = CHR ''p'' then p\<lparr>pidfile_name := Some optarg\<rparr>
      else if opt = CHR ''q'' then p\<lparr>queue_num := word_of_int (atoi optarg)\<rparr>
      else if opt = CHR ''Q'' then p\<lparr>queue_length := word_of_int (atoi optarg)\<rparr>
      else if opt = CHR ''r'' then p\<lparr>reject_mark := word_of_int (atoi optarg)\<rparr>
      else if opt = CHR ''a'' then p\<lparr>accept_mark := word_of_int (atoi optarg)\<rparr>
      else if opt = CHR ''m'' then p\<lparr>opt_merge := True\<rparr>
      else p)"

text \<open>The option loop: \<open>None\<close> when the help is asked for.\<close>

fun apply_opts :: "(char \<times> string) list \<Rightarrow> pgld_opts \<Rightarrow> pgld_opts option" where
  "apply_opts [] p = Some p"
| "apply_opts (oa # oas) p = (if fst oa = CHR ''h'' then None else apply_opts oas (set_opt oa p))"

definition add_blocklist :: "string \<Rightarrow> pgld_opts \<Rightarrow> pgld_opts" where
  "add_blocklist nm p = p\<lparr>block_files := block_files p @ [(nm, current_charset p)]\<rparr>"

subsection \<open>The environment and the state\<close>

datatype pgld_signal = SIGUSR1 | SIGUSR2 | SIGHUP | SIGTERM | SIGINT | SIGSEGV

datatype nfq_call = Nfq_open | Nfq_unbind_pf | Nfq_bind_pf | Nfq_create_queue "16 word"
  | Nfq_set_mode | Nfq_set_queue_maxlen u32 | Nfq_destroy_queue | Nfq_close

record 'r pgld_env =
  env_host :: host
  env_qsort :: "block_entry_t list \<Rightarrow> block_entry_t list"
  env_net :: "nat \<Rightarrow> 'r redis_connection"
  env_server :: "'r redis_server"
  env_log_opens :: "string \<Rightarrow> bool"
  env_fork_ok :: bool
  env_pid_opens :: "string \<Rightarrow> bool"
  env_pid_locks :: "string \<Rightarrow> bool"
  env_pid :: nat
  env_sigaction_ok :: "pgld_signal \<Rightarrow> bool"
  env_nfq_ok :: "nfq_call \<Rightarrow> bool"

record packet =
  hook :: nat
  packet_id :: u32
  saddr :: u32
  daddr :: u32

definition NF_IP_LOCAL_IN :: nat where "NF_IP_LOCAL_IN = 1"
definition NF_IP_FORWARD :: nat where "NF_IP_FORWARD = 2"
definition NF_IP_LOCAL_OUT :: nat where "NF_IP_LOCAL_OUT = 3"
definition NF_DROP :: nat where "NF_DROP = 0"

record 'r pgld_state =
  opts :: pgld_opts
  blocklist :: blocklist_t
  redis :: "'r option"
  verdicts :: "(u32 \<times> nat \<times> u32) list"
  nfq_calls :: "nfq_call list"

subsection \<open>Loading\<close>

fun load_files :: "host \<Rightarrow> (string \<times> string option) list \<Rightarrow> int \<Rightarrow> blocklist_t
      \<Rightarrow> (int \<times> blocklist_t) option" where
  "load_files h [] ret bl = Some (ret, bl)"
| "load_files h ((f, cs) # fs) ret bl =
     (case load_list h (Some f) cs bl of
        None \<Rightarrow> None
      | Some (r, bl') \<Rightarrow> load_files h fs (if r \<noteq> 0 then -1 else ret) bl')"

definition load_ranges :: "host \<Rightarrow> (string \<times> string option) list \<Rightarrow> blocklist_t
      \<Rightarrow> (int \<times> blocklist_t) option" where
  "load_ranges h fs bl =
     (let bl0 = blocklist_clear 0 bl
      in if fs \<noteq> [] then load_files h fs 0 bl0
         else map_option (\<lambda>(_, bl1). (0, bl1)) (load_list h None None bl0))"

definition load_all_lists :: "'r pgld_env \<Rightarrow> (string \<times> string option) list \<Rightarrow> blocklist_t
      \<Rightarrow> (int \<times> blocklist_t) option" where
  "load_all_lists env fs bl =
     (case load_ranges (env_host env) fs bl of
        None \<Rightarrow> None
      | Some (ret, bl1) \<Rightarrow>
          (case blocklist_merge (env_qsort env) (blocklist_sort (env_qsort env) bl1) of
             None \<Rightarrow> None
           | Some bl2 \<Rightarrow> Some (ret, bl2)))"

subsection \<open>The queue\<close>

definition nfqueue_unbind :: "nfq_call list" where
  "nfqueue_unbind = [Nfq_destroy_queue, Nfq_unbind_pf, Nfq_close]"

definition nfqueue_bind :: "(nfq_call \<Rightarrow> bool) \<Rightarrow> pgld_opts \<Rightarrow> int \<times> nfq_call list" where
  "nfqueue_bind ok p =
     (let create = Nfq_create_queue (queue_num p) in
      if \<not> ok Nfq_open then (-1, [Nfq_open])
      else if \<not> ok Nfq_unbind_pf then (-1, [Nfq_open, Nfq_unbind_pf, Nfq_close])
      else if \<not> ok Nfq_bind_pf then (-1, [Nfq_open, Nfq_unbind_pf, Nfq_bind_pf, Nfq_close])
      else if \<not> ok create then
        (-1, [Nfq_open, Nfq_unbind_pf, Nfq_bind_pf, create, Nfq_close])
      else if \<not> ok Nfq_set_mode then
        (-1, [Nfq_open, Nfq_unbind_pf, Nfq_bind_pf, create, Nfq_set_mode, Nfq_destroy_queue, Nfq_close])
      else (0, [Nfq_open, Nfq_unbind_pf, Nfq_bind_pf, create, Nfq_set_mode]
                 @ (if queue_length p > 0 then [Nfq_set_queue_maxlen (queue_length p)] else [])))"

text \<open>
  The addresses and the protocol of a packet in readable form: source, destination and
  protocol. The ports are read from the transport header that follows the IP header.
\<close>

definition setipinfo :: "nat \<Rightarrow> u32 \<Rightarrow> u32 \<Rightarrow> 16 word \<Rightarrow> 16 word \<Rightarrow> string \<times> string \<times> string" where
  "setipinfo protocol sa da sport dport =
     (let with_ports = (int2ip sa @ '':'' @ show_nat (unat sport), int2ip da @ '':'' @ show_nat (unat dport))
      in if protocol = 6 then (fst with_ports, snd with_ports, ''TCP'')
         else if protocol = 17 then (fst with_ports, snd with_ports, ''UDP'')
         else if protocol = 1 then (int2ip sa, int2ip da, ''ICMP'')
         else (int2ip sa, int2ip da, show_nat protocol))"

text \<open>
  A packet that is dropped: the verdict, the hit counter and the message to the channel.
  Without a redis connection the publication dereferences the null context.
\<close>

definition block_message :: "u32 \<Rightarrow> nat \<Rightarrow> u32 \<Rightarrow> string" where
  "block_message from_ip sec to_ip =
     ''publish pgl-info-channel PGL,'' @ int2ip from_ip @ '',BLOCK,'' @ show_nat sec @ '','' @ int2ip to_ip"

definition hit :: "nat \<Rightarrow> blocklist_t \<Rightarrow> blocklist_t" where
  "hit i bl = bl\<lparr>entries := (entries bl)[i := (entries bl ! i)\<lparr>hits := hits (entries bl ! i) + 1\<rparr>]\<rparr>"

definition block_packet :: "'r redis_server \<Rightarrow> u32 \<Rightarrow> nat \<Rightarrow> string \<Rightarrow> 'r pgld_state
      \<Rightarrow> 'r pgld_state option" where
  "block_packet srv pid i msg st =
     (let st' = st\<lparr>verdicts := verdicts st @ [(pid, NF_DROP, reject_mark (opts st))],
                   blocklist := hit i (blocklist st)\<rparr>
      in case redis st of
           None \<Rightarrow> None
         | Some r \<Rightarrow> (case cmd_redis srv r msg of
                        None \<Rightarrow> None
                      | Some (_, r') \<Rightarrow> Some (st'\<lparr>redis := Some r'\<rparr>)))"

definition nfqueue_cb :: "'r redis_server \<Rightarrow> packet option \<Rightarrow> nat \<Rightarrow> 'r pgld_state
      \<Rightarrow> (int \<times> 'r pgld_state) option" where
  "nfqueue_cb srv nfa sec st =
     (case nfa of
        None \<Rightarrow> Some (1, st)
      | Some p \<Rightarrow>
          let bl = blocklist st;
              drop_in = block_message (daddr p) sec (saddr p);
              drop_out = block_message (saddr p) sec (daddr p);
              verdict = (\<lambda>found msg. case found of
                   None \<Rightarrow> Some (0, st)
                 | Some i \<Rightarrow> map_option (\<lambda>st'. (0, st')) (block_packet srv (packet_id p) i msg st))
          in if hook p = NF_IP_LOCAL_IN then verdict (blocklist_find (saddr p) bl) drop_in
             else if hook p = NF_IP_LOCAL_OUT then verdict (blocklist_find (daddr p) bl) drop_out
             else if hook p = NF_IP_FORWARD then
               verdict (case blocklist_find (daddr p) bl of
                          None \<Rightarrow> blocklist_find (saddr p) bl
                        | Some i \<Rightarrow> Some i) drop_out
             else Some (0, st))"

subsection \<open>Signals, the loop and main\<close>

text \<open>The content of the pid file, if it can be created and locked.\<close>

definition create_pidfile :: "'r pgld_env \<Rightarrow> string \<Rightarrow> string option" where
  "create_pidfile env f =
     (if \<not> env_pid_opens env f then None
      else if \<not> env_pid_locks env f then None
      else Some (show_nat (env_pid env) @ [CHR 0x0A]))"

text \<open>The handlers installed, up to the first failure.\<close>

fun install_each :: "(pgld_signal \<Rightarrow> bool) \<Rightarrow> pgld_signal list \<Rightarrow> int \<times> pgld_signal list" where
  "install_each ok [] = (0, [])"
| "install_each ok (s # ss) =
     (if \<not> ok s then (-1, []) else let (r, ds) = install_each ok ss in (r, s # ds))"

definition install_sighandler :: "(pgld_signal \<Rightarrow> bool) \<Rightarrow> int \<times> pgld_signal list" where
  "install_sighandler ok = install_each ok [SIGUSR1, SIGUSR2, SIGHUP, SIGTERM, SIGINT, SIGSEGV]"

datatype 'r pgld_outcome = Running "'r pgld_state" | Exited int "'r pgld_state" | Aborted "'r pgld_state"

definition log_calls :: "nfq_call list \<Rightarrow> 'r pgld_state \<Rightarrow> 'r pgld_state" where
  "log_calls cs st = st\<lparr>nfq_calls := nfq_calls st @ cs\<rparr>"

definition pgld_sighandler :: "'r pgld_env \<Rightarrow> pgld_signal \<Rightarrow> 'r pgld_state \<Rightarrow> 'r pgld_outcome option" where
  "pgld_sighandler env sig st =
     (case sig of
        SIGUSR1 \<Rightarrow> Some (Running (st\<lparr>blocklist := snd (snd (blocklist_stats True (blocklist st)))\<rparr>))
      | SIGUSR2 \<Rightarrow> Some (Running (st\<lparr>blocklist := snd (snd (blocklist_stats False (blocklist st)))\<rparr>))
      | SIGHUP \<Rightarrow>
          let reopened = (case logfile_name (opts st) of Some f \<Rightarrow> env_log_opens env f | None \<Rightarrow> True)
          in if \<not> reopened then Some (Exited (-1) st)
             else map_option (\<lambda>(_, bl). Running (st\<lparr>blocklist := bl\<rparr>))
                    (load_all_lists env (block_files (opts st)) (blocklist st))
      | SIGSEGV \<Rightarrow> Some (Aborted (log_calls nfqueue_unbind st))
      | _ \<Rightarrow> Some (Exited 0 (log_calls nfqueue_unbind
               (st\<lparr>blocklist := blocklist_clear 0 (blocklist st)\<rparr>))))"

datatype pgld_event = Received "packet option" nat | Receive_error bool | Signalled pgld_signal

text \<open>
  One turn of the receive loop: a packet with the time of its arrival, a receive error
  (with ENOBUFS or another one) or a signal.
\<close>

definition pgld_step :: "'r pgld_env \<Rightarrow> pgld_event \<Rightarrow> 'r pgld_state \<Rightarrow> 'r pgld_outcome option" where
  "pgld_step env ev st =
     (case ev of
        Received nfa sec \<Rightarrow> map_option (\<lambda>(_, st'). Running st') (nfqueue_cb (env_server env) nfa sec st)
      | Receive_error enobufs \<Rightarrow>
          Some (if enobufs then Exited 1 (log_calls [Nfq_close] st)
                else Exited 0 (log_calls nfqueue_unbind st))
      | Signalled sig \<Rightarrow> pgld_sighandler env sig st)"

fun nfqueue_loop :: "'r pgld_env \<Rightarrow> pgld_event list \<Rightarrow> 'r pgld_state \<Rightarrow> 'r pgld_outcome option" where
  "nfqueue_loop env [] st = Some (Running st)"
| "nfqueue_loop env (ev # evs) st =
     (case pgld_step env ev st of
        Some (Running st') \<Rightarrow> nfqueue_loop env evs st'
      | r \<Rightarrow> r)"

datatype 'r main_end = Exit_main int string | Enter_loop "'r pgld_state"

definition start_daemon :: "'r pgld_env \<Rightarrow> pgld_opts \<Rightarrow> 'r main_end option" where
  "start_daemon env p =
     (let st = \<lparr>opts = p, blocklist = blocklist_init, redis = connect_redis (env_net env) Db_dynamic,
                verdicts = [], nfq_calls = []\<rparr>;
          log_ok = (case logfile_name p of Some f \<Rightarrow> env_log_opens env f | None \<Rightarrow> True);
          pidfile = (case pidfile_name p of Some f \<Rightarrow> f | None \<Rightarrow> ''pgld.pid'')
      in if \<not> log_ok then Some (Exit_main (-1) [])
         else if \<not> env_fork_ok env then Some (Exit_main 1 [])
         else if create_pidfile env pidfile = None then Some (Exit_main 1 [])
         else if fst (install_sighandler (env_sigaction_ok env)) \<noteq> 0 then Some (Exit_main 1 [])
         else (case load_all_lists env (block_files p) (blocklist st) of
                 None \<Rightarrow> None
               | Some (ret, bl) \<Rightarrow>
                   if ret < 0 then Some (Exit_main (-1) [])
                   else let (b, calls) = nfqueue_bind (env_nfq_ok env) p
                        in if b < 0 then Some (Exit_main 1 [])
                           else Some (Enter_loop (st\<lparr>blocklist := bl, nfq_calls := calls\<rparr>))))"

definition pgld_main :: "'r pgld_env \<Rightarrow> string list \<Rightarrow> 'r main_end option" where
  "pgld_main env args =
     (let (os, rs) = getopt False pgld_optspec args
      in case apply_opts os default_opts of
           None \<Rightarrow> Some (Exit_main 0 [])
         | Some p0 \<Rightarrow>
             let p = fold add_blocklist rs p0
             in if opt_merge p then
                  map_option (\<lambda>(_, bl). Exit_main 0 (blocklist_dump bl))
                    (load_all_lists env (block_files p) blocklist_init)
                else if block_files p = [] then Some (Exit_main 1 [])
                else if uint (queue_num p) < 0 \<or> uint (queue_num p) > 65535 then Some (Exit_main 1 [])
                else start_daemon env p)"

subsection \<open>What the filter is about\<close>

text \<open>
  The packets a set of addresses blocks, lists that differ in their hit counters only, the
  sum of the counters, and the effect of one packet on the state.
\<close>

definition blocked :: "u32 set \<Rightarrow> packet \<Rightarrow> bool" where
  "blocked A p \<longleftrightarrow> (hook p = NF_IP_LOCAL_IN \<and> saddr p \<in> A) \<or> (hook p = NF_IP_LOCAL_OUT \<and> daddr p \<in> A)
     \<or> (hook p = NF_IP_FORWARD \<and> (saddr p \<in> A \<or> daddr p \<in> A))"

definition same_ranges :: "blocklist_t \<Rightarrow> blocklist_t \<Rightarrow> bool" where
  "same_ranges bl bl' \<longleftrightarrow> map (\<lambda>e. e\<lparr>hits := 0\<rparr>) (entries bl') = map (\<lambda>e. e\<lparr>hits := 0\<rparr>) (entries bl)"

definition total_hits :: "blocklist_t \<Rightarrow> u32" where
  "total_hits bl = sum_list (map hits (entries bl))"

definition filtered :: "'r pgld_state \<Rightarrow> packet \<Rightarrow> 'r pgld_state \<Rightarrow> bool" where
  "filtered st p st' \<longleftrightarrow>
     (let b = blocked (covered (entries (blocklist st))) p
      in opts st' = opts st \<and> nfq_calls st' = nfq_calls st \<and> redis st' \<noteq> None
       \<and> same_ranges (blocklist st) (blocklist st')
       \<and> verdicts st' = verdicts st @ (if b then [(packet_id p, NF_DROP, reject_mark (opts st))] else [])
       \<and> total_hits (blocklist st') = total_hits (blocklist st) + (if b then 1 else 0))"

text \<open>An environment in which everything works and the list of three ranges is loaded.\<close>

definition demo_env :: "unit pgld_env" where
  "demo_env = \<lparr>env_host = demo_host, env_qsort = sort_key ip_min, env_net = (\<lambda>_. Connected ()),
     env_server = (\<lambda>r c. (Some (ReplyInteger 1), r)), env_log_opens = (\<lambda>_. True), env_fork_ok = True,
     env_pid_opens = (\<lambda>_. True), env_pid_locks = (\<lambda>_. True), env_pid = 1,
     env_sigaction_ok = (\<lambda>_. True), env_nfq_ok = (\<lambda>_. True)\<rparr>"

definition demo_packet :: packet where
  "demo_packet = \<lparr>hook = NF_IP_LOCAL_OUT, packet_id = 7, saddr = 99, daddr = 25\<rparr>"

definition demo_state :: "unit pgld_state" where
  "demo_state = \<lparr>opts = default_opts, blocklist = blocklist_append Some 10 20 ''a'' blocklist_init,
     redis = None, verdicts = [], nfq_calls = []\<rparr>"

subsection \<open>The effect of packets, signals and loading\<close>

lemma block_message_safe:
  assumes "sec < 2 ^ 64"
  shows "length (block_message a sec b) \<le> 510" "CHR ''%'' \<notin> set (block_message a sec b)"
proof -
  from show_nat_length[of sec 20] assms have "length (show_nat sec) \<le> 20" by simp
  with int2ip_length[of a] int2ip_length[of b] show "length (block_message a sec b) \<le> 510"
    by (simp add: block_message_def)
  have "\<not> isdigit CHR ''%''" by (simp add: isdigit_def)
  then show "CHR ''%'' \<notin> set (block_message a sec b)"
    using int2ip_chars[of "CHR ''%''"] show_nat_digits by (auto simp: block_message_def)
qed

lemma block_packet_total:
  assumes "redis st = Some r" "sec < 2 ^ 64"
  obtains r' where "block_packet srv pid i (block_message a sec b) st = Some
     (st\<lparr>verdicts := verdicts st @ [(pid, NF_DROP, reject_mark (opts st))],
         blocklist := hit i (blocklist st), redis := Some r'\<rparr>)"
  using assms cmd_redis_text[OF block_message_safe[OF assms(2)], of srv r a b]
  by (simp add: block_packet_def)

lemma same_ranges_hit [simp]: "i < count bl \<Longrightarrow> same_ranges bl (hit i bl)"
  by (auto simp: same_ranges_def hit_def count_def map_update intro!: nth_equalityI simp: nth_list_update)

lemma same_ranges_refl [simp]: "same_ranges bl bl"
  by (simp add: same_ranges_def)

lemma same_ranges_trans: "same_ranges a b \<Longrightarrow> same_ranges b c \<Longrightarrow> same_ranges a c"
  by (simp add: same_ranges_def)

lemma sum_hits_update:
  "i < length es \<Longrightarrow> sum_list (map hits (es[i := (es ! i)\<lparr>hits := hits (es ! i) + 1\<rparr>])) = sum_list (map hits es) + (1::u32)"
  by (induction es arbitrary: i) (auto split: nat.split)

lemma map_hits_covered: "covered (map (\<lambda>e. e\<lparr>hits := 0\<rparr>) es) = covered es"
  and map_hits_separated: "separated (map (\<lambda>e. e\<lparr>hits := 0\<rparr>) es) = separated es"
  by (induction es) auto

lemma same_ranges_covered: "same_ranges bl bl' \<Longrightarrow> covered (entries bl') = covered (entries bl)"
  unfolding same_ranges_def by (metis map_hits_covered)

lemma same_ranges_separated: "same_ranges bl bl' \<Longrightarrow> separated (entries bl') = separated (entries bl)"
  unfolding same_ranges_def by (metis map_hits_separated)

lemmas hook_numbers = NF_IP_LOCAL_IN_def NF_IP_LOCAL_OUT_def NF_IP_FORWARD_def

lemma verdict_filtered:
  assumes "redis st = Some r" "sec < 2 ^ 64" "separated (entries (blocklist st))"
    and "f = None \<longleftrightarrow> \<not> blocked (covered (entries (blocklist st))) p"
    and "\<And>i. f = Some i \<Longrightarrow> i < count (blocklist st)"
  shows "\<exists>st'. (case f of None \<Rightarrow> Some (0::int, st)
       | Some i \<Rightarrow> map_option (\<lambda>st'. (0, st')) (block_packet srv (packet_id p) i (block_message a sec b) st))
      = Some (0, st') \<and> filtered st p st'"
proof (cases f)
  case None
  with assms show ?thesis by (simp add: filtered_def)
next
  case (Some i)
  obtain r' where "block_packet srv (packet_id p) i (block_message a sec b) st = Some
     (st\<lparr>verdicts := verdicts st @ [(packet_id p, NF_DROP, reject_mark (opts st))],
         blocklist := hit i (blocklist st), redis := Some r'\<rparr>)"
    using block_packet_total[OF assms(1,2)] .
  moreover have "total_hits (hit i (blocklist st)) = total_hits (blocklist st) + 1"
    using assms(5)[OF Some] by (simp add: total_hits_def hit_def sum_hits_update count_def)
  ultimately show ?thesis
    using Some assms(4) assms(5)[OF Some] by (simp add: filtered_def)
qed

lemma nfqueue_cb_filtered:
  assumes "redis st = Some r" "sec < 2 ^ 64" "separated (entries (blocklist st))"
  shows "\<exists>st'. nfqueue_cb srv (Some p) sec st = Some (0, st') \<and> filtered st p st'"
proof -
  note found = blocklist_find_separated[OF assms(3)]
  have sm: "blocklist_find ip (blocklist st) = None \<longleftrightarrow> ip \<notin> covered (entries (blocklist st))" for ip
    using found(1)[of ip] by (cases "blocklist_find ip (blocklist st)") auto
  have lt: "blocklist_find ip (blocklist st) = Some i \<Longrightarrow> i < count (blocklist st)" for ip i
    using found(2)[of ip i] by (simp add: count_def)
  note v = verdict_filtered[OF assms]
  consider "hook p = NF_IP_LOCAL_IN" | "hook p = NF_IP_LOCAL_OUT" | "hook p = NF_IP_FORWARD"
    | "hook p \<notin> {NF_IP_LOCAL_IN, NF_IP_LOCAL_OUT, NF_IP_FORWARD}" by blast
  then show ?thesis
  proof cases
    case 1
    then show ?thesis
      using v[of "blocklist_find (saddr p) (blocklist st)"] sm lt
      by (simp add: nfqueue_cb_def blocked_def hook_numbers)
  next
    case 2
    then show ?thesis
      using v[of "blocklist_find (daddr p) (blocklist st)"] sm lt
      by (simp add: nfqueue_cb_def blocked_def hook_numbers)
  next
    case 3
    let ?f = "case blocklist_find (daddr p) (blocklist st) of None \<Rightarrow> blocklist_find (saddr p) (blocklist st)
        | Some i \<Rightarrow> Some i"
    have "?f = None \<longleftrightarrow> \<not> blocked (covered (entries (blocklist st))) p"
      using 3 sm[of "daddr p"] sm[of "saddr p"] by (auto simp: blocked_def hook_numbers split: option.splits)
    moreover have "?f = Some i \<Longrightarrow> i < count (blocklist st)" for i
      using lt by (auto split: option.splits)
    ultimately show ?thesis
      using v[of ?f] 3
      by (simp add: nfqueue_cb_def Let_def hook_numbers)
  next
    case 4
    then show ?thesis using assms(1) by (simp add: nfqueue_cb_def filtered_def blocked_def Let_def)
  qed
qed

lemma nfqueue_loop_filters:
  assumes "redis st \<noteq> None" "separated (entries (blocklist st))" "\<forall>(p, sec) \<in> set ps. sec < 2 ^ 64"
  shows "\<exists>st'. nfqueue_loop env (map (\<lambda>(p, sec). Received (Some p) sec) ps) st = Some (Running st')
     \<and> opts st' = opts st \<and> redis st' \<noteq> None \<and> same_ranges (blocklist st) (blocklist st')
     \<and> verdicts st' = verdicts st @ map (\<lambda>(p, _). (packet_id p, NF_DROP, reject_mark (opts st)))
          (filter (\<lambda>(p, _). blocked (covered (entries (blocklist st))) p) ps)
     \<and> total_hits (blocklist st') = total_hits (blocklist st)
          + of_nat (length (filter (\<lambda>(p, _). blocked (covered (entries (blocklist st))) p) ps))"
  using assms
proof (induction ps arbitrary: st)
  case (Cons ps1 ps)
  obtain p sec where ps1: "ps1 = (p, sec)" by force
  from Cons.prems obtain r where "redis st = Some r" by blast
  with nfqueue_cb_filtered[of st r sec "env_server env" p] Cons.prems ps1 obtain st1
    where st1: "nfqueue_cb (env_server env) (Some p) sec st = Some (0, st1)" "filtered st p st1"
    by auto
  have same: "same_ranges (blocklist st) (blocklist st1)" "opts st1 = opts st" "redis st1 \<noteq> None"
    using st1(2) by (auto simp: filtered_def Let_def)
  note cov = same_ranges_covered[OF same(1)]
  have "separated (entries (blocklist st1))"
    using Cons.prems(2) same_ranges_separated[OF same(1)] by simp
  from Cons.IH[OF same(3) this] Cons.prems(3) obtain st2 where
    st2: "nfqueue_loop env (map (\<lambda>(p, sec). Received (Some p) sec) ps) st1 = Some (Running st2)"
      "opts st2 = opts st1" "redis st2 \<noteq> None" "same_ranges (blocklist st1) (blocklist st2)"
      "verdicts st2 = verdicts st1 @ map (\<lambda>(p, _). (packet_id p, NF_DROP, reject_mark (opts st1)))
          (filter (\<lambda>(p, _). blocked (covered (entries (blocklist st1))) p) ps)"
      "total_hits (blocklist st2) = total_hits (blocklist st1)
          + of_nat (length (filter (\<lambda>(p, _). blocked (covered (entries (blocklist st1))) p) ps))"
    by auto
  have "nfqueue_loop env (map (\<lambda>(p, sec). Received (Some p) sec) (ps1 # ps)) st = Some (Running st2)"
    using st1(1) st2(1) by (simp add: ps1 pgld_step_def)
  moreover have "same_ranges (blocklist st) (blocklist st2)"
    using same_ranges_trans[OF same(1) st2(4)] .
  moreover have "verdicts st1 = verdicts st @ (if blocked (covered (entries (blocklist st))) p
        then [(packet_id p, NF_DROP, reject_mark (opts st))] else [])"
      "total_hits (blocklist st1) = total_hits (blocklist st) + (if blocked (covered (entries (blocklist st))) p then 1 else 0)"
    using st1(2) by (auto simp: filtered_def Let_def)
  ultimately show ?case
    using st2 same(2) by (simp add: cov ps1)
qed simp

lemma pgld_main_loop:
  assumes "pgld_main env args = Some (Enter_loop st)"
  obtains ret bl where "load_ranges (env_host env) (block_files (opts st)) blocklist_init = Some (ret, bl)"
    "blocklist_merge (env_qsort env) (blocklist_sort (env_qsort env) bl) = Some (blocklist st)"
    "redis st = connect_redis (env_net env) Db_dynamic" "verdicts st = []"
  using assms
  by (auto simp: pgld_main_def start_daemon_def load_all_lists_def Let_def split: option.splits if_splits prod.splits)

lemma hits_only_separated:
  "separated (entries bl) \<Longrightarrow> i < count bl \<Longrightarrow> separated (entries (hit i bl))"
  using same_ranges_separated[OF same_ranges_hit] by blast

lemma stats_same_ranges: "same_ranges bl (snd (snd (blocklist_stats c bl)))"
  by (simp add: same_ranges_def blocklist_stats_def Let_def)

lemma load_all_lists_separated:
  assumes "block_sorter (env_qsort env)" "load_all_lists env fs bl = Some (ret, bl')"
  shows "separated (entries bl')"
  using assms(2) block_sorter.sort_merge_correct(1)[OF assms(1)]
  by (auto simp: load_all_lists_def split: option.splits prod.splits)

lemma nfqueue_cb_separated:
  assumes "nfqueue_cb srv nfa sec st = Some (r, st')" "separated (entries (blocklist st))"
  shows "separated (entries (blocklist st'))"
proof -
  have blk: "separated (entries (blocklist st1))"
    if "block_packet srv pid i msg st = Some st1" "blocklist_find ip (blocklist st) = Some i" for pid i msg st1 ip
    using that hits_only_separated[OF assms(2), of i] blocklist_find_separated(2)[OF assms(2), of ip i]
    by (auto simp: block_packet_def Let_def count_def split: option.splits prod.splits)
  show ?thesis
    using assms by (auto simp: nfqueue_cb_def Let_def split: option.splits if_splits dest: blk)
qed

lemma pgld_step_separated:
  assumes "block_sorter (env_qsort env)" "pgld_step env ev st = Some (Running st')"
    "separated (entries (blocklist st))"
  shows "separated (entries (blocklist st'))"
  using assms(2,3) load_all_lists_separated[OF assms(1)] same_ranges_separated[OF stats_same_ranges]
  by (auto simp: pgld_step_def pgld_sighandler_def Let_def nfqueue_cb_separated
      split: pgld_event.splits pgld_signal.splits if_splits option.splits)

lemma nfqueue_loop_separated:
  assumes "block_sorter (env_qsort env)"
  shows "nfqueue_loop env evs st = Some (Running st') \<Longrightarrow> separated (entries (blocklist st)) \<Longrightarrow>
    separated (entries (blocklist st'))"
  by (induction evs arbitrary: st)
    (auto split: option.splits pgld_outcome.splits dest: pgld_step_separated[OF assms])

lemma demo_ranges:
  "\<exists>bl. load_ranges demo_host [(''a'', None)] blocklist_init = Some (0, bl)
     \<and> entries bl = map (\<lambda>e. e\<lparr>hits := 0\<rparr>) (entries two_ranges)"
  using load_demo by (auto simp: load_ranges_def blocklist_clear_def)

lemma demo_loop:
  "\<exists>st. pgld_main demo_env [''a''] = Some (Enter_loop st) \<and> redis st \<noteq> None
     \<and> block_files (opts st) = [(''a'', None)]"
proof -
  obtain bl where bl: "load_ranges demo_host [(''a'', None)] blocklist_init = Some (0, bl)"
    "entries bl = map (\<lambda>e. e\<lparr>hits := 0\<rparr>) (entries two_ranges)" using demo_ranges by blast
  have "named (entries bl)" "\<forall>e \<in> set (entries bl). ip_min e \<noteq> ip_last"
    using two_ranges_facts(1,2) by (auto simp: bl(2) named_def)
  then obtain bl' where "blocklist_merge (sort_key ip_min) (blocklist_sort (sort_key ip_min) bl) = Some bl'"
    using stable.sort_merge_total by blast
  with bl(1) have "load_all_lists demo_env [(''a'', None)] blocklist_init = Some (0, bl')"
    by (simp add: load_all_lists_def demo_env_def)
  then show ?thesis
    by (simp add: pgld_main_def default_opts_def add_blocklist_def start_daemon_def nfqueue_bind_def
        demo_env_def connect_redis_def create_pidfile_def install_sighandler_def)
qed

lemma demo_state_facts:
  "separated (entries (blocklist demo_state))" "covered (entries (blocklist demo_state)) = {10..20}"
  by (simp_all add: demo_state_def blocklist_append_def blocklist_init_def Let_def)

subsection \<open>Properties\<close>





text \<open>
  C34. A packet that no range blocks gets no verdict at all: the callback returns success and
  leaves the packet in the kernel's queue. The accept mark that the help documents is never
  placed.
\<close>

theorem nfqueue_no_verdict:
  assumes "separated (entries (blocklist st))" "\<not> blocked (covered (entries (blocklist st))) p"
  shows "nfqueue_cb srv (Some p) sec st = Some (0, st)"
proof -
  have "blocklist_find ip (blocklist st) = None" if "ip \<notin> covered (entries (blocklist st))" for ip
    using blocklist_find_separated(1)[OF assms(1), of ip] that by (cases "blocklist_find ip (blocklist st)") auto
  with assms(2) show ?thesis
    by (auto simp: nfqueue_cb_def blocked_def Let_def)
qed

theorem nfqueue_no_verdict_witness:
  "nfqueue_cb (\<lambda>r c. (None, r)) (Some demo_packet) 5 demo_state = Some (0, demo_state)"
proof -
  have "\<not> blocked (covered (entries (blocklist demo_state))) demo_packet"
    by (simp only: demo_state_facts) (simp add: blocked_def demo_packet_def hook_numbers)
  with demo_state_facts(1) show ?thesis by (rule nfqueue_no_verdict)
qed

text \<open>
  The daemon starts even if the redis server does not answer, and then the first packet
  that is blocked crashes it: the publication dereferences the null context.
\<close>

theorem nfqueue_crash_without_redis:
  assumes "separated (entries (blocklist st))" "blocked (covered (entries (blocklist st))) p" "redis st = None"
  shows "nfqueue_cb srv (Some p) sec st = None"
proof -
  let ?A = "covered (entries (blocklist st))"
  have f: "ip \<in> ?A \<Longrightarrow> \<exists>i. blocklist_find ip (blocklist st) = Some i" for ip
    using blocklist_find_separated(1)[OF assms(1), of ip] by simp
  have b: "block_packet srv pid i msg st = None" for pid i msg
    using assms(3) by (simp add: block_packet_def)
  consider "hook p = NF_IP_LOCAL_IN" "saddr p \<in> ?A" | "hook p = NF_IP_LOCAL_OUT" "daddr p \<in> ?A"
    | "hook p = NF_IP_FORWARD" "saddr p \<in> ?A \<or> daddr p \<in> ?A"
    using assms(2) by (auto simp: blocked_def)
  then show ?thesis
    by cases (auto simp: nfqueue_cb_def Let_def hook_numbers b dest!: f split: option.splits)
qed

theorem nfqueue_crash_without_redis_witness:
  "nfqueue_cb (\<lambda>r c. (None, r)) (Some (demo_packet\<lparr>daddr := 15\<rparr>)) 5 demo_state = None"
proof -
  have "blocked (covered (entries (blocklist demo_state))) (demo_packet\<lparr>daddr := 15\<rparr>)"
    by (simp only: demo_state_facts) (simp add: blocked_def demo_packet_def hook_numbers)
  moreover have "redis demo_state = None" by (simp add: demo_state_def)
  ultimately show ?thesis using demo_state_facts(1) by (intro nfqueue_crash_without_redis)
qed

text \<open>
  When binding to the queue fails, the library handle has been closed, and the queue
  destroyed if it had been created.
\<close>

theorem nfqueue_bind_releases:
  assumes "fst (nfqueue_bind ok p) \<noteq> 0"
  shows "fst (nfqueue_bind ok p) = -1
     \<and> (ok Nfq_open \<longrightarrow> last (snd (nfqueue_bind ok p)) = Nfq_close)
     \<and> (Nfq_set_mode \<in> set (snd (nfqueue_bind ok p)) \<longrightarrow> Nfq_destroy_queue \<in> set (snd (nfqueue_bind ok p)))"
  using assms by (simp add: nfqueue_bind_def Let_def split: if_splits)

theorem nfqueue_bind_releases_witness:
  "last (snd (nfqueue_bind (\<lambda>c. c \<noteq> Nfq_set_mode) default_opts)) = Nfq_close"
  using nfqueue_bind_releases[of "\<lambda>c. c \<noteq> Nfq_set_mode" default_opts]
  by (simp add: nfqueue_bind_def Let_def)

text \<open>
  C30. The buffers for addresses (23 bytes) and protocol (5 bytes) hold everything that
  is printed into them, terminator included, for every packet.
\<close>

theorem setipinfo_fits:
  assumes "protocol < 256" "setipinfo protocol sa da sport dport = (src, dst, proto)"
  shows "length src < 23 \<and> length dst < 23 \<and> length proto < 5"
proof -
  have port: "length (show_nat (unat w)) \<le> 5" for w :: "16 word"
    using unsigned_less[of w, where ?'a = nat] by (intro show_nat_length) simp_all
  note port[of sport] port[of dport]
  moreover have "length (show_nat protocol) \<le> 3"
    using assms(1) by (intro show_nat_length) simp_all
  ultimately show ?thesis
    using assms(2) int2ip_length[of sa] int2ip_length[of da]
    by (auto simp: setipinfo_def Let_def split: if_splits intro: order.strict_trans1)
qed

theorem setipinfo_fits_witness:
  "length (fst (setipinfo 6 ip_last ip_last 65535 65535)) < 23"
proof -
  obtain s d p where r: "setipinfo 6 ip_last ip_last 65535 65535 = (s, d, p)" by (metis prod_cases3)
  from setipinfo_fits[OF _ this] r show ?thesis by simp
qed

text \<open>
  The check that a queue number lies between 0 and 65535 comes after the number was cut
  to 16 bits and never fires: a number above the limit is taken modulo 65536.
\<close>

theorem queue_number_wraps:
  assumes "k < 65536"
  shows "pgld_main env [''-q'', show_nat (k + 65536), f] = pgld_main env [''-q'', show_nat k, f]"
proof -
  have "word_of_int (atoi (show_nat n)) = (of_nat n :: 16 word)" if "n < 2 ^ 31" for n
    using that strtol10_show[of n "[]"] by (simp add: atoi_def)
  moreover have "(of_nat (k + 65536) :: 16 word) = of_nat k"
  proof -
    have "(65536 :: 16 word) = 0" by (simp add: word_unat_eq_iff)
    then show ?thesis by (simp only: of_nat_add of_nat_numeral add_0_right)
  qed
  ultimately have "set_opt (CHR ''q'', show_nat (k + 65536)) p = set_opt (CHR ''q'', show_nat k) p" for p
    using assms by (simp add: set_opt_def)
  moreover have "getopt False pgld_optspec [''-q'', x, f] =
      (let (os, rs) = getopt False pgld_optspec [f] in ((CHR ''q'', x) # os, rs))" for x
    by (subst getopt.simps(2)) (simp add: pgld_optspec_def del: getopt.simps)
  ultimately show ?thesis
    by (simp add: pgld_main_def split_beta del: getopt.simps)
qed

theorem queue_number_wraps_witness:
  "pgld_main demo_env [''-q'', show_nat (1 + 65536), ''a''] = pgld_main demo_env [''-q'', show_nat 1, ''a'']"
  using queue_number_wraps[of 1 demo_env "''a''"] by simp

end
