(* ===== verification/Crc32.thy ===== *)
theory Crc32
  imports Dowse_Prelude
begin

text \<open>
  The checksum under the hash map's hash function (\<^verbatim>\<open>src/src/libdowse/hashmap.c\<close>, lines
  81 to 151): the 256-entry table, the byte loop over it, and the bit-by-bit polynomial
  division the table stands for. The lemmas show that the two agree on every input and
  that the result fits in 32 of the 64 bits.
\<close>

subsection \<open>The CRC\<close>

definition crc32_tab :: "u64 list" where
  "crc32_tab = [
     0x00000000, 0x77073096, 0xee0e612c, 0x990951ba, 0x076dc419, 0x706af48f,
     0xe963a535, 0x9e6495a3, 0x0edb8832, 0x79dcb8a4, 0xe0d5e91e, 0x97d2d988,
     0x09b64c2b, 0x7eb17cbd, 0xe7b82d07, 0x90bf1d91, 0x1db71064, 0x6ab020f2,
     0xf3b97148, 0x84be41de, 0x1adad47d, 0x6ddde4eb, 0xf4d4b551, 0x83d385c7,
     0x136c9856, 0x646ba8c0, 0xfd62f97a, 0x8a65c9ec, 0x14015c4f, 0x63066cd9,
     0xfa0f3d63, 0x8d080df5, 0x3b6e20c8, 0x4c69105e, 0xd56041e4, 0xa2677172,
     0x3c03e4d1, 0x4b04d447, 0xd20d85fd, 0xa50ab56b, 0x35b5a8fa, 0x42b2986c,
     0xdbbbc9d6, 0xacbcf940, 0x32d86ce3, 0x45df5c75, 0xdcd60dcf, 0xabd13d59,
     0x26d930ac, 0x51de003a, 0xc8d75180, 0xbfd06116, 0x21b4f4b5, 0x56b3c423,
     0xcfba9599, 0xb8bda50f, 0x2802b89e, 0x5f058808, 0xc60cd9b2, 0xb10be924,
     0x2f6f7c87, 0x58684c11, 0xc1611dab, 0xb6662d3d, 0x76dc4190, 0x01db7106,
     0x98d220bc, 0xefd5102a, 0x71b18589, 0x06b6b51f, 0x9fbfe4a5, 0xe8b8d433,
     0x7807c9a2, 0x0f00f934, 0x9609a88e, 0xe10e9818, 0x7f6a0dbb, 0x086d3d2d,
     0x91646c97, 0xe6635c01, 0x6b6b51f4, 0x1c6c6162, 0x856530d8, 0xf262004e,
     0x6c0695ed, 0x1b01a57b, 0x8208f4c1, 0xf50fc457, 0x65b0d9c6, 0x12b7e950,
     0x8bbeb8ea, 0xfcb9887c, 0x62dd1ddf, 0x15da2d49, 0x8cd37cf3, 0xfbd44c65,
     0x4db26158, 0x3ab551ce, 0xa3bc0074, 0xd4bb30e2, 0x4adfa541, 0x3dd895d7,
     0xa4d1c46d, 0xd3d6f4fb, 0x4369e96a, 0x346ed9fc, 0xad678846, 0xda60b8d0,
     0x44042d73, 0x33031de5, 0xaa0a4c5f, 0xdd0d7cc9, 0x5005713c, 0x270241aa,
     0xbe0b1010, 0xc90c2086, 0x5768b525, 0x206f85b3, 0xb966d409, 0xce61e49f,
     0x5edef90e, 0x29d9c998, 0xb0d09822, 0xc7d7a8b4, 0x59b33d17, 0x2eb40d81,
     0xb7bd5c3b, 0xc0ba6cad, 0xedb88320, 0x9abfb3b6, 0x03b6e20c, 0x74b1d29a,
     0xead54739, 0x9dd277af, 0x04db2615, 0x73dc1683, 0xe3630b12, 0x94643b84,
     0x0d6d6a3e, 0x7a6a5aa8, 0xe40ecf0b, 0x9309ff9d, 0x0a00ae27, 0x7d079eb1,
     0xf00f9344, 0x8708a3d2, 0x1e01f268, 0x6906c2fe, 0xf762575d, 0x806567cb,
     0x196c3671, 0x6e6b06e7, 0xfed41b76, 0x89d32be0, 0x10da7a5a, 0x67dd4acc,
     0xf9b9df6f, 0x8ebeeff9, 0x17b7be43, 0x60b08ed5, 0xd6d6a3e8, 0xa1d1937e,
     0x38d8c2c4, 0x4fdff252, 0xd1bb67f1, 0xa6bc5767, 0x3fb506dd, 0x48b2364b,
     0xd80d2bda, 0xaf0a1b4c, 0x36034af6, 0x41047a60, 0xdf60efc3, 0xa867df55,
     0x316e8eef, 0x4669be79, 0xcb61b38c, 0xbc66831a, 0x256fd2a0, 0x5268e236,
     0xcc0c7795, 0xbb0b4703, 0x220216b9, 0x5505262f, 0xc5ba3bbe, 0xb2bd0b28,
     0x2bb45a92, 0x5cb36a04, 0xc2d7ffa7, 0xb5d0cf31, 0x2cd99e8b, 0x5bdeae1d,
     0x9b64c2b0, 0xec63f226, 0x756aa39c, 0x026d930a, 0x9c0906a9, 0xeb0e363f,
     0x72076785, 0x05005713, 0x95bf4a82, 0xe2b87a14, 0x7bb12bae, 0x0cb61b38,
     0x92d28e9b, 0xe5d5be0d, 0x7cdcefb7, 0x0bdbdf21, 0x86d3d2d4, 0xf1d4e242,
     0x68ddb3f8, 0x1fda836e, 0x81be16cd, 0xf6b9265b, 0x6fb077e1, 0x18b74777,
     0x88085ae6, 0xff0f6a70, 0x66063bca, 0x11010b5c, 0x8f659eff, 0xf862ae69,
     0x616bffd3, 0x166ccf45, 0xa00ae278, 0xd70dd2ee, 0x4e048354, 0x3903b3c2,
     0xa7672661, 0xd06016f7, 0x4969474d, 0x3e6e77db, 0xaed16a4a, 0xd9d65adc,
     0x40df0b66, 0x37d83bf0, 0xa9bcae53, 0xdebb9ec5, 0x47b2cf7f, 0x30b5ffe9,
     0xbdbdf21c, 0xcabac28a, 0x53b39330, 0x24b4a3a6, 0xbad03605, 0xcdd70693,
     0x54de5729, 0x23d967bf, 0xb3667a2e, 0xc4614ab8, 0x5d681b02, 0x2a6f2b94,
     0xb40bbe37, 0xc30c8ea1, 0x5a05df1b, 0x2d02ef8d]"

text \<open>
  \<^verbatim>\<open>unsigned long\<close> is 64 bits wide; the table entries and every intermediate value fit in
  32 of them. The loop reads \<open>len\<close> bytes of the buffer.
\<close>

definition crc32_byte :: "u64 \<Rightarrow> u8 \<Rightarrow> u64" where
  "crc32_byte crc32val b =
     (crc32_tab ! unat ((crc32val XOR ucast b) AND 0xff)) XOR drop_bit 8 crc32val"

definition crc32 :: "u8 list \<Rightarrow> u32 \<Rightarrow> u64" where
  "crc32 s len = foldl crc32_byte 0 (take (unat len) s)"

text \<open>The reference the table stands for: eight shift-and-xor steps of the polynomial.\<close>

definition crc32_poly :: u64 where
  "crc32_poly = 0xedb88320"

definition crc_shift :: "u64 \<Rightarrow> u64" where
  "crc_shift c = (if bit c 0 then drop_bit 1 c XOR crc32_poly else drop_bit 1 c)"

definition crc32_byte_ref :: "u64 \<Rightarrow> u8 \<Rightarrow> u64" where
  "crc32_byte_ref c b = (crc_shift ^^ 8) (c XOR ucast b)"

definition crc32_ref :: "u8 list \<Rightarrow> u64" where
  "crc32_ref s = foldl crc32_byte_ref 0 s"

text \<open>Values that would fit into 32 bits.\<close>

definition fits32 :: "u64 \<Rightarrow> bool" where
  "fits32 c \<longleftrightarrow> take_bit 32 c = c"

text \<open>
  Two helpers for checking the table: building it from the eight powers of two, and
  comparing two tables entry by entry.
\<close>

fun double_tab :: "u64 list \<Rightarrow> u64 list \<Rightarrow> u64 list" where
  "double_tab [] t = t"
| "double_tab (b # bs) t = double_tab bs (t @ map (\<lambda>x. x XOR b) t)"

fun tab_eq :: "u64 list \<Rightarrow> u64 list \<Rightarrow> bool" where
  "tab_eq [] [] = True"
| "tab_eq (x # xs) (y # ys) = (x = y \<and> tab_eq xs ys)"
| "tab_eq _ _ = False"

subsection \<open>The table is the polynomial\<close>

lemma crc_shift_xor: "crc_shift (a XOR b) = crc_shift a XOR crc_shift b"
  by (auto simp: crc_shift_def bit_xor_iff ac_simps drop_bit_xor)

lemma crc_shift_funpow_xor: "(crc_shift ^^ n) (a XOR b) = (crc_shift ^^ n) a XOR (crc_shift ^^ n) b"
  by (induction n) (simp_all add: crc_shift_xor)

lemma crc_shift_clear:
  assumes "\<And>i. i < n \<Longrightarrow> \<not> bit c i"
  shows "(crc_shift ^^ n) c = drop_bit n c"
  using assms
proof (induction n arbitrary: c)
  case (Suc n)
  have "crc_shift c = drop_bit 1 c"
    using Suc.prems[of 0] by (simp add: crc_shift_def)
  moreover have "(crc_shift ^^ n) (drop_bit 1 c) = drop_bit n (drop_bit 1 c)"
    by (rule Suc.IH) (simp add: bit_drop_bit_eq Suc.prems)
  ultimately show ?case
    by (simp add: funpow_Suc_right del: funpow.simps(2))
qed simp

lemma crc_shift_pow2: "n \<le> 8 \<Longrightarrow> (crc_shift ^^ 8) (2 ^ n) = (crc_shift ^^ (8 - n)) 1"
proof -
  assume n: "n \<le> 8"
  have "(crc_shift ^^ n) (2 ^ n) = drop_bit n (2 ^ n :: u64)"
    by (rule crc_shift_clear) (auto simp: bit_exp_iff)
  also have "drop_bit n (2 ^ n :: u64) = 1"
    using n by (intro bit_word_eqI) (auto simp: bit_drop_bit_eq bit_exp_iff bit_1_iff)
  finally have "(crc_shift ^^ n) (2 ^ n) = 1" .
  moreover have "(8::nat) = (8 - n) + n" using n by simp
  ultimately show ?thesis
    by (metis comp_apply funpow_add)
qed

lemma add_pow2_xor: "i < 2 ^ n \<Longrightarrow> n < 64 \<Longrightarrow> (of_nat (2 ^ n + i) :: u64) = of_nat i XOR 2 ^ n"
proof -
  assume i: "i < 2 ^ n" and n: "n < 64"
  have "\<not> bit i n"
    using i by (simp add: bit_iff_odd)
  then have "of_nat i AND (2 ^ n :: u64) = 0"
    by (intro bit_word_eqI) (auto simp: bit_and_iff bit_exp_iff bit_of_nat_iff)
  then show ?thesis
    by (simp add: disjunctive_add_eq_xor add.commute)
qed

lemma tab_eqD: "tab_eq xs ys \<Longrightarrow> xs = ys"
  by (induction xs ys rule: tab_eq.induct) auto

lemma crc_tab: "double_tab [0x77073096, 0xee0e612c, 0x076dc419, 0x0edb8832, 0x1db71064, 0x3b6e20c8, 0x76dc4190, 0xedb88320] [0] = crc32_tab"
  by (rule tab_eqD) (simp add: crc32_tab_def)
lemma double_tab_step:
  assumes "n < 8"
  shows "map (\<lambda>i. (crc_shift ^^ 8) (of_nat i)) [0..<2 ^ n]
       @ map (\<lambda>x. x XOR (crc_shift ^^ (8 - n)) 1) (map (\<lambda>i. (crc_shift ^^ 8) (of_nat i)) [0..<2 ^ n])
       = map (\<lambda>i. (crc_shift ^^ 8) (of_nat i)) [0..<2 ^ Suc n]"
proof -
  have "[0..<2 ^ Suc n] = [0..<2 ^ n] @ map (\<lambda>i. i + 2 ^ n) [0..<2 ^ n]"
    using upt_add_eq_append[of 0 "2 ^ n" "2 ^ n"] by (simp add: map_add_upt mult_2)
  moreover have "(crc_shift ^^ 8) (of_nat (2 ^ n + i)) = (crc_shift ^^ 8) (of_nat i) XOR (crc_shift ^^ (8 - n)) 1"
    if "i < 2 ^ n" for i
  proof -
    have "(of_nat (2 ^ n + i) :: u64) = of_nat i XOR 2 ^ n"
      using that assms by (intro add_pow2_xor) auto
    then show ?thesis
      using assms by (simp only: crc_shift_funpow_xor crc_shift_pow2)
  qed
  ultimately show ?thesis
    by (simp add: comp_def add.commute del: of_nat_add)
qed

lemma crc_shift_numeral:
  "crc_shift 0 = 0" "crc_shift 1 = 0xedb88320"
  "crc_shift (numeral w) = (if bit (numeral w :: u64) 0 then drop_bit 1 (numeral w) XOR 0xedb88320
     else drop_bit 1 (numeral w))"
  by (simp_all add: crc_shift_def crc32_poly_def)

lemma funpow_unfold:
  "(f ^^ 2) x = f (f x)" "(f ^^ 3) x = f (f (f x))" "(f ^^ 4) x = f (f (f (f x)))"
  "(f ^^ 5) x = f (f (f (f (f x))))" "(f ^^ 6) x = f (f (f (f (f (f x)))))"
  "(f ^^ 7) x = f (f (f (f (f (f (f x))))))" "(f ^^ 8) x = f (f (f (f (f (f (f (f x)))))))"
  by (simp_all add: eval_nat_numeral)

lemma crc_bases:
  "map (\<lambda>n. (crc_shift ^^ (8 - n)) 1) [0..<8] =
    [0x77073096, 0xee0e612c, 0x076dc419, 0x0edb8832, 0x1db71064, 0x3b6e20c8, 0x76dc4190, 0xedb88320]"
proof -
  have "[0..<8] = [0, 1, 2, 3, 4, 5, 6, 7 :: nat]"
    by code_simp
  then show ?thesis
    by (simp add: funpow_unfold crc_shift_numeral drop_bit_Suc)
qed

lemma double_tab_snoc: "double_tab (bs @ [b]) t = double_tab bs t @ map (\<lambda>x. x XOR b) (double_tab bs t)"
  by (induction bs arbitrary: t) auto

lemma double_tab_bases:
  "n \<le> 8 \<Longrightarrow> double_tab (map (\<lambda>n. (crc_shift ^^ (8 - n)) 1) [0..<n]) [0]
     = map (\<lambda>i. (crc_shift ^^ 8) (of_nat i)) [0..<2 ^ n]"
proof (induction n)
  case 0
  show ?case by (simp add: funpow_unfold crc_shift_numeral)
next
  case (Suc n)
  then have IH: "double_tab (map (\<lambda>n. (crc_shift ^^ (8 - n)) 1) [0..<n]) [0]
     = map (\<lambda>i. (crc_shift ^^ 8) (of_nat i)) [0..<2 ^ n]" by simp
  have "double_tab (map (\<lambda>n. (crc_shift ^^ (8 - n)) 1) [0..<Suc n]) [0]
     = double_tab (map (\<lambda>n. (crc_shift ^^ (8 - n)) 1) [0..<n] @ [(crc_shift ^^ (8 - n)) 1]) [0]"
    by simp
  also have "\<dots> = map (\<lambda>i. (crc_shift ^^ 8) (of_nat i)) [0..<2 ^ Suc n]"
    unfolding double_tab_snoc IH using Suc.prems by (intro double_tab_step) simp
  finally show ?case .
qed

lemma crc32_tab_eq: "crc32_tab = map (\<lambda>i. (crc_shift ^^ 8) (of_nat i)) [0..<256]"
  using double_tab_bases[of 8] unfolding crc_bases crc_tab by simp

lemma and_ff_eq_take_bit: "(x :: u64) AND 0xff = take_bit 8 x"
  by (simp add: take_bit_eq_mask mask_eq_exp_minus_1)

lemma crc_shift_high: "(crc_shift ^^ 8) (push_bit 8 (drop_bit 8 x)) = drop_bit 8 x"
proof -
  have "(crc_shift ^^ 8) (push_bit 8 (drop_bit 8 x)) = drop_bit 8 (push_bit 8 (drop_bit 8 x))"
    by (rule crc_shift_clear) (simp add: bit_push_bit_iff)
  also have "\<dots> = drop_bit 8 x"
    by (intro bit_word_eqI) (auto simp: bit_drop_bit_eq bit_push_bit_iff dest: bit_imp_le_length)
  finally show ?thesis .
qed

lemma crc32_byte_eq_ref: "crc32_byte c b = crc32_byte_ref c b"
proof -
  define x where "x = c XOR ucast b"
  have lo: "unat (take_bit 8 x) < 256"
    using take_bit_nat_less_exp[of 8 "unat x"] by (simp add: unsigned_take_bit_eq)
  have split: "x = take_bit 8 x XOR push_bit 8 (drop_bit 8 x)"
    by (intro bit_word_eqI) (auto simp: bit_xor_iff bit_take_bit_iff bit_push_bit_iff bit_drop_bit_eq)
  have hi: "drop_bit 8 x = drop_bit 8 c"
    unfolding x_def
    by (intro bit_word_eqI) (auto simp: bit_drop_bit_eq bit_xor_iff bit_unsigned_iff dest: bit_imp_le_length)
  have "crc32_byte_ref c b = (crc_shift ^^ 8) (take_bit 8 x) XOR drop_bit 8 x"
    unfolding crc32_byte_ref_def x_def[symmetric]
    by (subst split) (simp only: crc_shift_funpow_xor crc_shift_high)
  also have "(crc_shift ^^ 8) (take_bit 8 x) = crc32_tab ! unat (take_bit 8 x)"
    using lo by (simp add: crc32_tab_eq)
  finally show ?thesis
    by (simp add: crc32_byte_def and_ff_eq_take_bit x_def[symmetric] hi)
qed

lemma crc32_eq_ref: "crc32 s len = crc32_ref (take (unat len) s)"
proof -
  have "crc32_byte = crc32_byte_ref"
    by (intro ext) (rule crc32_byte_eq_ref)
  then show ?thesis by (simp add: crc32_def crc32_ref_def)
qed

subsection \<open>Width of the result\<close>

lemma fits32_iff: "fits32 c \<longleftrightarrow> c < 2 ^ 32"
proof -
  have "fits32 c \<longleftrightarrow> unat (take_bit 32 c) = unat c"
    by (simp add: fits32_def word_unat_eq_iff)
  also have "\<dots> \<longleftrightarrow> unat c < 2 ^ 32"
    by (simp add: unsigned_take_bit_eq take_bit_nat_eq_self_iff)
  finally show ?thesis
    by (simp add: word_less_nat_alt)
qed

lemma fits32_bits: "fits32 c \<longleftrightarrow> (\<forall>n \<ge> 32. \<not> bit c n)"
proof
  assume "fits32 c"
  then have c: "take_bit 32 c = c" by (simp add: fits32_def)
  show "\<forall>n \<ge> 32. \<not> bit c n"
    by (subst c[symmetric]) (auto simp: bit_take_bit_iff)
next
  assume "\<forall>n \<ge> 32. \<not> bit c n"
  then show "fits32 c"
    unfolding fits32_def by (intro bit_word_eqI) (auto simp: bit_take_bit_iff intro: leI)
qed

lemma crc_shift_small: "fits32 c \<Longrightarrow> fits32 (crc_shift c)"
proof -
  assume "fits32 c"
  then have c: "\<not> bit c n" if "n \<ge> 32" for n
    using that by (simp add: fits32_bits)
  have "fits32 crc32_poly"
    by (simp add: fits32_iff crc32_poly_def)
  then have "\<not> bit crc32_poly n" if "n \<ge> 32" for n
    using that by (simp add: fits32_bits)
  with c show ?thesis
    by (auto simp: fits32_bits crc_shift_def bit_xor_iff bit_drop_bit_eq)
qed

lemma crc32_byte_ref_small: "fits32 c \<Longrightarrow> fits32 (crc32_byte_ref c b)"
proof -
  assume c: "fits32 c"
  have "fits32 (c XOR ucast b)"
    using c by (auto simp: fits32_bits bit_xor_iff bit_unsigned_iff dest: bit_imp_le_length)
  then have "fits32 ((crc_shift ^^ n) (c XOR ucast b))" for n
    by (induction n) (auto intro: crc_shift_small)
  then show ?thesis by (simp add: crc32_byte_ref_def)
qed

lemma crc32_ref_small: "fits32 (crc32_ref s)"
proof -
  have "fits32 (foldl crc32_byte_ref c s)" if "fits32 c" for c
    using that by (induction s arbitrary: c) (auto intro: crc32_byte_ref_small)
  then show ?thesis
    by (simp add: crc32_ref_def fits32_def)
qed

subsection \<open>Property\<close>

text \<open>
  C31. The table-driven checksum is the bitwise CRC with polynomial edb88320 of the first
  \<^verbatim>\<open>len\<close> bytes of the string, and although it is computed in a 64-bit variable it always
  fits into 32 bits.
\<close>

theorem crc32_table_correct:
  "crc32 s len = crc32_ref (take (unat len) s) \<and> fits32 (crc32 s len)"
  by (simp add: crc32_eq_ref crc32_ref_small)

end
