(* ===== verification/Hashmap.thy ===== *)
theory Hashmap
  imports Crc32
begin

text \<open>
  The hash map of libdowse (\<^verbatim>\<open>src/src/libdowse/hashmap.c\<close>): the mixing
  function over the CRC that places a key, linear probing over at most eight slots, growth
  by doubling, and the operations built on them.
\<close>

subsection \<open>Placing a key\<close>

definition jenkins_mix :: "u64 \<Rightarrow> u64" where
  "jenkins_mix key0 =
     (let key = key0 + push_bit 12 key0;
          key = key XOR drop_bit 22 key;
          key = key + push_bit 4 key;
          key = key XOR drop_bit 9 key;
          key = key + push_bit 10 key;
          key = key XOR drop_bit 2 key;
          key = key + push_bit 7 key;
          key = key XOR drop_bit 12 key
      in key)"

definition hashmap_hash_int :: "nat \<Rightarrow> string \<Rightarrow> nat" where
  "hashmap_hash_int tsize keystring =
     (let key = crc32 (bytes_of_string keystring) (of_nat (length keystring));
          key = jenkins_mix key;
          key = drop_bit 3 key * 2654435761
      in unat (key mod of_nat tsize))"

subsection \<open>The map and its slots\<close>

datatype map_status = MAP_MISSING | MAP_FULL | MAP_OMEM | MAP_OK

text \<open>A null pointer is \<open>None\<close>, both for a key and for the stored data.\<close>

record 'v hashmap_element =
  ekey :: "string option"
  in_use :: bool
  edata :: "'v option"

record 'v hashmap_map =
  table_size :: nat
  msize :: nat
  hdata :: "'v hashmap_element list"

definition INITIAL_SIZE :: nat where "INITIAL_SIZE = 16"
definition MAX_CHAIN_LENGTH :: nat where "MAX_CHAIN_LENGTH = 8"

definition free_element :: "'v hashmap_element" where
  "free_element = \<lparr>ekey = None, in_use = False, edata = None\<rparr>"

text \<open>
  calloc grants a table of \<open>n\<close> elements up to the memory limit \<open>lim\<close>. The count is an
  \<^verbatim>\<open>int\<close>: from \<open>2 ^ 31\<close> on it has wrapped to a negative number, which is no size calloc
  can grant.
\<close>

definition calloc_elements :: "nat \<Rightarrow> nat \<Rightarrow> 'v hashmap_element list option" where
  "calloc_elements lim n =
     (if n \<le> lim \<and> n < 2 ^ 31 then Some (replicate n free_element) else None)"

definition hashmap_new :: "nat \<Rightarrow> 'v hashmap_map option" where
  "hashmap_new lim =
     map_option (\<lambda>d. \<lparr>table_size = INITIAL_SIZE, msize = 0, hdata = d\<rparr>)
       (calloc_elements lim INITIAL_SIZE)"

fun hash_probe :: "'v hashmap_element list \<Rightarrow> nat \<Rightarrow> string \<Rightarrow> nat \<Rightarrow> nat \<Rightarrow> nat option" where
  "hash_probe d tsize k cur 0 = None"
| "hash_probe d tsize k cur (Suc n) =
     (if \<not> in_use (d ! cur) then Some cur
      else if in_use (d ! cur) \<and> ekey (d ! cur) = Some k then Some cur
      else hash_probe d tsize k ((cur + 1) mod tsize) n)"

text \<open>\<open>None\<close> is the return value MAP_FULL.\<close>

definition hashmap_hash :: "'v hashmap_map \<Rightarrow> string \<Rightarrow> nat option" where
  "hashmap_hash m k =
     (if msize m \<ge> table_size m div 2 then None
      else hash_probe (hdata m) (table_size m) k
             (hashmap_hash_int (table_size m) k) MAX_CHAIN_LENGTH)"

definition set_slot :: "'v hashmap_map \<Rightarrow> nat \<Rightarrow> string \<Rightarrow> 'v option \<Rightarrow> 'v hashmap_map" where
  "set_slot m index k v =
     m\<lparr>hdata := (hdata m)[index := \<lparr>ekey = Some k, in_use = True, edata = v\<rparr>],
       msize := msize m + 1\<rparr>"

text \<open>
  \<^verbatim>\<open>hashmap_put\<close> and \<^verbatim>\<open>hashmap_rehash\<close> call each other. The first argument bounds the
  depth of that recursion (\<open>None\<close>: exhausted), the second is the largest table calloc
  grants. A table only ever grows by doubling, so \<open>Suc lim\<close> levels are enough
  (\<open>put_fuel_enough\<close> below) and \<^verbatim>\<open>hashmap_put\<close> is defined with that depth.
\<close>

fun put_fuel :: "nat \<Rightarrow> nat \<Rightarrow> 'v hashmap_map \<Rightarrow> string \<Rightarrow> 'v option
      \<Rightarrow> (map_status \<times> 'v hashmap_map) option"
and rehash_fuel :: "nat \<Rightarrow> nat \<Rightarrow> 'v hashmap_map \<Rightarrow> (map_status \<times> 'v hashmap_map) option"
and reinsert :: "nat \<Rightarrow> nat \<Rightarrow> 'v hashmap_map \<Rightarrow> 'v hashmap_element list
      \<Rightarrow> (map_status \<times> 'v hashmap_map) option" where
  "put_fuel 0 lim m k v = None"
| "put_fuel (Suc n) lim m k v =
     (case hashmap_hash m k of
        Some index \<Rightarrow> Some (MAP_OK, set_slot m index k v)
      | None \<Rightarrow>
          (case rehash_fuel n lim m of
             None \<Rightarrow> None
           | Some (status, m') \<Rightarrow>
               if status = MAP_OMEM then Some (MAP_OMEM, m') else put_fuel n lim m' k v))"
| "rehash_fuel n lim m =
     (case calloc_elements lim (2 * table_size m) of
        None \<Rightarrow> Some (MAP_OMEM, m)
      | Some temp \<Rightarrow>
          reinsert n lim \<lparr>table_size = 2 * table_size m, msize = 0, hdata = temp\<rparr> (hdata m))"
| "reinsert n lim m [] = Some (MAP_OK, m)"
| "reinsert n lim m (e # es) =
     (if \<not> in_use e then reinsert n lim m es
      else (case put_fuel n lim m (the (ekey e)) (edata e) of
              None \<Rightarrow> None
            | Some (status, m') \<Rightarrow>
                if status \<noteq> MAP_OK then Some (status, m') else reinsert n lim m' es))"

definition hashmap_put :: "nat \<Rightarrow> 'v hashmap_map \<Rightarrow> string \<Rightarrow> 'v option
      \<Rightarrow> (map_status \<times> 'v hashmap_map) option" where
  "hashmap_put lim m k v = put_fuel (Suc lim) lim m k v"

definition hashmap_rehash :: "nat \<Rightarrow> 'v hashmap_map \<Rightarrow> (map_status \<times> 'v hashmap_map) option" where
  "hashmap_rehash lim m = rehash_fuel (Suc lim) lim m"

fun find_probe :: "'v hashmap_element list \<Rightarrow> nat \<Rightarrow> string \<Rightarrow> nat \<Rightarrow> nat \<Rightarrow> nat option" where
  "find_probe d tsize k cur 0 = None"
| "find_probe d tsize k cur (Suc n) =
     (if in_use (d ! cur) \<and> ekey (d ! cur) = Some k then Some cur
      else find_probe d tsize k ((cur + 1) mod tsize) n)"

definition hashmap_get :: "'v hashmap_map \<Rightarrow> string \<Rightarrow> map_status \<times> 'v option" where
  "hashmap_get m k =
     (case find_probe (hdata m) (table_size m) k
             (hashmap_hash_int (table_size m) k) MAX_CHAIN_LENGTH of
        Some cur \<Rightarrow> (MAP_OK, edata (hdata m ! cur))
      | None \<Rightarrow> (MAP_MISSING, None))"

definition hashmap_remove :: "'v hashmap_map \<Rightarrow> string \<Rightarrow> map_status \<times> 'v hashmap_map" where
  "hashmap_remove m k =
     (case find_probe (hdata m) (table_size m) k
             (hashmap_hash_int (table_size m) k) MAX_CHAIN_LENGTH of
        Some cur \<Rightarrow>
          (MAP_OK, m\<lparr>hdata := (hdata m)[cur := free_element], msize := msize m - 1\<rparr>)
      | None \<Rightarrow> (MAP_MISSING, m))"

definition hashmap_length :: "'v hashmap_map option \<Rightarrow> nat" where
  "hashmap_length mo = (case mo of Some m \<Rightarrow> msize m | None \<Rightarrow> 0)"

text \<open>Freeing reads the map first, so a null map is a crash.\<close>

definition hashmap_free :: "'v hashmap_map option \<Rightarrow> unit option" where
  "hashmap_free mo = (case mo of Some m \<Rightarrow> Some () | None \<Rightarrow> None)"

text \<open>
  The callback of \<^verbatim>\<open>hashmap_iterate\<close> works on the caller's item, here its state. A status
  other than MAP_OK ends the traversal.
\<close>

fun iterate_slots :: "('s \<Rightarrow> string option \<Rightarrow> 'v option \<Rightarrow> map_status \<times> 's) \<Rightarrow> 's
      \<Rightarrow> 'v hashmap_element list \<Rightarrow> map_status \<times> 's" where
  "iterate_slots f item [] = (MAP_OK, item)"
| "iterate_slots f item (e # es) =
     (if in_use e
      then (let (status, item') = f item (ekey e) (edata e)
            in if status \<noteq> MAP_OK then (status, item') else iterate_slots f item' es)
      else iterate_slots f item es)"

definition hashmap_foreach :: "'v hashmap_map \<Rightarrow> ('s \<Rightarrow> string option \<Rightarrow> 'v option \<Rightarrow> map_status \<times> 's)
      \<Rightarrow> 's \<Rightarrow> map_status \<times> 's" where
  "hashmap_foreach m f item =
     (if hashmap_length (Some m) \<le> 0 then (MAP_MISSING, item)
      else iterate_slots f item (hdata m))"

definition hashmap_iterate :: "'v hashmap_map \<Rightarrow> ('s \<Rightarrow> 'v option \<Rightarrow> map_status \<times> 's)
      \<Rightarrow> 's \<Rightarrow> map_status \<times> 's" where
  "hashmap_iterate m f item =
     (if hashmap_length (Some m) \<le> 0 then (MAP_MISSING, item)
      else iterate_slots (\<lambda>s _ v. f s v) item (hdata m))"

subsection \<open>Sequences of operations\<close>

text \<open>
  Storing a list of pairs one after the other, as the loader of the domain list does;
  \<open>None\<close> when an update is refused. Generic in the store, so that it is reasoned about
  once, from the laws of a store alone.
\<close>

fun store_all :: "('m \<Rightarrow> string \<Rightarrow> 'v option \<Rightarrow> 'm option) \<Rightarrow> 'm
      \<Rightarrow> (string \<times> 'v option) list \<Rightarrow> 'm option" where
  "store_all upd m [] = Some m"
| "store_all upd m ((k, v) # kvs) =
     (case upd m k v of None \<Rightarrow> None | Some m' \<Rightarrow> store_all upd m' kvs)"

definition hm_update :: "nat \<Rightarrow> 'v hashmap_map \<Rightarrow> string \<Rightarrow> 'v option \<Rightarrow> 'v hashmap_map option" where
  "hm_update lim m k v =
     (case hashmap_put lim m k v of Some (MAP_OK, m') \<Rightarrow> Some m' | _ \<Rightarrow> None)"

definition hm_lookup :: "'v hashmap_map \<Rightarrow> string \<Rightarrow> 'v option option" where
  "hm_lookup m k = (case hashmap_get m k of (MAP_OK, v) \<Rightarrow> Some v | _ \<Rightarrow> None)"

subsection \<open>The invariant and the abstraction\<close>

text \<open>
  Slot \<open>j\<close> holds key \<open>k\<close>. A slot in use is placed when it lies at one of the first eight
  probe positions of its key and every earlier position is in use as well. The map's
  invariant adds that no key is held twice and that the size counts at least the slots
  in use. The abstraction of a map sends a key to the data of the slot that holds it.
\<close>

definition holds_key :: "'v hashmap_element list \<Rightarrow> string \<Rightarrow> nat \<Rightarrow> bool" where
  "holds_key d k j \<longleftrightarrow> in_use (d ! j) \<and> ekey (d ! j) = Some k"

definition probe_pos :: "nat \<Rightarrow> string \<Rightarrow> nat \<Rightarrow> nat" where
  "probe_pos tsize k i = (hashmap_hash_int tsize k + i) mod tsize"

definition slot_placed :: "'v hashmap_element list \<Rightarrow> nat \<Rightarrow> nat \<Rightarrow> bool" where
  "slot_placed d tsize j \<longleftrightarrow>
     (\<exists>k i. ekey (d ! j) = Some k \<and> i < MAX_CHAIN_LENGTH \<and> j = probe_pos tsize k i
          \<and> (\<forall>i' < i. in_use (d ! probe_pos tsize k i')))"

definition hm_inv :: "'v hashmap_map \<Rightarrow> bool" where
  "hm_inv m \<longleftrightarrow>
     length (hdata m) = table_size m \<and> 16 \<le> table_size m \<and> table_size m < 2 ^ 31
   \<and> (\<forall>j < table_size m. in_use (hdata m ! j) \<longrightarrow> slot_placed (hdata m) (table_size m) j)
   \<and> (\<forall>k. \<forall>j < table_size m. \<forall>j' < table_size m.
        holds_key (hdata m) k j \<longrightarrow> holds_key (hdata m) k j' \<longrightarrow> j = j')
   \<and> length (filter in_use (hdata m)) \<le> msize m"

definition hm_alpha :: "'v hashmap_map \<Rightarrow> string \<Rightarrow> 'v option option" where
  "hm_alpha m k =
     map_option (\<lambda>j. edata (hdata m ! j)) (find (holds_key (hdata m) k) [0..<table_size m])"

definition used_pairs :: "'v hashmap_element list \<Rightarrow> (string \<times> 'v option) list" where
  "used_pairs es = map (\<lambda>e. (the (ekey e), edata e)) (filter in_use es)"

subsection \<open>Probing\<close>

lemma probe_path:
  assumes "h < tsize"
  shows "map (\<lambda>i. (h + i) mod tsize) [0..<Suc n]
       = h # map (\<lambda>i. ((h + 1) mod tsize + i) mod tsize) [0..<n]"
proof -
  have "map (\<lambda>i. (h + i) mod tsize) [0..<Suc n]
      = (h + 0) mod tsize # map (\<lambda>i. (h + i) mod tsize) (map Suc [0..<n])"
    by (simp only: upt_conv_Cons[OF zero_less_Suc] map_Suc_upt list.map)
  then show ?thesis
    using assms by (simp add: comp_def mod_add_left_eq)
qed

lemma find_probe_find:
  "h < tsize \<Longrightarrow> find_probe d tsize k h n = find (holds_key d k) (map (\<lambda>i. (h + i) mod tsize) [0..<n])"
proof (induction n arbitrary: h)
  case (Suc n)
  then have "(h + 1) mod tsize < tsize" by simp
  from Suc.IH[OF this] Suc.prems show ?case
    unfolding probe_path[OF Suc.prems] by (simp add: holds_key_def)
qed simp

lemma hash_probe_find:
  "h < tsize \<Longrightarrow> hash_probe d tsize k h n
     = find (\<lambda>j. \<not> in_use (d ! j) \<or> holds_key d k j) (map (\<lambda>i. (h + i) mod tsize) [0..<n])"
proof (induction n arbitrary: h)
  case (Suc n)
  then have "(h + 1) mod tsize < tsize" by simp
  from Suc.IH[OF this] Suc.prems show ?case
    unfolding probe_path[OF Suc.prems] by (simp add: holds_key_def)
qed simp

lemma hash_int_less: "0 < tsize \<Longrightarrow> tsize < 2 ^ 31 \<Longrightarrow> hashmap_hash_int tsize k < tsize"
proof -
  assume t: "0 < tsize" "tsize < 2 ^ 31"
  then have "unat (of_nat tsize :: u64) = tsize"
    by (simp add: unat_of_nat)
  then show ?thesis
    using t by (simp add: hashmap_hash_int_def Let_def unat_mod)
qed

lemma hm_invD:
  assumes "hm_inv m"
  shows "length (hdata m) = table_size m" "16 \<le> table_size m" "table_size m < 2 ^ 31" "0 < table_size m"
    "\<And>k. hashmap_hash_int (table_size m) k < table_size m"
    "\<And>j. j < table_size m \<Longrightarrow> in_use (hdata m ! j) \<Longrightarrow> slot_placed (hdata m) (table_size m) j"
    "\<And>k j j'. j < table_size m \<Longrightarrow> j' < table_size m \<Longrightarrow> holds_key (hdata m) k j
       \<Longrightarrow> holds_key (hdata m) k j' \<Longrightarrow> j = j'"
    "length (filter in_use (hdata m)) \<le> msize m"
  using assms unfolding hm_inv_def by (auto intro: hash_int_less)

lemma probe_pos_less: "0 < tsize \<Longrightarrow> probe_pos tsize k i < tsize"
  by (simp add: probe_pos_def)

lemma hm_alpha_Some_iff:
  assumes "hm_inv m"
  shows "hm_alpha m k = Some v \<longleftrightarrow> (\<exists>j < table_size m. holds_key (hdata m) k j \<and> edata (hdata m ! j) = v)"
proof
  assume "hm_alpha m k = Some v"
  then show "\<exists>j < table_size m. holds_key (hdata m) k j \<and> edata (hdata m ! j) = v"
    by (auto simp: hm_alpha_def find_Some_iff)
next
  assume "\<exists>j < table_size m. holds_key (hdata m) k j \<and> edata (hdata m ! j) = v"
  then obtain j where j: "j < table_size m" "holds_key (hdata m) k j" "edata (hdata m ! j) = v" by blast
  then obtain j' where f: "find (holds_key (hdata m) k) [0..<table_size m] = Some j'"
    by (cases "find (holds_key (hdata m) k) [0..<table_size m]") (auto simp: find_None_iff)
  then have "j' < table_size m" "holds_key (hdata m) k j'"
    by (auto simp: find_Some_iff)
  with j hm_invD(7)[OF assms] have "j' = j" by blast
  with f j show "hm_alpha m k = Some v" by (simp add: hm_alpha_def)
qed

lemma hm_alpha_eqI:
  assumes "hm_inv m"
    and "\<And>k v. (\<exists>j < table_size m. holds_key (hdata m) k j \<and> edata (hdata m ! j) = v)
          \<longleftrightarrow> f k = Some v"
  shows "hm_alpha m = f"
proof
  fix k
  show "hm_alpha m k = f k"
    using assms(2)[of k] hm_alpha_Some_iff[OF assms(1), of k] by (cases "f k"; cases "hm_alpha m k") auto
qed

lemma get_eq_alpha:
  assumes "hm_inv m"
  shows "hashmap_get m k = (case hm_alpha m k of Some v \<Rightarrow> (MAP_OK, v) | None \<Rightarrow> (MAP_MISSING, None))"
proof -
  let ?t = "table_size m" and ?d = "hdata m"
  note inv = hm_invD[OF assms]
  let ?path = "map (\<lambda>i. probe_pos ?t k i) [0..<MAX_CHAIN_LENGTH]"
  have fp: "find_probe ?d ?t k (hashmap_hash_int ?t k) MAX_CHAIN_LENGTH = find (holds_key ?d k) ?path"
    using find_probe_find[OF inv(5)] by (simp add: probe_pos_def)
  show ?thesis
  proof (cases "find (holds_key ?d k) ?path")
    case None
    have "\<not> holds_key ?d k j" if j: "j < ?t" for j
    proof
      assume h: "holds_key ?d k j"
      then have "slot_placed ?d ?t j" using inv(6)[OF j] by (simp add: holds_key_def)
      with h obtain i where "i < MAX_CHAIN_LENGTH" "j = probe_pos ?t k i"
        by (auto simp: slot_placed_def holds_key_def)
      with None h show False by (auto simp: find_None_iff)
    qed
    then have "hm_alpha m k = None"
      by (simp add: hm_alpha_def find_None_iff)
    with None fp show ?thesis by (simp add: hashmap_get_def)
  next
    case (Some j)
    then have "holds_key ?d k j" "j < ?t"
      using probe_pos_less[OF inv(4)] by (auto simp: find_Some_iff)
    then have "hm_alpha m k = Some (edata (?d ! j))"
      using hm_alpha_Some_iff[OF assms] by blast
    with Some fp show ?thesis by (simp add: hashmap_get_def)
  qed
qed

lemma length_filter_update_le:
  "length (filter P (xs[p := x])) \<le> Suc (length (filter P xs))"
proof (cases "p < length xs")
  case True
  have "length (filter P xs) = length (filter P (take p xs @ xs ! p # drop (Suc p) xs))"
    using True by (simp flip: id_take_nth_drop)
  then show ?thesis
    using True by (simp add: upd_conv_take_nth_drop)
qed (simp add: list_update_beyond)

lemma hashmap_hash_SomeD:
  assumes "hm_inv m" "hashmap_hash m k = Some p"
  obtains i where "i < MAX_CHAIN_LENGTH" "p = probe_pos (table_size m) k i" "p < table_size m"
    "\<not> in_use (hdata m ! p) \<or> holds_key (hdata m) k p"
    "\<And>i'. i' < i \<Longrightarrow> in_use (hdata m ! probe_pos (table_size m) k i')
        \<and> \<not> holds_key (hdata m) k (probe_pos (table_size m) k i')"
proof -
  note inv = hm_invD[OF assms(1)]
  have "find (\<lambda>j. \<not> in_use (hdata m ! j) \<or> holds_key (hdata m) k j)
      (map (probe_pos (table_size m) k) [0..<MAX_CHAIN_LENGTH]) = Some p"
    using assms(2) hash_probe_find[OF inv(5), of "hdata m" k k MAX_CHAIN_LENGTH]
    by (auto simp: hashmap_hash_def probe_pos_def[abs_def] split: if_splits)
  then obtain i where "i < MAX_CHAIN_LENGTH" "p = probe_pos (table_size m) k i"
     "\<not> in_use (hdata m ! p) \<or> holds_key (hdata m) k p"
     "\<And>i'. i' < i \<Longrightarrow> \<not> (\<not> in_use (hdata m ! probe_pos (table_size m) k i')
        \<or> holds_key (hdata m) k (probe_pos (table_size m) k i'))"
    by (auto simp: find_Some_iff)
  then show thesis
    using that probe_pos_less[OF inv(4)] by blast
qed

lemma hash_slot_only_holder:
  assumes "hm_inv m" "hashmap_hash m k = Some p" "j < table_size m" "holds_key (hdata m) k j"
  shows "j = p"
proof -
  let ?t = "table_size m" and ?d = "hdata m"
  note inv = hm_invD[OF assms(1)]
  from assms(1,2) obtain i where i: "i < MAX_CHAIN_LENGTH" "p = probe_pos ?t k i" "p < ?t"
    "\<not> in_use (?d ! p) \<or> holds_key ?d k p"
    "\<And>i'. i' < i \<Longrightarrow> in_use (?d ! probe_pos ?t k i') \<and> \<not> holds_key ?d k (probe_pos ?t k i')"
    by (rule hashmap_hash_SomeD) blast
  have "slot_placed ?d ?t j"
    using inv(6) assms(3,4) by (simp add: holds_key_def)
  then obtain i0 where i0: "j = probe_pos ?t k i0" "\<forall>i' < i0. in_use (?d ! probe_pos ?t k i')"
    using assms(4) by (auto simp: slot_placed_def holds_key_def)
  have "\<not> i0 < i" using i(5) i0(1) assms(4) by blast
  show "j = p"
  proof (cases "i < i0")
    case True
    then have "in_use (?d ! p)" using i0(2) i(2) by simp
    with i(4) have "holds_key ?d k p" by simp
    with inv(7)[OF assms(3) i(3) assms(4)] show ?thesis by simp
  next
    case False
    with \<open>\<not> i0 < i\<close> i0(1) i(2) show ?thesis by simp
  qed
qed

lemma holds_key_update:
  assumes "p < length d" "j < length d"
  shows "holds_key (d[p := \<lparr>ekey = Some k, in_use = True, edata = v\<rparr>]) k' j
     \<longleftrightarrow> (if j = p then k' = k else holds_key d k' j)"
  using assms by (auto simp: holds_key_def)

lemma set_slot_simps [simp]:
  "table_size (set_slot m p k v) = table_size m" "msize (set_slot m p k v) = msize m + 1"
  "hdata (set_slot m p k v) = (hdata m)[p := \<lparr>ekey = Some k, in_use = True, edata = v\<rparr>]"
  by (simp_all add: set_slot_def)

lemma slot_placed_mono:
  assumes "slot_placed d tsize j" "d' ! j = d ! j" "\<And>j'. in_use (d ! j') \<Longrightarrow> in_use (d' ! j')"
  shows "slot_placed d' tsize j"
  using assms unfolding slot_placed_def by metis

lemma set_slot_inv:
  assumes "hm_inv m" "hashmap_hash m k = Some p"
  shows "hm_inv (set_slot m p k v)"
proof -
  let ?t = "table_size m" and ?d = "hdata m"
  note inv = hm_invD[OF assms(1)]
  from assms obtain i where i: "i < MAX_CHAIN_LENGTH" "p = probe_pos ?t k i" "p < ?t"
    "\<And>i'. i' < i \<Longrightarrow> in_use (?d ! probe_pos ?t k i') \<and> \<not> holds_key ?d k (probe_pos ?t k i')"
    by (rule hashmap_hash_SomeD) blast
  have len: "p < length ?d" using i(3) inv(1) by simp
  define d' where "d' = ?d[p := \<lparr>ekey = Some k, in_use = True, edata = v\<rparr>]"
  have d'_p: "in_use (d' ! p)" "ekey (d' ! p) = Some k" using len by (simp_all add: d'_def)
  have d'_neq: "d' ! j = ?d ! j" if "j \<noteq> p" for j using that by (simp add: d'_def)
  have mono: "in_use (d' ! j)" if "in_use (?d ! j)" for j
    using that d'_p d'_neq by (cases "j = p") auto
  have placed: "slot_placed d' ?t j" if j: "j < ?t" "in_use (d' ! j)" for j
  proof (cases "j = p")
    case True
    have "\<forall>i' < i. in_use (d' ! probe_pos ?t k i')" using i(4) mono by blast
    with True i d'_p show ?thesis unfolding slot_placed_def by blast
  next
    case False
    then have "slot_placed ?d ?t j" using j inv(6)[of j] by (simp add: d'_neq)
    then show ?thesis by (rule slot_placed_mono) (use False d'_neq mono in auto)
  qed
  have uniq: "j = j'" if "j < ?t" "j' < ?t" "holds_key d' k' j" "holds_key d' k' j'" for j j' k'
  proof -
    have h: "holds_key d' k' x \<longleftrightarrow> (if x = p then k' = k else holds_key ?d k' x)" if "x < ?t" for x
      using that len inv(1) unfolding d'_def by (intro holds_key_update) auto
    have *: "x = p" if "x < ?t" "holds_key ?d k x" for x
      using hash_slot_only_holder[OF assms that] .
    show ?thesis
    proof (cases "k' = k")
      case True
      then show ?thesis using that h[OF that(1)] h[OF that(2)] *[of j] *[of j'] by presburger
    next
      case False
      then have "j \<noteq> p" "j' \<noteq> p" "holds_key ?d k' j" "holds_key ?d k' j'"
        using that h[OF that(1)] h[OF that(2)] by presburger+
      then show ?thesis using inv(7)[OF that(1,2)] by blast
    qed
  qed
  have "length (filter in_use d') \<le> msize m + 1"
    using length_filter_update_le[of in_use ?d p] inv(8) by (fastforce simp: d'_def intro: le_trans)
  moreover have "length d' = ?t" using inv(1) by (simp add: d'_def)
  ultimately show ?thesis
    unfolding hm_inv_def set_slot_simps d'_def[symmetric] using inv(2,3) placed uniq by blast
qed

lemma set_slot_alpha:
  assumes "hm_inv m" "hashmap_hash m k = Some p"
  shows "hm_alpha (set_slot m p k v) = (hm_alpha m)(k \<mapsto> v)"
proof (rule hm_alpha_eqI[OF set_slot_inv[OF assms]])
  fix k' w
  note inv = hm_invD[OF assms(1)]
  have p: "p < table_size m" using assms by (rule hashmap_hash_SomeD) blast
  show "(\<exists>j < table_size (set_slot m p k v). holds_key (hdata (set_slot m p k v)) k' j
            \<and> edata (hdata (set_slot m p k v) ! j) = w) = (((hm_alpha m)(k \<mapsto> v)) k' = Some w)"
  proof (cases "k' = k")
    case True
    have "holds_key (hdata (set_slot m p k v)) k j \<longleftrightarrow> j = p" if "j < table_size m" for j
      using that p inv(1) hash_slot_only_holder[OF assms that] by (auto simp: holds_key_update)
    with True p inv(1) show ?thesis by auto
  next
    case False
    have np: "\<not> holds_key (hdata m) k' p"
      using assms by (rule hashmap_hash_SomeD) (use False in \<open>auto simp: holds_key_def\<close>)
    have "(holds_key (hdata (set_slot m p k v)) k' j \<and> edata (hdata (set_slot m p k v) ! j) = w)
       \<longleftrightarrow> holds_key (hdata m) k' j \<and> edata (hdata m ! j) = w" if "j < table_size m" for j
      using that p inv(1) False np by (auto simp: holds_key_update)
    with False show ?thesis
      using hm_alpha_Some_iff[OF assms(1), of k' w] by auto
  qed
qed

lemma used_pairs_simps [simp]:
  "used_pairs [] = []"
  "used_pairs (e # es) = (if in_use e then (the (ekey e), edata e) # used_pairs es else used_pairs es)"
  by (simp_all add: used_pairs_def)

lemma used_pairs_holds:
  assumes "hm_inv m"
  shows "(k, v) \<in> set (used_pairs (hdata m))
     \<longleftrightarrow> (\<exists>j < table_size m. holds_key (hdata m) k j \<and> edata (hdata m ! j) = v)"
proof -
  note inv = hm_invD[OF assms]
  have key: "the (ekey (hdata m ! j)) = k \<longleftrightarrow> ekey (hdata m ! j) = Some k"
    if "j < table_size m" "in_use (hdata m ! j)" for j
    using inv(6)[OF that] by (auto simp: slot_placed_def)
  have "(k, v) \<in> set (used_pairs (hdata m)) \<longleftrightarrow>
    (\<exists>e \<in> set (hdata m). in_use e \<and> the (ekey e) = k \<and> edata e = v)"
    by (auto simp: used_pairs_def)
  also have "\<dots> \<longleftrightarrow> (\<exists>j < table_size m. in_use (hdata m ! j) \<and> the (ekey (hdata m ! j)) = k
      \<and> edata (hdata m ! j) = v)"
    unfolding set_conv_nth inv(1) by blast
  also have "\<dots> \<longleftrightarrow> (\<exists>j < table_size m. holds_key (hdata m) k j \<and> edata (hdata m ! j) = v)"
    unfolding holds_key_def using key by blast
  finally show ?thesis .
qed

lemma map_of_rev_used_pairs:
  assumes "hm_inv m"
  shows "map_of (rev (used_pairs (hdata m))) = hm_alpha m"
proof
  fix k
  let ?f = "map_of (rev (used_pairs (hdata m)))"
  have 1: "hm_alpha m k = Some v" if "?f k = Some v" for v
    using map_of_SomeD[OF that] used_pairs_holds[OF assms] hm_alpha_Some_iff[OF assms] by auto
  show "?f k = hm_alpha m k"
  proof (cases "?f k")
    case None
    then have "k \<notin> fst ` set (used_pairs (hdata m))"
      by (simp add: map_of_eq_None_iff)
    then have "hm_alpha m k \<noteq> Some v" for v
      using used_pairs_holds[OF assms] hm_alpha_Some_iff[OF assms] by force
    with None show ?thesis by (cases "hm_alpha m k") auto
  qed (simp add: 1)
qed

lemma fresh_map_inv:
  assumes "16 \<le> n" "n < 2 ^ 31"
  shows "hm_inv \<lparr>table_size = n, msize = 0, hdata = replicate n free_element\<rparr>"
    and "hm_alpha \<lparr>table_size = n, msize = 0, hdata = replicate n free_element\<rparr> = Map.empty"
proof -
  show "hm_inv \<lparr>table_size = n, msize = 0, hdata = replicate n free_element\<rparr>"
    using assms by (auto simp: hm_inv_def free_element_def holds_key_def filter_empty_conv)
  then show "hm_alpha \<lparr>table_size = n, msize = 0, hdata = replicate n free_element\<rparr> = Map.empty"
    by (rule hm_alpha_eqI) (auto simp: holds_key_def free_element_def)
qed

lemma put_rehash_reinsert:
  fixes m :: "'v hashmap_map" and es :: "'v hashmap_element list"
  shows "hm_inv m \<Longrightarrow> put_fuel n lim m k v = Some (s, m') \<Longrightarrow>
      hm_inv m' \<and> table_size m \<le> table_size m'
    \<and> (s = MAP_OK \<and> hm_alpha m' = (hm_alpha m)(k \<mapsto> v) \<or> s = MAP_OMEM)"
    and "hm_inv m \<Longrightarrow> rehash_fuel n lim m = Some (s, m') \<Longrightarrow>
      hm_inv m' \<and> table_size m \<le> table_size m'
    \<and> (s = MAP_OK \<and> 2 * table_size m \<le> table_size m' \<and> hm_alpha m' = hm_alpha m \<or> s = MAP_OMEM)"
    and "hm_inv m \<Longrightarrow> reinsert n lim m es = Some (s, m') \<Longrightarrow>
      hm_inv m' \<and> table_size m \<le> table_size m'
    \<and> (s = MAP_OK \<and> hm_alpha m' = hm_alpha m ++ map_of (rev (used_pairs es)) \<or> s = MAP_OMEM)"
proof (induction n lim m k v and n lim m and n lim m es arbitrary: s m' and s m' and s m'
    rule: put_fuel_rehash_fuel_reinsert.induct)
  case (2 n lim m k v)
  show ?case
  proof (cases "hashmap_hash m k")
    case (Some p)
    with 2 show ?thesis by (auto simp: set_slot_inv set_slot_alpha)
  next
    case None
    with "2.prems" obtain s1 m1 where r: "rehash_fuel n lim m = Some (s1, m1)"
      by (auto split: option.splits prod.splits)
    note i1 = "2.IH"(1)[OF None "2.prems"(1) r]
    show ?thesis
    proof (cases "s1 = MAP_OMEM")
      case True
      with None r i1 "2.prems" show ?thesis by auto
    next
      case False
      then have p: "put_fuel n lim m1 k v = Some (s, m')"
        using None r "2.prems" by simp
      from i1 "2.IH"(2)[OF None r refl False _ p] False show ?thesis by auto
    qed
  qed
next
  case (3 n lim m)
  note inv = hm_invD[OF "3.prems"(1)]
  show ?case
  proof (cases "2 * table_size m \<le> lim \<and> 2 * table_size m < 2 ^ 31")
    case True
    let ?m0 = "\<lparr>table_size = 2 * table_size m, msize = 0, hdata = replicate (2 * table_size m) free_element\<rparr> :: 'v hashmap_map"
    have c: "calloc_elements lim (2 * table_size m)
        = Some (replicate (2 * table_size m) free_element :: 'v hashmap_element list)"
      using True by (simp add: calloc_elements_def)
    have r: "reinsert n lim ?m0 (hdata m) = Some (s, m')"
      using "3.prems"(2) c by simp
    have i0: "hm_inv ?m0" and a0: "hm_alpha ?m0 = Map.empty"
      using fresh_map_inv[of "2 * table_size m"] inv(2) True by simp_all
    from "3.IH"[OF c i0 r] show ?thesis
      by (auto simp: a0 map_of_rev_used_pairs[OF "3.prems"(1)])
  next
    case False
    with "3.prems" show ?thesis by (auto simp: calloc_elements_def)
  qed
next
  case (5 n lim m e es)
  show ?case
  proof (cases "in_use e")
    case False
    with 5 show ?thesis by auto
  next
    case True
    with "5.prems" obtain s1 m1 where p: "put_fuel n lim m (the (ekey e)) (edata e) = Some (s1, m1)"
      by (auto split: option.splits prod.splits)
    have nn: "\<not> \<not> in_use e" using True by simp
    note i1 = "5.IH"(2)[OF nn "5.prems"(1) p]
    show ?thesis
    proof (cases "s1 = MAP_OK")
      case False
      with True p i1 "5.prems" show ?thesis by auto
    next
      case ok: True
      then have r: "reinsert n lim m1 es = Some (s, m')"
        using True p "5.prems" by simp
      have "hm_alpha m ++ map_of (rev (used_pairs (e # es)))
          = (hm_alpha m)(the (ekey e) \<mapsto> edata e) ++ map_of (rev (used_pairs es))"
        using True by simp
      moreover have "hm_inv m1" "table_size m \<le> table_size m1"
        "hm_alpha m1 = (hm_alpha m)(the (ekey e) \<mapsto> edata e)"
        using i1 ok by (simp_all add: fun_upd_def)
      moreover from this(1) have "hm_inv m' \<and> table_size m1 \<le> table_size m'
         \<and> (s = MAP_OK \<and> hm_alpha m' = hm_alpha m1 ++ map_of (rev (used_pairs es)) \<or> s = MAP_OMEM)"
        using "5.IH"(3)[OF nn p refl _ _ r] ok by blast
      ultimately show ?thesis by (metis le_trans)
    qed
  qed
qed auto

lemma doubling_fuel:
  fixes t lim t' n :: nat
  assumes "2 * t \<le> lim" "lim < t * 2 ^ n"
  shows "0 < n" and "2 * t \<le> t' \<Longrightarrow> lim < t' * 2 ^ (n - 1)"
proof -
  show n: "0 < n" using assms by (cases n) auto
  assume "2 * t \<le> t'"
  then have "2 * t * 2 ^ (n - 1) \<le> t' * 2 ^ (n - 1)" by (rule mult_right_mono) simp
  moreover have "2 * t * 2 ^ (n - 1) = t * 2 ^ n"
    using n by (cases n) auto
  ultimately show "lim < t' * 2 ^ (n - 1)" using assms(2) by linarith
qed

lemma rehash_ok_bound:
  assumes "rehash_fuel n lim m = Some (s, m')" "s \<noteq> MAP_OMEM"
  shows "2 * table_size m \<le> lim"
  using assms by (auto simp: calloc_elements_def split: if_splits)

lemma put_fuel_returns:
  fixes m :: "'v hashmap_map" and es :: "'v hashmap_element list"
  shows "hm_inv m \<Longrightarrow> lim < table_size m * 2 ^ (n - 1) \<Longrightarrow> 0 < n \<Longrightarrow> put_fuel n lim m k v \<noteq> None"
    and "hm_inv m \<Longrightarrow> lim < table_size m * 2 ^ n \<Longrightarrow> rehash_fuel n lim m \<noteq> None"
    and "hm_inv m \<Longrightarrow> lim < table_size m * 2 ^ (n - 1) \<Longrightarrow> 0 < n \<Longrightarrow> reinsert n lim m es \<noteq> None"
proof (induction n lim m k v and n lim m and n lim m es
    rule: put_fuel_rehash_fuel_reinsert.induct)
  case (2 n lim m k v)
  show ?case
  proof (cases "hashmap_hash m k")
    case None
    from "2.prems"(2) have lim: "lim < table_size m * 2 ^ n" by simp
    from "2.IH"(1)[OF None "2.prems"(1) lim] obtain s1 m1
      where r: "rehash_fuel n lim m = Some (s1, m1)" by auto
    note i1 = put_rehash_reinsert(2)[OF "2.prems"(1) r]
    show ?thesis
    proof (cases "s1 = MAP_OMEM")
      case False
      with i1 have m1: "hm_inv m1" "2 * table_size m \<le> table_size m1" by auto
      note d = doubling_fuel[OF rehash_ok_bound[OF r False] lim]
      have "put_fuel n lim m1 k v \<noteq> None"
        by (rule "2.IH"(2)[OF None r refl False m1(1) d(2)[OF m1(2)] d(1)])
      with None r False show ?thesis by simp
    qed (use None r in simp)
  qed simp
next
  case (3 n lim m)
  show ?case
  proof (cases "2 * table_size m \<le> lim \<and> 2 * table_size m < 2 ^ 31")
    case True
    let ?m0 = "\<lparr>table_size = 2 * table_size m, msize = 0, hdata = replicate (2 * table_size m) free_element\<rparr> :: 'v hashmap_map"
    have c: "calloc_elements lim (2 * table_size m)
        = Some (replicate (2 * table_size m) free_element :: 'v hashmap_element list)"
      using True by (simp add: calloc_elements_def)
    have i0: "hm_inv ?m0"
      using fresh_map_inv[of "2 * table_size m"] hm_invD(2)[OF "3.prems"(1)] True by simp
    note d = doubling_fuel[OF conjunct1[OF True] "3.prems"(2)]
    have "reinsert n lim ?m0 (hdata m) \<noteq> None"
      using "3.IH"[OF c i0] d(1) d(2)[of "2 * table_size m"] by simp
    with c show ?thesis by simp
  qed (auto simp: calloc_elements_def)
next
  case (5 n lim m e es)
  show ?case
  proof (cases "in_use e")
    case True
    then have nn: "\<not> \<not> in_use e" by simp
    from "5.IH"(2)[OF nn "5.prems"] obtain s1 m1
      where p: "put_fuel n lim m (the (ekey e)) (edata e) = Some (s1, m1)" by auto
    note i1 = put_rehash_reinsert(1)[OF "5.prems"(1) p]
    show ?thesis
    proof (cases "s1 = MAP_OK")
      case ok: True
      have "lim < table_size m1 * 2 ^ (n - 1)"
        using i1 "5.prems"(2) by (meson less_le_trans mult_le_mono1)
      then have "reinsert n lim m1 es \<noteq> None"
        using "5.IH"(3)[OF nn p refl] ok i1 "5.prems"(3) by auto
      with True p ok show ?thesis by simp
    qed (use True p in simp)
  qed (use 5 in simp)
qed auto

lemma hashmap_put_cases:
  assumes "hm_inv m"
  obtains m' where "hashmap_put lim m k v = Some (MAP_OK, m')" "hm_inv m'"
      "hm_alpha m' = (hm_alpha m)(k \<mapsto> v)"
    | m' where "hashmap_put lim m k v = Some (MAP_OMEM, m')" "hm_inv m'"
proof -
  have "lim < table_size m * 2 ^ (Suc lim - 1)"
    using hm_invD(2)[OF assms] less_exp[of lim]
    by (metis diff_Suc_1 hm_invD(4)[OF assms] less_le_trans mult_le_mono1 nat_mult_1 Suc_leI One_nat_def)
  then obtain s m' where p: "hashmap_put lim m k v = Some (s, m')"
    using put_fuel_returns(1)[OF assms, of lim "Suc lim" k v] by (auto simp: hashmap_put_def)
  from put_rehash_reinsert(1)[OF assms p[unfolded hashmap_put_def]] p that show thesis by blast
qed

lemma hm_lookup_eq_alpha: "hm_inv m \<Longrightarrow> hm_lookup m = hm_alpha m"
  by (rule ext) (auto simp: hm_lookup_def get_eq_alpha split: option.splits)

subsection \<open>The store interface\<close>

text \<open>What a client of the map relies on when it only stores and looks up.\<close>

lemma store_all_append:
  "store_all upd m (xs @ ys) = (case store_all upd m xs of None \<Rightarrow> None | Some m' \<Rightarrow> store_all upd m' ys)"
  by (induction xs arbitrary: m) (auto split: option.splits)

locale string_store =
  fixes inv :: "'m \<Rightarrow> bool"
    and upd :: "'m \<Rightarrow> string \<Rightarrow> 'v option \<Rightarrow> 'm option"
    and look :: "'m \<Rightarrow> string \<Rightarrow> 'v option option"
  assumes upd_inv: "inv m \<Longrightarrow> upd m k v = Some m' \<Longrightarrow> inv m'"
    and upd_look: "inv m \<Longrightarrow> upd m k v = Some m' \<Longrightarrow> look m' = (look m)(k \<mapsto> v)"
begin

lemma look_same: "inv m \<Longrightarrow> upd m k v = Some m' \<Longrightarrow> look m' k = Some v"
  by (simp add: upd_look)

lemma look_other: "inv m \<Longrightarrow> upd m k v = Some m' \<Longrightarrow> k' \<noteq> k \<Longrightarrow> look m' k' = look m k'"
  by (simp add: upd_look)

lemma store_all_inv_look:
  "inv m \<Longrightarrow> store_all upd m kvs = Some m' \<Longrightarrow> inv m' \<and> look m' = look m ++ map_of (rev kvs)"
proof (induction kvs arbitrary: m)
  case (Cons kv kvs)
  obtain k v where kv: "kv = (k, v)" by fastforce
  with Cons.prems obtain m1 where m1: "upd m k v = Some m1" "store_all upd m1 kvs = Some m'"
    by (auto split: option.splits)
  have "look m ++ map_of (rev (kv # kvs)) = (look m)(k \<mapsto> v) ++ map_of (rev kvs)"
    by (simp add: kv)
  then show ?case
    using Cons.IH[OF upd_inv[OF Cons.prems(1) m1(1)] m1(2)]
    unfolding upd_look[OF Cons.prems(1) m1(1)] by metis
qed simp

end

lemma hm_update_SomeD:
  assumes "hm_inv m" "hm_update lim m k v = Some m'"
  shows "hm_inv m'" and "hm_alpha m' = (hm_alpha m)(k \<mapsto> v)"
  using assms(2) hashmap_put_cases[OF assms(1), of lim k v]
  by (auto simp: hm_update_def fun_upd_def split: option.splits prod.splits map_status.splits)

interpretation hm: string_store hm_inv "hm_update lim" hm_lookup for lim
  by unfold_locales (auto simp: hm_update_SomeD hm_lookup_eq_alpha)

lemma hashmap_new_inv:
  assumes "hashmap_new lim = Some m"
  shows "hm_inv m" and "hm_alpha m = Map.empty"
  using assms fresh_map_inv[of 16]
  by (auto simp: hashmap_new_def calloc_elements_def INITIAL_SIZE_def split: if_splits)

subsection \<open>Traversal\<close>

lemma iterate_slots_fold:
  assumes "\<And>s k v. fst (f s k v) = MAP_OK"
  shows "iterate_slots f item es
       = (MAP_OK, fold (\<lambda>e s. snd (f s (ekey e) (edata e))) (filter in_use es) item)"
proof (induction es arbitrary: item)
  case (Cons e es)
  obtain s where "f item (ekey e) (edata e) = (MAP_OK, s)"
    using assms by (metis prod.collapse)
  then show ?case
    using Cons.IH by simp
qed simp

lemma hm_size_zero:
  assumes "hm_inv m" "msize m = 0"
  shows "hm_alpha m = Map.empty"
proof (rule ext)
  fix k
  have "\<not> holds_key (hdata m) k j" if "j < table_size m" for j
    using hm_invD(1,8)[OF assms(1)] assms(2) that
    by (auto simp: holds_key_def filter_empty_conv)
  then show "hm_alpha m k = None" by (simp add: hm_alpha_def find_None_iff)
qed

lemma get_after_store_all:
  assumes "hashmap_new lim = Some m0" and "store_all (hm_update lim) m0 kvs = Some m"
  shows "hashmap_get m k =
    (case map_of (rev kvs) k of Some v \<Rightarrow> (MAP_OK, v) | None \<Rightarrow> (MAP_MISSING, None))"
proof -
  have "hm_inv m" "hm_lookup m = map_of (rev kvs)"
    using hm.store_all_inv_look[OF hashmap_new_inv(1)[OF assms(1)] assms(2)]
      hashmap_new_inv[OF assms(1)] by (simp_all add: hm_lookup_eq_alpha)
  then show ?thesis by (simp add: get_eq_alpha hm_lookup_eq_alpha)
qed

subsection \<open>Evaluation of concrete maps\<close>

declare put_fuel.simps [simp del] rehash_fuel.simps [simp del]

lemma probe_numeral:
  "hash_probe d t k c (numeral w) =
     (if \<not> in_use (d ! c) then Some c
      else if in_use (d ! c) \<and> ekey (d ! c) = Some k then Some c
      else hash_probe d t k ((c + 1) mod t) (pred_numeral w))"
  "find_probe d t k c (numeral w) =
     (if in_use (d ! c) \<and> ekey (d ! c) = Some k then Some c
      else find_probe d t k ((c + 1) mod t) (pred_numeral w))"
  by (simp_all add: numeral_eq_Suc)

lemma hashmap_put_unfold:
  "hashmap_put lim m k v =
     (case hashmap_hash m k of
        Some p \<Rightarrow> Some (MAP_OK, set_slot m p k v)
      | None \<Rightarrow>
          (case rehash_fuel lim lim m of
             None \<Rightarrow> None
           | Some (status, m') \<Rightarrow>
               if status = MAP_OMEM then Some (MAP_OMEM, m') else put_fuel lim lim m' k v))"
  by (simp add: hashmap_put_def put_fuel.simps)

lemma hash_i_n:
  "hashmap_hash_int 16 ''i'' = 2" "hashmap_hash_int 16 ''n'' = 2"
  by code_simp+

lemmas hm_eval = hash_i_n probe_numeral hashmap_put_unfold hashmap_hash_def hashmap_new_def
  calloc_elements_def free_element_def INITIAL_SIZE_def MAX_CHAIN_LENGTH_def

subsection \<open>Properties\<close>

text \<open>
  C1. The hash map implements a finite map: after any successful sequence of stores into a
  fresh map, a lookup returns the value stored last for its key, and MAP_MISSING for a key
  never stored, however often the table was rehashed on the way.
\<close>

theorem hashmap_refines_map:
  assumes "hashmap_new lim = Some m0" and "store_all (hm_update lim) m0 kvs = Some m"
  shows "hashmap_get m k =
    (case map_of (rev kvs) k of Some v \<Rightarrow> (MAP_OK, v) | None \<Rightarrow> (MAP_MISSING, None))"
  by (rule get_after_store_all[OF assms])

theorem hashmap_refines_map_witness:
  "\<exists>m0 m. hashmap_new 64 = Some m0
     \<and> store_all (hm_update 64) m0 [(''i'', Some (1::nat)), (''n'', Some 2), (''i'', Some 3)] = Some m
     \<and> hashmap_get m ''i'' = (MAP_OK, Some 3)"
proof -
  obtain m0 :: "nat hashmap_map" where m0: "hashmap_new 64 = Some m0"
    by (simp add: hm_eval)
  have "store_all (hm_update 64) (the (hashmap_new 64))
      [(''i'', Some (1::nat)), (''n'', Some 2), (''i'', Some 3)] \<noteq> None"
    by (simp add: hm_eval hm_update_def)
  then obtain m where m: "store_all (hm_update 64) m0
      [(''i'', Some (1::nat)), (''n'', Some 2), (''i'', Some 3)] = Some m"
    using m0 by auto
  have "hashmap_get m ''i'' = (MAP_OK, Some 3)"
    using hashmap_refines_map[OF m0 m, of "''i''"] by simp
  with m0 m show ?thesis by blast
qed

text \<open>
  C27. A put always returns, whatever the keys: the mutual recursion of put and rehash ends
  after at most as many doublings as memory allows, with MAP_OK and the key bound, every
  other key as before, or with MAP_OMEM; either way the invariant holds.
\<close>

theorem hashmap_put_total:
  assumes "hm_inv m"
  shows "\<exists>s m'. hashmap_put lim m k v = Some (s, m') \<and> hm_inv m'
     \<and> (s = MAP_OK \<and> hashmap_get m' k = (MAP_OK, v)
          \<and> (\<forall>k'. k' \<noteq> k \<longrightarrow> hashmap_get m' k' = hashmap_get m k')
        \<or> s = MAP_OMEM)"
  by (rule hashmap_put_cases[OF assms, of lim k v]) (auto simp: get_eq_alpha assms fun_upd_def)

theorem hashmap_put_total_witness:
  "\<exists>m :: nat hashmap_map. hashmap_new 16 = Some m \<and> hm_inv m
     \<and> (\<exists>s m'. hashmap_put 16 m ''i'' (Some 7) = Some (s, m'))"
proof -
  obtain m :: "nat hashmap_map" where m: "hashmap_new 16 = Some m"
    by (simp add: hm_eval)
  then have inv: "hm_inv m" by (rule hashmap_new_inv)
  show ?thesis using m inv hashmap_put_total[OF inv, of 16 "''i''" "Some 7"] by blast
qed


text \<open>
  The size of a map counts puts, not keys: storing the same key twice gives length 2
  although the map holds one key, and the table grows although it is almost empty.
\<close>

theorem hashmap_length_overcounts:
  "\<exists>m1 m2 m3 :: nat hashmap_map.
     hashmap_new 64 = Some m1
   \<and> hashmap_put 64 m1 ''i'' (Some 1) = Some (MAP_OK, m2)
   \<and> hashmap_put 64 m2 ''i'' (Some 2) = Some (MAP_OK, m3)
   \<and> hashmap_length (Some m3) = 2 \<and> length (filter in_use (hdata m3)) = 1"
proof -
  have "length (filter in_use ((replicate 16 free_element)[2 := e])) = 1"
    if "in_use e" for e :: "nat hashmap_element"
    using that by (simp add: eval_nat_numeral free_element_def)
  then show ?thesis
    by (simp add: hm_eval hashmap_length_def)
qed

text \<open>
  The traversal calls the callback once for every slot in use, in slot order, passing
  key and data, as long as the callback answers MAP_OK; on a map of size zero it reports
  MAP_MISSING and calls nothing, and such a map is empty.
\<close>

theorem hashmap_foreach_visits:
  assumes "hm_inv m" and "\<forall>s k v. fst (f s k v) = MAP_OK"
  shows "hashmap_foreach m f item =
     (if msize m = 0 then (MAP_MISSING, item)
      else (MAP_OK, fold (\<lambda>e s. snd (f s (ekey e) (edata e))) (filter in_use (hdata m)) item))
    \<and> (msize m = 0 \<longrightarrow> hm_alpha m = Map.empty)"
  using hm_size_zero[OF assms(1)] assms(2)
  by (simp add: hashmap_foreach_def hashmap_length_def iterate_slots_fold)

theorem hashmap_foreach_visits_witness:
  "\<exists>m0 m :: nat hashmap_map. hashmap_new 64 = Some m0 \<and> hashmap_put 64 m0 ''i'' (Some 7) = Some (MAP_OK, m)
     \<and> fst (hashmap_foreach m (\<lambda>s k v. (MAP_OK, (k, v) # s)) []) = MAP_OK"
proof -
  obtain m0 :: "nat hashmap_map" where m0: "hashmap_new 64 = Some m0"
    by (simp add: hm_eval)
  have "\<exists>m. hashmap_put 64 (the (hashmap_new 64)) ''i'' (Some (7::nat)) = Some (MAP_OK, m) \<and> msize m \<noteq> 0"
    by (simp add: hm_eval)
  then obtain m where m: "hashmap_put 64 m0 ''i'' (Some 7) = Some (MAP_OK, m)" "msize m \<noteq> 0"
    using m0 by auto
  have "hm_inv m"
    by (rule hashmap_put_cases[OF hashmap_new_inv(1)[OF m0], of 64 "''i''" "Some 7"]) (use m in auto)
  with m0 m hashmap_foreach_visits[of m "\<lambda>s k v. (MAP_OK, (k, v) # s)" "[]"] show ?thesis
    by auto
qed

end
