(* ===== verification/Domainlist.thy ===== *)
theory Domainlist
  imports Hashmap C_Stdlib
begin

text \<open>
  The list of known domains of the DNS plugin (\<^verbatim>\<open>src/src/dnscrypt-plugin/domainlist.c\<close>):
  loading all files of a directory into the hash map, and cutting the registered domain
  out of a query.

  The directory is the list of its entry names in the order of readdir, the files are a
  function from paths to contents (\<open>None\<close> where fopen fails). The loop over the files may
  run forever, so it is a partial function: \<open>None\<close> means that it does not return.
\<close>

definition MAX_QUERY :: nat where "MAX_QUERY = 512"
definition MAX_DOMAIN :: nat where "MAX_DOMAIN = 256"
definition MAX_TLD :: nat where "MAX_TLD = 32"
definition MAX_LINE :: nat where "MAX_LINE = 512"

subsection \<open>Trimming\<close>

definition rstrip :: "string \<Rightarrow> string" where
  "rstrip s = rev (dropWhile isspace (rev s))"

text \<open>The size returned and the new contents of the output buffer.\<close>

definition trim :: "string \<Rightarrow> nat \<Rightarrow> string \<Rightarrow> nat \<times> string" where
  "trim out len str =
     (if len = 0 then (0, out)
      else let s = dropWhile isspace str
           in if s = [] then (1, [])
              else let t = rstrip s; out_size = (if length t < len - 1 then length t else len - 1)
                   in (out_size, take out_size t))"

subsection \<open>Loading\<close>

type_synonym domain_map = "string hashmap_map"

text \<open>
  The lines of one file: the buffer \<open>trimmed\<close> keeps its contents from line to line. The
  status of a put is ignored.
\<close>

function load_lines :: "nat \<Rightarrow> string \<Rightarrow> char list \<Rightarrow> string \<Rightarrow> domain_map \<Rightarrow> string \<times> domain_map" where
  "load_lines lim d_name s trimmed m =
     (case fgets MAX_LINE s of
        None \<Rightarrow> (trimmed, m)
      | Some (buf, r) \<Rightarrow>
          let line = cstr buf in
          if take 1 line = ''#'' then load_lines lim d_name r trimmed m
          else let (_, trimmed') = trim trimmed (length line) line
               in if trimmed' = [] then load_lines lim d_name r trimmed' m
                  else load_lines lim d_name r trimmed'
                         (case hashmap_put lim m trimmed' (Some d_name) of
                            Some (_, m') \<Rightarrow> m' | None \<Rightarrow> m))"
  by pat_completeness auto
termination
  by (relation "measure (\<lambda>(lim, d_name, s, trimmed, m). length s)")
    (auto simp: MAX_LINE_def dest: fgets_shorter)

declare load_lines.simps [simp del]

text \<open>A file that cannot be opened is tried again: the next entry is never read.\<close>

partial_function (option) load_dir ::
  "nat \<Rightarrow> (string \<Rightarrow> char list option) \<Rightarrow> string \<Rightarrow> string list \<Rightarrow> string \<Rightarrow> domain_map \<Rightarrow> domain_map option" where
  "load_dir lim files listpath dps trimmed m =
     (case dps of
        [] \<Rightarrow> Some m
      | dp # rest \<Rightarrow>
          (case files (take (MAX_LINE - 1) (listpath @ ''/'' @ dp)) of
             None \<Rightarrow> load_dir lim files listpath dps trimmed m
           | Some content \<Rightarrow>
               load_dir lim files listpath rest
                 (fst (load_lines lim dp content trimmed m)) (snd (load_lines lim dp content trimmed m))))"

datatype domain_load = Directory_missing | Out_of_memory | Domains domain_map

definition load_domainlist :: "nat \<Rightarrow> (string \<Rightarrow> char list option) \<Rightarrow> (string \<Rightarrow> string list option)
      \<Rightarrow> string \<Rightarrow> string \<Rightarrow> domain_load option" where
  "load_domainlist lim files dirs garbage listpath =
     (case hashmap_new lim of
        None \<Rightarrow> Some Out_of_memory
      | Some m \<Rightarrow>
          (case dirs listpath of
             None \<Rightarrow> Some Directory_missing
           | Some dps \<Rightarrow> map_option Domains (load_dir lim files listpath dps garbage m)))"

text \<open>Releasing the list: every value is freed, then the table.\<close>

definition free_domainlist :: "domain_map option \<Rightarrow> unit option" where
  "free_domainlist mo =
     (case mo of
        None \<Rightarrow> hashmap_free (None :: domain_map option)
      | Some m \<Rightarrow>
          let (status, freed) = hashmap_iterate m (\<lambda>fs v. (MAP_OK, v # fs)) []
          in hashmap_free (Some m))"

subsection \<open>The registered domain of a query\<close>

text \<open>
  strtok with the delimiter \<^verbatim>\<open>.\<close>: the first token, \<open>None\<close> if there are only dots. It also
  writes a NUL behind the token, at a place to the right of the scan where a dot is read
  only as the end of a token.
\<close>

definition strtok_dot :: "string \<Rightarrow> string option" where
  "strtok_dot s =
     (let t = takeWhile (\<lambda>c. c \<noteq> CHR ''.'') (dropWhile (\<lambda>c. c = CHR ''.'') s)
      in if t = [] then None else Some t)"

text \<open>
  The loop from the end of the address down to its start, for the \<open>c\<close> characters that are
  left: the index where the domain starts. \<open>None\<close> is a null dereference: strlen of a
  missing token.
\<close>

fun domain_scan :: "string \<Rightarrow> nat \<Rightarrow> nat \<Rightarrow> nat \<Rightarrow> nat option" where
  "domain_scan q 0 dots positions = Some 0"
| "domain_scan q (Suc c) dots positions =
     (let dots' = (if c < length q \<and> q ! c = CHR ''.'' then dots + 1 else dots)
      in if dots' \<ge> positions then
           (case strtok_dot (drop (c + 1) q) of
              None \<Rightarrow> None
            | Some test \<Rightarrow> if length test > 3 then Some (c + 1)
                           else domain_scan q c dots' (positions + 1))
         else domain_scan q c dots' positions)"

text \<open>
  The result: no domain for a query of less than three characters, the domain, or
  undefined behaviour (a write past the end of the domain buffer, or the null token). The
  second component is the new top level domain, from the last dot on, if there is a dot.
\<close>

datatype extracted = No_domain | Domain string | Domain_fault

definition extract_domain :: "string \<Rightarrow> extracted" where
  "extract_domain query =
     (let len = length query
      in if len < 3 then No_domain
         else if len + 1 \<ge> MAX_DOMAIN then Domain_fault
         else (case domain_scan query (len + 1) 0 2 of
                 None \<Rightarrow> Domain_fault
               | Some i \<Rightarrow> Domain (drop i query)))"

definition extract_tld :: "string \<Rightarrow> string option" where
  "extract_tld query =
     (if length query < 3 \<or> CHR ''.'' \<notin> set query then None
      else Some (CHR ''.'' # rev (takeWhile (\<lambda>c. c \<noteq> CHR ''.'') (rev query))))"

subsection \<open>Reference definitions\<close>

text \<open>
  What the files say: every line that is no comment and not blank, without the white space
  around it, belongs to the file it stands in.
\<close>

fun text_lines :: "string list \<Rightarrow> char list" where
  "text_lines [] = []"
| "text_lines (l # ls) = l @ CHR 0x0A # text_lines ls"

definition strip :: "string \<Rightarrow> string" where
  "strip l = rstrip (dropWhile isspace l)"

definition plain_line :: "string \<Rightarrow> bool" where
  "plain_line l \<longleftrightarrow> length l + 1 < MAX_LINE \<and> CHR 0x0A \<notin> set l \<and> CHR 0x00 \<notin> set l"

definition listed :: "string list \<Rightarrow> string list" where
  "listed ls = filter (\<lambda>l. l \<noteq> []) (map strip (filter (\<lambda>l. take 1 l \<noteq> ''#'') ls))"

definition domain_pairs :: "(string \<times> string list) list \<Rightarrow> (string \<times> string option) list" where
  "domain_pairs fs = concat (map (\<lambda>(f, ls). map (\<lambda>l. (l, Some f)) (listed ls)) fs)"

text \<open>
  The labels of the domain, from the last one on: the top level, then labels up to and
  including the first that is longer than three characters.
\<close>

fun join_dots :: "string list \<Rightarrow> string" where
  "join_dots [] = []"
| "join_dots [l] = l"
| "join_dots (l # ls) = l @ CHR ''.'' # join_dots ls"

fun take_short :: "string list \<Rightarrow> string list" where
  "take_short [] = []"
| "take_short (l # ls) = (if length l > 3 then [l] else l # take_short ls)"

definition registered :: "string list \<Rightarrow> string list" where
  "registered ls = (case rev ls of [] \<Rightarrow> [] | t # ts \<Rightarrow> rev (t # take_short ts))"

definition label_ok :: "string \<Rightarrow> bool" where
  "label_ok l \<longleftrightarrow> l \<noteq> [] \<and> CHR ''.'' \<notin> set l"

subsection \<open>Loading and extracting\<close>

lemma load_dir_openable:
  assumes "load_dir lim files listpath dps trimmed m = Some m'"
  shows "\<forall>dp \<in> set dps. files (take (MAX_LINE - 1) (listpath @ ''/'' @ dp)) \<noteq> None"
  by (rule load_dir.raw_induct[of "\<lambda>lim files listpath dps trimmed m r.
        \<forall>dp \<in> set dps. files (take (MAX_LINE - 1) (listpath @ ''/'' @ dp)) \<noteq> None", OF _ assms])
    (fastforce simp del: take_append split: list.splits option.splits)

lemma rstrip_space: "isspace c \<Longrightarrow> rstrip (s @ [c]) = rstrip s"
  by (simp add: rstrip_def)

lemma strip_newline: "rstrip (dropWhile isspace (l @ [CHR 0x0A])) = strip l"
proof -
  have "isspace CHR 0x0A" by (simp add: isspace_def)
  then show ?thesis
    by (cases "\<forall>c \<in> set l. isspace c")
      (auto simp: strip_def dropWhile_append rstrip_space rstrip_def dest: set_dropWhileD)
qed

lemma rstrip_length: "length (rstrip s) \<le> length s"
  using length_dropWhile_le[of isspace "rev s"] by (simp add: rstrip_def)

lemma trim_line: "snd (trim out (length (l @ [CHR 0x0A])) (l @ [CHR 0x0A])) = strip l"
proof -
  have "length (strip l) \<le> length l"
    using rstrip_length[of "dropWhile isspace l"] length_dropWhile_le[of isspace l]
    by (simp add: strip_def)
  moreover have "strip l = []" if "dropWhile isspace (l @ [CHR 0x0A]) = []"
    using that strip_newline[of l] by (simp add: rstrip_def)
  ultimately show ?thesis
    using strip_newline[of l] by (auto simp: trim_def Let_def)
qed

lemma load_lines_store:
  assumes "\<forall>l \<in> set ls. plain_line l"
    and "store_all (hm_update lim) m (map (\<lambda>l. (l, Some f)) (listed ls)) = Some m'"
  shows "snd (load_lines lim f (text_lines ls) tr m) = m'"
  using assms
proof (induction ls arbitrary: tr m)
  case Nil
  then show ?case by (simp add: listed_def load_lines.simps fgets_def)
next
  case (Cons l ls)
  have pl: "length l + 1 < MAX_LINE" "CHR 0x0A \<notin> set l" "CHR 0x00 \<notin> set l"
    using Cons.prems(1) by (auto simp: plain_line_def)
  have g: "fgets MAX_LINE (text_lines (l # ls)) = Some (l @ [CHR 0x0A], text_lines ls)"
    using fgets_line[OF pl(2,1)] by simp
  have c: "cstr (l @ [CHR 0x0A]) = l @ [CHR 0x0A]"
    unfolding cstr_def using pl(3) by (subst takeWhile_eq_all_conv) auto
  have h: "take 1 (l @ [CHR 0x0A]) = ''#'' \<longleftrightarrow> take 1 l = ''#''" by (cases l) auto
  have IH: "store_all (hm_update lim) m (map (\<lambda>l. (l, Some f)) (listed ls)) = Some m' \<Longrightarrow>
      snd (load_lines lim f (text_lines ls) tr m) = m'" for tr m
    using Cons.IH Cons.prems(1) by simp
  have unf: "snd (load_lines lim f (text_lines (l # ls)) tr m) =
     (if take 1 l = ''#'' then snd (load_lines lim f (text_lines ls) tr m)
      else if strip l = [] then snd (load_lines lim f (text_lines ls) (strip l) m)
      else snd (load_lines lim f (text_lines ls) (strip l)
             (case hashmap_put lim m (strip l) (Some f) of Some (_, m') \<Rightarrow> m' | None \<Rightarrow> m)))"
    using trim_line[of tr l] h
    by (subst load_lines.simps) (simp add: g c split_beta Let_def del: text_lines.simps)
  consider "take 1 l = ''#''" | "take 1 l \<noteq> ''#''" "strip l = []" | "take 1 l \<noteq> ''#''" "strip l \<noteq> []" by blast
  then show ?case
  proof cases
    case 3
    with Cons.prems(2) obtain m1 where m1: "hm_update lim m (strip l) (Some f) = Some m1"
      "store_all (hm_update lim) m1 (map (\<lambda>l. (l, Some f)) (listed ls)) = Some m'"
      by (auto simp: listed_def split: option.splits)
    then have "(case hashmap_put lim m (strip l) (Some f) of Some (_, m') \<Rightarrow> m' | None \<Rightarrow> m) = m1"
      by (auto simp: hm_update_def split: option.splits prod.splits map_status.splits)
    with 3 IH[OF m1(2)] show ?thesis by (simp add: unf del: text_lines.simps)
  qed (use Cons.prems(2) in \<open>simp_all add: unf listed_def IH[unfolded listed_def] del: text_lines.simps\<close>)
qed

lemma load_dir_store:
  assumes "\<forall>(f, ls) \<in> set fs. files (take (MAX_LINE - 1) (listpath @ ''/'' @ f)) = Some (text_lines ls)
        \<and> (\<forall>l \<in> set ls. plain_line l)"
    and "store_all (hm_update lim) m (domain_pairs fs) = Some m'"
  shows "load_dir lim files listpath (map fst fs) tr m = Some m'"
  using assms
proof (induction fs arbitrary: tr m)
  case Nil
  then show ?case by (simp add: load_dir.simps domain_pairs_def)
next
  case (Cons fl fs)
  obtain f ls where fl: "fl = (f, ls)" by force
  have "store_all (hm_update lim) m (map (\<lambda>l. (l, Some f)) (listed ls) @ domain_pairs fs) = Some m'"
    using Cons.prems(2) by (simp add: domain_pairs_def fl)
  then obtain m1 where m1: "store_all (hm_update lim) m (map (\<lambda>l. (l, Some f)) (listed ls)) = Some m1"
    "store_all (hm_update lim) m1 (domain_pairs fs) = Some m'"
    by (auto simp: store_all_append split: option.splits)
  have "snd (load_lines lim f (text_lines ls) tr m) = m1"
    using load_lines_store[OF _ m1(1)] Cons.prems(1) by (simp add: fl)
  then show ?case
    using Cons.prems(1) Cons.IH[OF _ m1(2)]
    by (simp add: load_dir.simps[of _ _ _ "f # _"] fl del: take_append)
qed

lemma strtok_label:
  assumes "label_ok l" "r = [] \<or> hd r = CHR ''.''"
  shows "strtok_dot (l @ r) = Some l"
proof -
  obtain c cs where l: "l = c # cs" using assms(1) by (cases l) (auto simp: label_ok_def)
  have "takeWhile (\<lambda>c. c \<noteq> CHR ''.'') (l @ r) = l"
    using assms by (cases r) (auto simp: label_ok_def takeWhile_append takeWhile_eq_all_conv[THEN iffD2])
  moreover have "dropWhile (\<lambda>c. c = CHR ''.'') (l @ r) = l @ r"
    using assms(1) by (auto simp: l label_ok_def)
  ultimately show ?thesis using assms(1) by (simp add: strtok_dot_def label_ok_def)
qed

lemma scan_label:
  assumes "CHR ''.'' \<notin> set l" "dots < positions"
  shows "domain_scan (p @ l @ r) (length p + length l) dots positions = domain_scan (p @ l @ r) (length p) dots positions"
  using assms(1)
proof (induction l arbitrary: r rule: rev_induct)
  case (snoc c l)
  have "domain_scan (p @ (l @ [c]) @ r) (Suc (length p + length l)) dots positions
      = domain_scan (p @ (l @ [c]) @ r) (length p + length l) dots positions"
    using snoc.prems assms(2) by (auto simp: nth_append)
  with snoc.IH[of "c # r"] snoc.prems show ?case by simp
qed simp

lemma scan_dot:
  assumes "label_ok l" "r = [] \<or> hd r = CHR ''.''"
  shows "domain_scan (p @ CHR ''.'' # l @ r) (Suc (length p)) dots (Suc dots) =
     (if length l > 3 then Some (Suc (length p)) else domain_scan (p @ CHR ''.'' # l @ r) (length p) (Suc dots) (Suc (Suc dots)))"
  using strtok_label[OF assms] by (simp add: nth_append Let_def)

lemma join_dots_snoc: "ls \<noteq> [] \<Longrightarrow> join_dots (ls @ [l]) = join_dots ls @ CHR ''.'' # l"
  by (induction ls rule: join_dots.induct) auto

lemma take_short_nonempty: "ls \<noteq> [] \<Longrightarrow> take_short ls \<noteq> []"
  by (cases ls) auto

lemma scan_labels:
  assumes "\<forall>l \<in> set ls. label_ok l" "r = [] \<or> hd r = CHR ''.''" "ls \<noteq> []"
  shows "map_option (\<lambda>i. drop i (join_dots ls @ r)) (domain_scan (join_dots ls @ r) (length (join_dots ls)) n (Suc n))
      = Some (join_dots (rev (take_short (rev ls))) @ r)"
  using assms
proof (induction ls arbitrary: r n rule: rev_induct)
  case (snoc l ls)
  have l: "label_ok l" "CHR ''.'' \<notin> set l" using snoc.prems(1) by (auto simp: label_ok_def)
  show ?case
  proof (cases "ls = []")
    case True
    then show ?thesis using scan_label[OF l(2), of n "Suc n" "[]" r] by simp
  next
    case False
    let ?p = "join_dots ls"
    have j: "join_dots (ls @ [l]) = ?p @ CHR ''.'' # l" using join_dots_snoc[OF False] .
    have "domain_scan (?p @ CHR ''.'' # l @ r) (Suc (length ?p + length l)) n (Suc n)
        = domain_scan (?p @ CHR ''.'' # l @ r) (Suc (length ?p)) n (Suc n)"
      using scan_label[OF l(2), of n "Suc n" "?p @ [CHR ''.'']" r] by simp
    then have step: "domain_scan (?p @ CHR ''.'' # l @ r) (Suc (length ?p + length l)) n (Suc n) =
        (if length l > 3 then Some (Suc (length ?p))
         else domain_scan (?p @ CHR ''.'' # l @ r) (length ?p) (Suc n) (Suc (Suc n)))"
      using scan_dot[OF l(1) snoc.prems(2), of ?p n] by simp
    have IH: "map_option (\<lambda>i. drop i (?p @ CHR ''.'' # l @ r))
        (domain_scan (?p @ CHR ''.'' # l @ r) (length ?p) (Suc n) (Suc (Suc n)))
      = Some (join_dots (rev (take_short (rev ls))) @ CHR ''.'' # l @ r)"
      using snoc.IH[of "CHR ''.'' # l @ r" "Suc n"] snoc.prems(1) False by simp
    show ?thesis
    proof (cases "length l > 3")
      case True
      then show ?thesis by (simp add: j step del: domain_scan.simps)
    next
      case f: False
      have "rev (take_short (rev ls)) \<noteq> []" using take_short_nonempty[of "rev ls"] False by simp
      with f IH show ?thesis by (simp add: j step join_dots_snoc del: domain_scan.simps)
    qed
  qed
qed simp

lemma extract_domain_labels:
  assumes "\<forall>l \<in> set ls. label_ok l" "ls \<noteq> []" "3 \<le> length (join_dots ls)" "length (join_dots ls) + 1 < MAX_DOMAIN"
  shows "extract_domain (join_dots ls) = Domain (join_dots (registered ls))"
proof -
  let ?q = "join_dots ls"
  have top: "domain_scan ?q (Suc (length ?q)) 0 2 = domain_scan ?q (length ?q) 0 2" by simp
  have "map_option (\<lambda>i. drop i ?q) (domain_scan ?q (length ?q) 0 2) = Some (join_dots (registered ls))"
  proof (cases "\<exists>t. ls = [t]")
    case True
    then obtain t where t: "ls = [t]" by blast
    then have "CHR ''.'' \<notin> set t" using assms(1) by (simp add: label_ok_def)
    from scan_label[OF this, of 0 2 "[]" "[]"] t show ?thesis by (simp add: registered_def)
  next
    case False
    with assms(2) obtain ls' t where ls: "ls = ls' @ [t]" "ls' \<noteq> []"
      by (metis append_Nil append_butlast_last_id)
    have t: "CHR ''.'' \<notin> set t" using assms(1) ls(1) by (simp add: label_ok_def)
    have j: "?q = join_dots ls' @ CHR ''.'' # t" using join_dots_snoc[OF ls(2)] ls(1) by simp
    have "domain_scan ?q (length ?q) 0 2 = domain_scan ?q (Suc (length (join_dots ls'))) 0 2"
      using scan_label[OF t, of 0 2 "join_dots ls' @ [CHR ''.'']" "[]"] by (simp add: j)
    also have "\<dots> = domain_scan ?q (length (join_dots ls')) 1 2"
      by (simp add: j nth_append)
    finally have "domain_scan ?q (length ?q) 0 2 = domain_scan ?q (length (join_dots ls')) 1 2" .
    moreover have "rev (take_short (rev ls')) \<noteq> []" using take_short_nonempty[of "rev ls'"] ls(2) by simp
    ultimately show ?thesis
      using scan_labels[of ls' "CHR ''.'' # t" 1] assms(1) ls
      by (simp add: j registered_def join_dots_snoc numeral_2_eq_2)
  qed
  with top assms(3,4) show ?thesis
    by (auto simp: extract_domain_def Let_def split: option.splits)
qed

lemma load_lines_last:
  assumes "plain_line l" "strip l = l" "1 < length l" "take 1 l \<noteq> ''#''"
  shows "load_lines lim f l tr m = (butlast l,
     case hashmap_put lim m (butlast l) (Some f) of Some (_, m') \<Rightarrow> m' | None \<Rightarrow> m)"
proof -
  have nl: "CHR 0x0A \<notin> set l" "CHR 0x00 \<notin> set l" "length l + 1 < MAX_LINE"
    using assms(1) by (auto simp: plain_line_def)
  have tw: "takeWhile (\<lambda>c. c \<noteq> CHR 0x0A) l = l" "cstr l = l"
    unfolding cstr_def takeWhile_eq_all_conv using nl(1,2) by blast+
  have g: "fgets MAX_LINE l = Some (l, [])"
  proof -
    have "min (MAX_LINE - 1) (length l) = length l" "l \<noteq> []" using nl(3) assms(3) by auto
    then show ?thesis unfolding fgets_def Let_def tw(1) by simp
  qed
  have "dropWhile isspace l = l"
  proof -
    have "length l \<le> length (dropWhile isspace l)"
      using assms(2) rstrip_length[of "dropWhile isspace l"] by (simp add: strip_def)
    moreover have "length (takeWhile isspace l) + length (dropWhile isspace l) = length l"
      by (metis length_append takeWhile_dropWhile_id)
    ultimately have "length (takeWhile isspace l) = 0" by linarith
    then have "takeWhile isspace l = []" by (rule length_0_conv[THEN iffD1])
    then show ?thesis using takeWhile_dropWhile_id[of isspace l] by simp
  qed
  moreover from this have "rstrip l = l" using assms(2) by (simp add: strip_def)
  moreover have "l \<noteq> []" "butlast l \<noteq> []" using assms(3) by (cases l rule: rev_cases, simp_all)+
  ultimately have "trim tr (length l) l = (length l - 1, butlast l)"
    using assms(3) by (simp add: trim_def Let_def butlast_conv_take)
  moreover have "load_lines lim f [] t m = (t, m)" for t m
    by (subst load_lines.simps) (simp add: fgets_def)
  ultimately show ?thesis
    using assms(4) \<open>butlast l \<noteq> []\<close> by (subst load_lines.simps) (simp add: g tw(2) Let_def)
qed

subsection \<open>Properties\<close>

text \<open>
  C35. Loading a directory of readable files puts every domain listed in them, and nothing
  else, into the map: a lookup returns the name of the file that lists the domain (the
  last one if several do), however the lines are indented and commented.
\<close>

theorem domainlist_lookup:
  assumes "hashmap_new lim = Some m0" "dirs listpath = Some (map fst fs)"
    and "\<forall>(f, ls) \<in> set fs. files (take (MAX_LINE - 1) (listpath @ ''/'' @ f)) = Some (text_lines ls)
        \<and> (\<forall>l \<in> set ls. plain_line l)"
    and "store_all (hm_update lim) m0 (domain_pairs fs) = Some m"
  shows "load_domainlist lim files dirs garbage listpath = Some (Domains m)
     \<and> hashmap_get m k = (case map_of (rev (domain_pairs fs)) k of
          Some v \<Rightarrow> (MAP_OK, v) | None \<Rightarrow> (MAP_MISSING, None))"
  using load_dir_store[OF assms(3,4)] get_after_store_all[OF assms(1,4)] assms(1,2)
  by (simp add: load_domainlist_def)

theorem domainlist_lookup_witness:
  "\<exists>m. load_domainlist 64 (\<lambda>f. if f = ''/l/ads'' then Some (text_lines [''i'', ''# note'', '' n '']) else None)
       (\<lambda>_. Some [''ads'']) [] ''/l'' = Some (Domains m)
     \<and> hashmap_get m ''n'' = (MAP_OK, Some ''ads'')"
proof -
  let ?fs = "[(''ads'', [''i'', ''# note'', '' n ''])]"
  have p: "domain_pairs ?fs = [(''i'', Some ''ads''), (''n'', Some ''ads'')]"
    by (simp add: domain_pairs_def listed_def strip_def rstrip_def isspace_def)
  obtain m0 :: "string hashmap_map" where m0: "hashmap_new 64 = Some m0"
    by (simp add: hm_eval)
  have "store_all (hm_update 64) (the (hashmap_new 64)) [(''i'', Some ''ads''), (''n'', Some ''ads'')] \<noteq> None"
    by (simp add: hm_eval hm_update_def)
  then obtain m where m: "store_all (hm_update 64) m0 (domain_pairs ?fs) = Some m"
    using m0 p by auto
  have "plain_line ''i''" "plain_line ''# note''" "plain_line '' n ''"
    by (simp_all add: plain_line_def MAX_LINE_def)
  with domainlist_lookup[of 64 m0 "\<lambda>_. Some [''ads'']" "''/l''" ?fs
      "\<lambda>f. if f = ''/l/ads'' then Some (text_lines [''i'', ''# note'', '' n '']) else None" m "[]" "''n''"] m0 m p
  show ?thesis by (auto simp: MAX_LINE_def)
qed

text \<open>
  If one entry of the directory cannot be opened, loading never returns: the loop tries
  the same entry again and again, and the plugin never starts.
\<close>

theorem load_domainlist_hangs:
  assumes "hashmap_new lim = Some (m0 :: domain_map)" "dirs listpath = Some dps" "dp \<in> set dps"
    and "files (take (MAX_LINE - 1) (listpath @ ''/'' @ dp)) = None"
  shows "load_domainlist lim files dirs garbage listpath = None"
proof (cases "load_dir lim files listpath dps garbage m0")
  case (Some m)
  with load_dir_openable[OF Some] assms(3,4) show ?thesis by blast
qed (use assms in \<open>simp add: load_domainlist_def\<close>)

theorem load_domainlist_hangs_witness:
  "load_domainlist 64 (\<lambda>_. None) (\<lambda>_. Some [''secret'']) [] ''/l'' = None"
proof -
  obtain m0 :: "string hashmap_map" where "hashmap_new 64 = Some m0"
    by (simp add: hm_eval)
  then show ?thesis
    using load_domainlist_hangs[of 64 m0 "\<lambda>_. Some [''secret'']" "''/l''" "[''secret'']" "''secret''" "\<lambda>_. None"]
    by simp
qed

text \<open>
  The last line of a file that does not end with a newline loses its last character: the
  buffer size passed for the trimmed copy counts a newline that is not there.
\<close>

theorem last_line_truncated:
  assumes "plain_line l" "strip l = l" "1 < length l" "take 1 l \<noteq> ''#''"
  shows "load_lines lim f l tr m = (butlast l,
     case hashmap_put lim m (butlast l) (Some f) of Some (_, m') \<Rightarrow> m' | None \<Rightarrow> m)"
  by (rule load_lines_last[OF assms])

theorem last_line_truncated_witness:
  "fst (load_lines 64 ''ads'' ''example.com'' [] \<lparr>table_size = 16, msize = 0, hdata = replicate 16 free_element\<rparr>)
     = ''example.co''"
proof -
  have "plain_line ''example.com''" "strip ''example.com'' = ''example.com''"
    by (simp_all add: plain_line_def MAX_LINE_def strip_def rstrip_def isspace_def)
  from last_line_truncated[OF this] show ?thesis by simp
qed

text \<open>
  C36. The domain cut out of a query of dot-separated labels is the top level label with the
  labels before it, up to and including the first (from the right) that is longer than
  three characters, or the whole query if there is none.
\<close>

theorem extract_domain_registered:
  assumes "\<forall>l \<in> set ls. label_ok l" "ls \<noteq> []" "3 \<le> length (join_dots ls)" "length (join_dots ls) + 1 < MAX_DOMAIN"
  shows "extract_domain (join_dots ls) = Domain (join_dots (registered ls))"
  by (rule extract_domain_labels[OF assms])

theorem extract_domain_registered_witness:
  "extract_domain ''www.bbc.co.uk'' = Domain ''www.bbc.co.uk''"
proof -
  have "\<forall>l \<in> set [''www'', ''bbc'', ''co'', ''uk'']. label_ok l" by (simp add: label_ok_def)
  from extract_domain_registered[OF this] show ?thesis
    by (simp add: registered_def MAX_DOMAIN_def)
qed

end
