(* ===== verification/Ip2mac.thy ===== *)
theory Ip2mac
  imports C_Stdlib
begin

text \<open>
  Hardware addresses of clients (\<^verbatim>\<open>src/src/dnscrypt-plugin/ip2mac.c\<close>). The ARP table of the
  kernel is a parameter: a function from an address and a device name to the six bytes of
  a hardware address, \<open>None\<close> where the ioctl fails.
\<close>

fun ethernet_mactoa :: "u8 list \<Rightarrow> string" where
  "ethernet_mactoa [] = []"
| "ethernet_mactoa [b] = hex2 b"
| "ethernet_mactoa (b # bs) = hex2 b @ '':'' @ ethernet_mactoa bs"

text \<open>The status and the contents of the buffer for the hardware address, which a failure keeps.\<close>

definition ip4_derive_mac :: "('a \<Rightarrow> string \<Rightarrow> u8 list option) \<Rightarrow> 'a \<Rightarrow> string \<Rightarrow> string \<Rightarrow> int \<times> string" where
  "ip4_derive_mac arp addr interface mac =
     (case arp addr (take 15 interface) of
        None \<Rightarrow> (1, mac)
      | Some bs \<Rightarrow> (0, ethernet_mactoa (take 6 bs)))"

text \<open>
  The variant for version 6 addresses opens its own socket: the status, the buffer, and
  whether the socket is still open at the end.
\<close>

definition convert_from_ipv6 :: "bool \<Rightarrow> (string \<Rightarrow> 'a option) \<Rightarrow> string option
      \<Rightarrow> ('a \<Rightarrow> string \<Rightarrow> u8 list option) \<Rightarrow> string \<Rightarrow> string \<Rightarrow> int \<times> string \<times> bool" where
  "convert_from_ipv6 socket_ok pton interface arp ipaddr_value mac_addr =
     (if \<not> socket_ok then (1, mac_addr, False)
      else (case pton ipaddr_value of
              None \<Rightarrow> (1, mac_addr, False)
            | Some ipaddr \<Rightarrow>
                let dev = (case interface of Some d \<Rightarrow> d | None \<Rightarrow> ''lo'')
                in (case arp ipaddr (take 15 dev) of
                      None \<Rightarrow> (1, mac_addr, True)
                    | Some bs \<Rightarrow> (0, ethernet_mactoa (take 6 bs), False))))"

subsection \<open>The printed form\<close>

definition hex_value :: "char \<Rightarrow> nat" where
  "hex_value c = (let n = of_char c in if n < 58 then n - 48 else n - 87)"

fun mac_bytes :: "string \<Rightarrow> u8 list" where
  "mac_bytes (a # b # rest) = of_nat (hex_value a * 16 + hex_value b) # mac_bytes (drop 1 rest)"
| "mac_bytes _ = []"

lemma hex_value_digit: "n < 16 \<Longrightarrow> hex_value (hex_digit n) = n"
  by (simp add: hex_value_def hex_digit_def)

lemma high_nibble: "unat (b :: u8) div 16 < 16"
proof -
  have "unat b < 16 * 16" using unsigned_less[of b, where ?'a = nat] by simp
  then show ?thesis by (rule less_mult_imp_div_less)
qed

lemma hex2_value: "of_nat (hex_value (hex_digit (unat (b :: u8) div 16)) * 16 + hex_value (hex_digit (unat b mod 16))) = b"
proof -
  have "unat b div 16 < 16" by (rule high_nibble)
  then show ?thesis by (simp add: hex_value_digit flip: of_nat_mult of_nat_add)
qed

lemma mac_bytes_mactoa: "mac_bytes (ethernet_mactoa bs) = bs"
proof (induction bs rule: ethernet_mactoa.induct)
  case (2 b)
  show ?case using hex2_value[of b] by (simp add: hex2_def)
next
  case (3 b c bs)
  then show ?case using hex2_value[of b] by (simp add: hex2_def)
qed simp

lemma mactoa_length: "bs \<noteq> [] \<Longrightarrow> length (ethernet_mactoa bs) = 3 * length bs - 1"
  by (induction bs rule: ethernet_mactoa.induct) (auto simp: hex2_def)

lemma hex_digit_no_percent: "n < 16 \<Longrightarrow> hex_digit n \<noteq> CHR ''%''"
proof
  assume n: "n < 16" and "hex_digit n = CHR ''%''"
  then have "(of_char (hex_digit n) :: nat) = 37" by simp
  moreover have "(of_char (hex_digit n) :: nat) \<ge> 48" using n by (simp add: hex_digit_def)
  ultimately show False by simp
qed

lemma hex2_no_percent: "CHR ''%'' \<notin> set (hex2 b)"
proof -
  have "unat b div 16 < 16" by (rule high_nibble)
  then show ?thesis
    using hex_digit_no_percent[of "unat b div 16"] hex_digit_no_percent[of "unat b mod 16"]
    by (auto simp: hex2_def)
qed

lemma mactoa_no_percent: "CHR ''%'' \<notin> set (ethernet_mactoa bs)"
  by (induction bs rule: ethernet_mactoa.induct) (auto simp: hex2_no_percent)

subsection \<open>Property\<close>

text \<open>
  The hardware address found for a client fits the buffer of 32 bytes and identifies the
  interface: different six-byte addresses have different printed forms.
\<close>

theorem ip4_derive_mac_faithful:
  assumes "arp addr (take 15 interface) = Some bs" "length bs = 6"
  shows "fst (ip4_derive_mac arp addr interface old) = 0
     \<and> length (snd (ip4_derive_mac arp addr interface old)) = 17
     \<and> mac_bytes (snd (ip4_derive_mac arp addr interface old)) = bs"
  using assms mactoa_length[of bs] mac_bytes_mactoa[of bs]
  by (cases bs) (auto simp: ip4_derive_mac_def)

theorem ip4_derive_mac_faithful_witness:
  "mac_bytes (snd (ip4_derive_mac (\<lambda>_ _. Some [0, 27, 33, 171, 205, 255]) (7 :: u32) ''eth0'' [])) = [0, 27, 33, 171, 205, 255]"
  using ip4_derive_mac_faithful[of "\<lambda>_ _. Some [0, 27, 33, 171, 205, 255]" "7 :: u32" "''eth0''" "[0, 27, 33, 171, 205, 255]" "[]"]
  by simp

end
