(* ===== verification/Dns_Filter.thy ===== *)
theory Dns_Filter
  imports Domainlist Ip2mac Redis_Client "HOL-Library.Monad_Syntax"
begin

text \<open>
  The DNS filter of the network (\<^verbatim>\<open>src/src/dnscrypt-plugin/dnscrypt-dowse.c\<close>): the plugin that
  sees every query before it is forwarded, answers names of the local network, sends
  unknown clients to the captive portal and publishes what is asked for.

  The libraries around it are parameters of the record \<open>dns_env\<close>: ldns (decoding a packet
  into its identifier and the name of its first question, reversing an address name,
  checking and encoding an answer; packets are taken to have a question), the redis servers, the ARP table and the clock. A
  packet is the list of its bytes. The outcome \<open>None\<close> is undefined behaviour: an access
  outside a buffer, a null pointer, an uninitialised variable or a format directive without
  an argument.
\<close>

subsection \<open>Data\<close>

definition MAX_DNS :: nat where "MAX_DNS = 512"
definition MAX_OUTPUT :: nat where "MAX_OUTPUT = 512"
definition DNS_HIT_EXPIRE :: nat where "DNS_HIT_EXPIRE = 21600"
definition NI_MAXHOST :: nat where "NI_MAXHOST = 1025"

record answer_pkt =
  pkt_id :: nat
  pkt_qr :: bool
  pkt_aa :: bool
  pkt_ad :: bool
  pkt_question :: string
  pkt_answer :: string

record 'r dns_env =
  ldns_decode :: "char list \<Rightarrow> (nat \<times> string) option"
  ldns_reverse :: "string \<Rightarrow> string option"
  ldns_rr_parses :: "string \<Rightarrow> bool"
  ldns_encode :: "answer_pkt \<Rightarrow> char list option"
  dns_server :: "'r redis_server"
  arp_table :: "u32 \<Rightarrow> string \<Rightarrow> u8 list option"
  epoch :: nat

record 'r plugin_data =
  query :: string
  tld :: string
  from_host :: string
  mac :: string
  ip4 :: string
  ip4_addr :: u32
  ownip4 :: string
  netmask_ip4 :: string
  interface :: string
  listpath :: "string option"
  domainlist :: "domain_map option"
  redis :: 'r
  redis_stor :: 'r
  cache :: "'r option"
  is_reverse :: bool
  debug :: bool
  offline :: bool

datatype filter_result = Filter_ok | Filter_kill | Filter_direct "char list"

text \<open>What the fields \<^verbatim>\<open>str\<close>, \<^verbatim>\<open>len\<close> and \<^verbatim>\<open>integer\<close> of a reply hold.\<close>

fun reply_str :: "redis_reply \<Rightarrow> string option" where
  "reply_str (ReplyString s) = Some s"
| "reply_str (ReplyStatus s) = Some s"
| "reply_str (ReplyError s) = Some s"
| "reply_str _ = None"

definition reply_len :: "redis_reply \<Rightarrow> nat" where
  "reply_len r = (case reply_str r of Some s \<Rightarrow> length s | None \<Rightarrow> 0)"

fun reply_integer :: "redis_reply \<Rightarrow> int" where
  "reply_integer (ReplyInteger n) = n"
| "reply_integer _ = 0"

subsection \<open>Start and end\<close>

record 'r init_env =
  init_getenv :: "string \<Rightarrow> string option"
  init_files :: "string \<Rightarrow> char list option"
  init_dirs :: "string \<Rightarrow> string list option"
  init_memory :: nat
  init_garbage :: string
  init_socket_ok :: bool
  init_net :: "nat \<Rightarrow> 'r redis_connection"

datatype 'r init_result = Init_error | Init_failed int | Init_exit int | Init_done "'r plugin_data"

definition dcplugin_init :: "'r init_env \<Rightarrow> string list \<Rightarrow> 'r init_result option" where
  "dcplugin_init env argv =
     do {
       let offline_arg = (\<exists>a \<in> set argv. take 7 a = ''offline'');
       let path = init_getenv env ''DOWSE_DOMAINLIST'';
       loaded \<leftarrow> (case path of
           None \<Rightarrow> Some None
         | Some p \<Rightarrow> map_option Some (load_domainlist (init_memory env) (init_files env) (init_dirs env)
                                        (init_garbage env) p));
       let own = (case init_getenv env ''DOWSE_LAN_ADDRESS_IP4'' of Some a \<Rightarrow> take NI_MAXHOST a | None \<Rightarrow> []);
       let netmask = (case init_getenv env ''DOWSE_LAN_NETMASK_IP4'' of Some a \<Rightarrow> take NI_MAXHOST a | None \<Rightarrow> []);
       (case loaded of
          Some Directory_missing \<Rightarrow> Some (Init_exit 1)
        | Some Out_of_memory \<Rightarrow> None
        | _ \<Rightarrow>
            (case init_getenv env ''interface'' of
               None \<Rightarrow> Some Init_error
             | Some dev \<Rightarrow>
                 if \<not> init_socket_ok env then Some Init_error
                 else (case (connect_redis (init_net env) Db_dynamic, connect_redis (init_net env) Db_storage) of
                         (Some dyn, Some stor) \<Rightarrow>
                           Some (Init_done \<lparr>query = [], tld = [], from_host = [], mac = [], ip4 = [],
                             ip4_addr = 0, ownip4 = own, netmask_ip4 = netmask, interface = dev,
                             listpath = path,
                             domainlist = (case loaded of Some (Domains m) \<Rightarrow> Some m | _ \<Rightarrow> None),
                             redis = dyn, redis_stor = stor, cache = None,
                             is_reverse = False, debug = True, offline = offline_arg\<rparr>)
                       | _ \<Rightarrow> Some (Init_failed 1))))
     }"

definition dcplugin_destroy :: "'r plugin_data \<Rightarrow> int option" where
  "dcplugin_destroy data = do { free_domainlist (domainlist data); Some 0 }"

subsection \<open>Answers\<close>

text \<open>
  The result of parsing the answer is not checked: when it fails, the record that is pushed
  is an uninitialised pointer.
\<close>

definition answer_to_question :: "'r dns_env \<Rightarrow> nat \<Rightarrow> string \<Rightarrow> string \<Rightarrow> char list option option" where
  "answer_to_question env pktid question answer =
     (if \<not> ldns_rr_parses env answer then None
      else Some (ldns_encode env \<lparr>pkt_id = pktid, pkt_qr = True, pkt_aa = True, pkt_ad = False,
                   pkt_question = question, pkt_answer = answer\<rparr>))"

definition answer_directly :: "'r dns_env \<Rightarrow> nat \<Rightarrow> string \<Rightarrow> string \<Rightarrow> filter_result option" where
  "answer_directly env pktid question text =
     map_option (\<lambda>outbuf. case outbuf of None \<Rightarrow> Filter_kill | Some w \<Rightarrow> Filter_direct w)
       (answer_to_question env pktid question (take 1023 text))"

subsection \<open>Publishing a query\<close>

text \<open>
  The buffer for the top level domain is filled with strncpy and has no terminator when the
  label is too long; then the string goes on with the next field, the client's address.
\<close>

definition tld_text :: "'r plugin_data \<Rightarrow> string" where
  "tld_text data = (if length (tld data) < MAX_TLD then tld data else tld data @ from_host data)"

text \<open>The group of a domain is appended with strncat; a null domain is a null key.\<close>

definition add_group :: "'r plugin_data \<Rightarrow> extracted \<Rightarrow> string \<Rightarrow> string option" where
  "add_group data ex outnew =
     (if listpath data = None then Some outnew
      else (case (domainlist data, ex) of
              (Some m, Domain d) \<Rightarrow>
                (case hashmap_get m d of
                   (MAP_OK, Some sval) \<Rightarrow>
                     let out = outnew @ '','' @ take (MAX_OUTPUT - 128) sval
                     in if length out < MAX_OUTPUT then Some out else None
                 | (MAP_OK, None) \<Rightarrow> None
                 | _ \<Rightarrow> Some outnew)
            | _ \<Rightarrow> None))"

definition query_line :: "'r plugin_data \<Rightarrow> string \<Rightarrow> int \<Rightarrow> nat \<Rightarrow> string \<Rightarrow> string" where
  "query_line data who val t ext =
     take (MAX_OUTPUT - 1) (''DNS,'' @ who @ '','' @ show_int val @ '','' @ show_nat t @ '',''
       @ ext @ '','' @ tld_text data)"

definition publish_query :: "'r dns_env \<Rightarrow> 'r plugin_data \<Rightarrow> 'r plugin_data option" where
  "publish_query env data0 =
     do {
       let ex = extract_domain (query data0);
       ext \<leftarrow> (case ex of Domain_fault \<Rightarrow> None | Domain d \<Rightarrow> Some d | No_domain \<Rightarrow> Some ''(null)'');
       let data = (case extract_tld (query data0) of
            Some t \<Rightarrow> data0\<lparr>tld := take MAX_TLD t\<rparr> | None \<Rightarrow> data0);
       (hits_reply, r1) \<leftarrow> cmd_redis (dns_server env) (redis data) (''INCR dns-query-'' @ ext);
       let val = (case hits_reply of Some r \<Rightarrow> to_int32 (reply_integer r) | None \<Rightarrow> 1);
       (_, r2) \<leftarrow> cmd_redis (dns_server env) r1
                    (''EXPIRE dns-query-'' @ ext @ '' '' @ show_nat DNS_HIT_EXPIRE);
       (name_reply, s1) \<leftarrow> cmd_redis (dns_server env) (redis_stor data) (''HGET thing_'' @ mac data @ '' name'');
       rep \<leftarrow> name_reply;
       let who = (case reply_str rep of Some nm \<Rightarrow> cstr nm | None \<Rightarrow> from_host data);
       outnew \<leftarrow> add_group data ex (query_line data who val (epoch env) ext);
       (_, r3) \<leftarrow> cmd_redis (dns_server env) r2 (''PUBLISH dns-query-channel '' @ outnew);
       Some (data\<lparr>redis := r3, redis_stor := s1\<rparr>)
     }"

subsection \<open>The stages of the filter\<close>

text \<open>
  Every stage returns the final result, or no result and the data for the next stage. A
  name that ends with a dot is compared with \<^verbatim>\<open>arpa\<close> at the five places before its end,
  wherever they are.
\<close>

definition is_arpa :: "string \<Rightarrow> bool option" where
  "is_arpa question =
     (if last question \<noteq> CHR ''.'' then Some False
      else if length question < 5 then None
      else Some (take 4 (drop (length question - 5) question) = ''arpa''))"

definition reverse_stage :: "'r dns_env \<Rightarrow> nat \<Rightarrow> string \<Rightarrow> 'r plugin_data
      \<Rightarrow> (filter_result option \<times> 'r plugin_data) option" where
  "reverse_stage env pktid question data =
     do {
       arpa \<leftarrow> is_arpa question;
       if \<not> arpa then Some (None, data\<lparr>is_reverse := False\<rparr>)
       else (case ldns_reverse env question of
               None \<Rightarrow> Some (Some Filter_kill, data\<lparr>is_reverse := True\<rparr>)
             | Some rev_name \<Rightarrow>
                 do {
                   let reverse_str = take (MAX_QUERY - 1) rev_name;
                   (if reverse_str = [] then None else Some ());
                   (rep, s1) \<leftarrow> cmd_redis (dns_server env) (redis_stor data)
                                  (''GET dns-reverse-'' @ butlast reverse_str);
                   let data1 = data\<lparr>is_reverse := True, redis_stor := s1\<rparr>;
                   (case rep of
                      Some r \<Rightarrow>
                        if reply_len r \<noteq> 0
                        then map_option (\<lambda>res. (Some res, data1))
                               (answer_directly env pktid question
                                  (question @ '' 0 IN PTR '' @ cstr (the (reply_str r))))
                        else Some (None, data1)
                    | None \<Rightarrow> Some (None, data1))
                 })
     }"

definition says_yes :: "redis_reply option \<Rightarrow> bool" where
  "says_yes rep = (case rep of
       None \<Rightarrow> False
     | Some r \<Rightarrow> (case reply_str r of None \<Rightarrow> False | Some s \<Rightarrow> take 3 s = ''yes''))"

definition captive_portal :: "'r dns_env \<Rightarrow> nat \<Rightarrow> string \<Rightarrow> 'r plugin_data \<Rightarrow> filter_result option" where
  "captive_portal env pktid question data =
     answer_directly env pktid question (query data @ '' 0 IN A '' @ ownip4 data)"

text \<open>The check whether the hardware address is allowed to browse.\<close>

definition browse_check :: "'r dns_env \<Rightarrow> nat \<Rightarrow> string \<Rightarrow> 'r plugin_data
      \<Rightarrow> (filter_result option \<times> 'r plugin_data) option" where
  "browse_check env pktid question data =
     do {
       (enabled, s1) \<leftarrow> cmd_redis (dns_server env) (redis_stor data)
                          (''HGET thing_'' @ mac data @ '' enable_to_browse'');
       let data1 = data\<lparr>redis_stor := s1\<rparr>;
       if says_yes enabled then Some (None, data1)
       else map_option (\<lambda>res. (Some res, data1)) (captive_portal env pktid question data1)
     }"

text \<open>The check of party mode, in which everybody may browse.\<close>

definition party_check :: "'r dns_env \<Rightarrow> nat \<Rightarrow> string \<Rightarrow> 'r plugin_data
      \<Rightarrow> (filter_result option \<times> 'r plugin_data) option" where
  "party_check env pktid question data =
     do {
       (party, s1) \<leftarrow> cmd_redis (dns_server env) (redis_stor data) ''GET party_mode'';
       let data1 = data\<lparr>redis_stor := s1\<rparr>;
       if says_yes party then Some (None, data1) else browse_check env pktid question data1
     }"

definition access_stage :: "'r dns_env \<Rightarrow> nat \<Rightarrow> string \<Rightarrow> 'r plugin_data
      \<Rightarrow> (filter_result option \<times> 'r plugin_data) option" where
  "access_stage env pktid question data =
     (if ip4 data = ''127.0.0.1'' then Some (None, data)
      else (case ip4_derive_mac (arp_table env) (ip4_addr data) (interface data) (mac data) of
              (status, m) \<Rightarrow>
                let data1 = data\<lparr>mac := m\<rparr>
                in if status \<noteq> 0
                   then map_option (\<lambda>res. (Some res, data1)) (captive_portal env pktid question data1)
                   else party_check env pktid question data1))"

definition lease_stage :: "'r dns_env \<Rightarrow> nat \<Rightarrow> string \<Rightarrow> 'r plugin_data
      \<Rightarrow> (filter_result option \<times> 'r plugin_data) option" where
  "lease_stage env pktid question data =
     do {
       (rep, r1) \<leftarrow> cmd_redis (dns_server env) (redis data) (''GET dns-lease-'' @ query data);
       let data1 = data\<lparr>redis := r1\<rparr>;
       (case rep of
          Some r \<Rightarrow>
            if reply_len r \<noteq> 0
            then map_option (\<lambda>res. (Some res, data1))
                   (answer_directly env pktid question (query data @ '' 0 IN A '' @ cstr (the (reply_str r))))
            else Some (None, data1)
        | None \<Rightarrow> Some (None, data1))
     }"

text \<open>A cached answer is sent as it is, with the identifier of the query in front.\<close>

definition cache_stage :: "'r dns_env \<Rightarrow> char list \<Rightarrow> 'r plugin_data
      \<Rightarrow> (filter_result option \<times> 'r plugin_data) option" where
  "cache_stage env wire data =
     (case cache data of
        None \<Rightarrow> Some (None, data)
      | Some c \<Rightarrow>
          do {
            (rep, c1) \<leftarrow> cmd_redis (dns_server env) c (''GET dns-cache-'' @ query data);
            let data1 = data\<lparr>cache := Some c1\<rparr>;
            (case rep of
               Some r \<Rightarrow>
                 if reply_len r \<noteq> 0
                 then Some (Some (Filter_direct (take (reply_len r) (take 2 wire @ drop 2 (the (reply_str r))))), data1)
                 else Some (None, data1)
             | None \<Rightarrow> Some (None, data1))
          })"

text \<open>
  The offline answer is built and then dropped: without braces around it, the return that
  kills the query is not part of the preceding conditional.
\<close>

definition offline_stage :: "'r dns_env \<Rightarrow> nat \<Rightarrow> string \<Rightarrow> 'r plugin_data
      \<Rightarrow> (filter_result option \<times> 'r plugin_data) option" where
  "offline_stage env pktid question data =
     (if offline data then
        do {
          answer_to_question env pktid question
            (take 1023 (if is_reverse data then question @ '' 0 IN PTR localhost''
                        else query data @ '' 0 IN A 127.0.0.1''));
          Some (Some Filter_kill, data)
        }
      else Some (None, data))"

definition run_stage :: "(filter_result option \<times> 'r plugin_data) option
      \<Rightarrow> ('r plugin_data \<Rightarrow> (filter_result option \<times> 'r plugin_data) option)
      \<Rightarrow> (filter_result option \<times> 'r plugin_data) option" where
  "run_stage p f =
     (case p of
        None \<Rightarrow> None
      | Some (Some res, data) \<Rightarrow> Some (Some res, data)
      | Some (None, data) \<Rightarrow> f data)"

definition note_client :: "string \<Rightarrow> u32 \<Rightarrow> 'r plugin_data \<Rightarrow> 'r plugin_data" where
  "note_client question client data =
     data\<lparr>query := butlast question, ip4_addr := client, ip4 := inet_ntoa client,
          from_host := inet_ntoa client\<rparr>"

definition dcplugin_sync_pre_filter :: "'r dns_env \<Rightarrow> char list \<Rightarrow> u32 \<Rightarrow> 'r plugin_data
      \<Rightarrow> (filter_result \<times> 'r plugin_data) option" where
  "dcplugin_sync_pre_filter env wire client data =
     (if length wire > MAX_DNS then Some (Filter_kill, data)
      else (case ldns_decode env wire of
              None \<Rightarrow> Some (Filter_kill, data)
            | Some (pktid, owner) \<Rightarrow>
                let question = take (MAX_QUERY - 1) owner
                in if question = [] then Some (Filter_kill, data)
                   else map_option (\<lambda>(res, data'). (case res of None \<Rightarrow> Filter_ok | Some r \<Rightarrow> r, data'))
                     (run_stage (run_stage (run_stage (run_stage (run_stage
                        (reverse_stage env pktid question data)
                        (\<lambda>d. map_option (\<lambda>d'. (None, d')) (publish_query env (note_client question client d))))
                        (access_stage env pktid question))
                        (lease_stage env pktid question))
                        (cache_stage env wire))
                        (offline_stage env pktid question))))"

definition dcplugin_sync_post_filter :: "'r plugin_data \<Rightarrow> filter_result \<times> 'r plugin_data" where
  "dcplugin_sync_post_filter data = (Filter_ok, data)"

subsection \<open>Who may browse\<close>

text \<open>
  Reading commands leave the server as it is, which redis documents of GET and HGET; what a
  server answers to a command; and who is authorised: the machine itself, everybody known
  to the ARP table in party mode, and the clients whose hardware address is enabled.
\<close>

definition reads_only :: "'r redis_server \<Rightarrow> bool" where
  "reads_only srv \<longleftrightarrow> (\<forall>r c. take 4 c = ''GET '' \<or> take 5 c = ''HGET '' \<longrightarrow> snd (srv r c) = r)"

definition redis_answer :: "'r redis_server \<Rightarrow> 'r \<Rightarrow> string \<Rightarrow> redis_reply option" where
  "redis_answer srv r c =
     (let res = fst (srv r (take 510 c)) in if okredis res then res else None)"

definition authorised :: "'r dns_env \<Rightarrow> u32 \<Rightarrow> 'r plugin_data \<Rightarrow> bool" where
  "authorised env client data \<longleftrightarrow>
     inet_ntoa client = ''127.0.0.1''
   \<or> (\<exists>bs. arp_table env client (take 15 (interface data)) = Some bs
        \<and> (says_yes (redis_answer (dns_server env) (redis_stor data) ''GET party_mode'')
         \<or> says_yes (redis_answer (dns_server env) (redis_stor data)
              (''HGET thing_'' @ ethernet_mactoa (take 6 bs) @ '' enable_to_browse''))))"

text \<open>An environment with one name, answers that are their own text, and a plugin without lists.\<close>

definition demo_server :: "unit redis_server" where
  "demo_server r c = (Some (if c = ''GET party_mode'' then ReplyString ''yes'' else ReplyNil), r)"

definition demo_dns :: "string \<Rightarrow> unit redis_server \<Rightarrow> unit dns_env" where
  "demo_dns name srv = \<lparr>ldns_decode = (\<lambda>_. Some (7, name)), ldns_reverse = (\<lambda>_. None),
     ldns_rr_parses = (\<lambda>_. True), ldns_encode = (\<lambda>p. Some (pkt_answer p)), dns_server = srv,
     arp_table = (\<lambda>_ _. Some [0, 1, 2, 3, 4, 5]), epoch = 9\<rparr>"

definition demo_data :: "unit plugin_data" where
  "demo_data = \<lparr>query = [], tld = [], from_host = [], mac = [], ip4 = [], ip4_addr = 0,
     ownip4 = ''10.0.0.1'', netmask_ip4 = [], interface = ''eth0'', listpath = None, domainlist = None,
     redis = (), redis_stor = (), cache = None, is_reverse = False, debug = True, offline = False\<rparr>"

subsection \<open>The stages\<close>

lemma cmd_redis_read:
  assumes "reads_only srv" "take 4 c = ''GET '' \<or> take 5 c = ''HGET ''" "cmd_redis srv r c = Some (rep, r')"
  shows "r' = r" "rep = redis_answer srv r c"
proof -
  have "take 4 (take 510 c) = ''GET '' \<or> take 5 (take 510 c) = ''HGET ''"
    using assms(2) by (simp add: take_take)
  then have "snd (srv r (take 510 c)) = r" using assms(1) unfolding reads_only_def by blast
  with assms(3) show "r' = r" "rep = redis_answer srv r c"
    by (auto simp: cmd_redis_def redis_answer_def Let_def split_beta split: if_splits)
qed

lemma run_stage_ok:
  "run_stage p f = Some (None, d') \<longleftrightarrow> (\<exists>d. p = Some (None, d) \<and> f d = Some (None, d'))"
  by (auto simp: run_stage_def split: option.splits)

lemma reverse_stage_next:
  assumes "reads_only (dns_server env)" "reverse_stage env pktid q data = Some (None, d)"
  shows "\<exists>b. d = data\<lparr>is_reverse := b\<rparr>"
proof -
  from assms(2) obtain arpa where a: "is_arpa q = Some arpa"
    by (auto simp: reverse_stage_def bind_eq_Some_conv)
  show ?thesis
  proof (cases arpa)
    case False
    with a assms(2) show ?thesis by (auto simp: reverse_stage_def)
  next
    case True
    with a assms(2) obtain nm where nm: "ldns_reverse env q = Some nm"
      by (auto simp: reverse_stage_def split: option.splits)
    with True a assms(2) obtain rep s1 where
      c: "cmd_redis (dns_server env) (redis_stor data) (''GET dns-reverse-'' @ butlast (take (MAX_QUERY - 1) nm)) = Some (rep, s1)"
        "d = data\<lparr>is_reverse := True, redis_stor := s1\<rparr>"
      by (auto simp: reverse_stage_def Let_def bind_eq_Some_conv split: option.splits if_splits)
    have "s1 = redis_stor data" using cmd_redis_read(1)[OF assms(1) _ c(1)] by simp
    then show ?thesis using c(2) by auto
  qed
qed

lemma publish_query_frame:
  assumes "reads_only (dns_server env)" "publish_query env data = Some d"
  shows "\<exists>t r. d = data\<lparr>tld := t, redis := r\<rparr>"
proof -
  let ?d1 = "case extract_tld (query data) of Some t \<Rightarrow> data\<lparr>tld := take MAX_TLD t\<rparr> | None \<Rightarrow> data"
  from assms(2) obtain s1 r3 rep where c: "cmd_redis (dns_server env) (redis_stor ?d1) (''HGET thing_'' @ mac ?d1 @ '' name'') = Some (rep, s1)"
    "d = ?d1\<lparr>redis := r3, redis_stor := s1\<rparr>"
    by (auto simp: publish_query_def Let_def bind_eq_Some_conv)
  have "s1 = redis_stor ?d1"
    using cmd_redis_read(1)[OF assms(1) _ c(1)] by simp
  then have "d = data\<lparr>tld := tld ?d1, redis := r3\<rparr>"
    by (cases "extract_tld (query data)") (simp_all add: c(2))
  then show ?thesis by blast
qed

lemma browse_check_next:
  assumes "reads_only (dns_server env)" "browse_check env pktid q data = Some (None, d)"
  shows "d = data" "says_yes (redis_answer (dns_server env) (redis_stor data) (''HGET thing_'' @ mac data @ '' enable_to_browse''))"
proof -
  from assms(2) obtain en s1 where c: "cmd_redis (dns_server env) (redis_stor data)
      (''HGET thing_'' @ mac data @ '' enable_to_browse'') = Some (en, s1)" "says_yes en" "d = data\<lparr>redis_stor := s1\<rparr>"
    by (auto simp: browse_check_def Let_def bind_eq_Some_conv split: if_splits)
  from cmd_redis_read[OF assms(1) _ c(1)] c(2,3) show "d = data"
    "says_yes (redis_answer (dns_server env) (redis_stor data) (''HGET thing_'' @ mac data @ '' enable_to_browse''))"
    by simp_all
qed

lemma party_check_next:
  assumes "reads_only (dns_server env)" "party_check env pktid q data = Some (None, d)"
  shows "d = data" "says_yes (redis_answer (dns_server env) (redis_stor data) ''GET party_mode'')
    \<or> says_yes (redis_answer (dns_server env) (redis_stor data) (''HGET thing_'' @ mac data @ '' enable_to_browse''))"
proof -
  from assms(2) obtain p s1 where c: "cmd_redis (dns_server env) (redis_stor data) ''GET party_mode'' = Some (p, s1)"
    "(if says_yes p then Some (None, data\<lparr>redis_stor := s1\<rparr>) else browse_check env pktid q (data\<lparr>redis_stor := s1\<rparr>)) = Some (None, d)"
    by (auto simp: party_check_def Let_def bind_eq_Some_conv)
  have s1: "s1 = redis_stor data" "p = redis_answer (dns_server env) (redis_stor data) ''GET party_mode''"
    using cmd_redis_read[OF assms(1) _ c(1)] by simp_all
  have d0: "data\<lparr>redis_stor := redis_stor data\<rparr> = data" by simp
  show "d = data"
  proof (cases "says_yes p")
    case False
    then show ?thesis using c(2) browse_check_next(1)[OF assms(1), of pktid q data d] unfolding s1(1) d0 by simp
  qed (use c(2) s1(1) in simp)
  show "says_yes (redis_answer (dns_server env) (redis_stor data) ''GET party_mode'')
    \<or> says_yes (redis_answer (dns_server env) (redis_stor data) (''HGET thing_'' @ mac data @ '' enable_to_browse''))"
  proof (cases "says_yes p")
    case False
    then show ?thesis using c(2) browse_check_next(2)[OF assms(1), of pktid q data d] unfolding s1(1) d0 by simp
  qed (simp add: s1(2)[symmetric])
qed

lemma access_stage_next:
  assumes "reads_only (dns_server env)" "access_stage env pktid q data = Some (None, d)"
  shows "\<exists>m. d = data\<lparr>mac := m\<rparr>"
    "ip4 data = ''127.0.0.1'' \<or> (\<exists>bs. arp_table env (ip4_addr data) (take 15 (interface data)) = Some bs
        \<and> (says_yes (redis_answer (dns_server env) (redis_stor data) ''GET party_mode'')
         \<or> says_yes (redis_answer (dns_server env) (redis_stor data)
              (''HGET thing_'' @ ethernet_mactoa (take 6 bs) @ '' enable_to_browse''))))"
proof -
  have c: "\<exists>m. d = data\<lparr>mac := m\<rparr> \<and> (ip4 data = ''127.0.0.1'' \<or>
      (\<exists>bs. arp_table env (ip4_addr data) (take 15 (interface data)) = Some bs
        \<and> (says_yes (redis_answer (dns_server env) (redis_stor data) ''GET party_mode'')
         \<or> says_yes (redis_answer (dns_server env) (redis_stor data)
              (''HGET thing_'' @ ethernet_mactoa (take 6 bs) @ '' enable_to_browse'')))))"
  proof (cases "ip4 data = ''127.0.0.1''")
    case True
    then have "d = data\<lparr>mac := mac data\<rparr>" using assms(2) by (simp add: access_stage_def)
    with True show ?thesis by blast
  next
    case False
    show ?thesis
    proof (cases "arp_table env (ip4_addr data) (take 15 (interface data))")
      case None
      with False assms(2) show ?thesis by (simp add: access_stage_def ip4_derive_mac_def)
    next
      case (Some bs)
      have "party_check env pktid q (data\<lparr>mac := ethernet_mactoa (take 6 bs)\<rparr>) = Some (None, d)"
        using False Some assms(2) by (simp add: access_stage_def ip4_derive_mac_def)
      from party_check_next[OF assms(1) this] Some show ?thesis
        by (intro exI[of _ "ethernet_mactoa (take 6 bs)"]) simp
    qed
  qed
  then show "\<exists>m. d = data\<lparr>mac := m\<rparr>" by blast
  from c show "ip4 data = ''127.0.0.1'' \<or> (\<exists>bs. arp_table env (ip4_addr data) (take 15 (interface data)) = Some bs
        \<and> (says_yes (redis_answer (dns_server env) (redis_stor data) ''GET party_mode'')
         \<or> says_yes (redis_answer (dns_server env) (redis_stor data)
              (''HGET thing_'' @ ethernet_mactoa (take 6 bs) @ '' enable_to_browse''))))"
    by (elim exE conjE)
qed

lemma later_stages_next:
  "lease_stage env pktid q data = Some (None, d) \<Longrightarrow> offline d = offline data"
  "cache_stage env wire data = Some (None, d) \<Longrightarrow> offline d = offline data"
  "offline_stage env pktid q data = Some (None, d) \<Longrightarrow> \<not> offline data"
  by (auto simp: lease_stage_def cache_stage_def offline_stage_def Let_def bind_eq_Some_conv
      split: option.splits if_splits)

lemma run_stage_result:
  "run_stage p f = Some (Some r, d') \<longleftrightarrow>
     p = Some (Some r, d') \<or> (\<exists>d. p = Some (None, d) \<and> f d = Some (Some r, d'))"
  by (auto simp: run_stage_def split: option.splits)

lemma answer_directly_not_ok: "answer_directly env pktid q text \<noteq> Some Filter_ok"
  by (auto simp: answer_directly_def split: option.splits)

lemma stages_not_ok:
  "reverse_stage env pktid q data \<noteq> Some (Some Filter_ok, d)"
  "access_stage env pktid q data \<noteq> Some (Some Filter_ok, d)"
  "lease_stage env pktid q data \<noteq> Some (Some Filter_ok, d)"
  "cache_stage env wire data \<noteq> Some (Some Filter_ok, d)"
  "offline_stage env pktid q data \<noteq> Some (Some Filter_ok, d)"
  by (auto simp: reverse_stage_def access_stage_def party_check_def browse_check_def captive_portal_def lease_stage_def cache_stage_def
      offline_stage_def Let_def bind_eq_Some_conv answer_directly_not_ok
      split: option.splits if_splits prod.splits)

lemma pre_filter_okD:
  assumes "dcplugin_sync_pre_filter env wire client data = Some (Filter_ok, data')"
  obtains pktid owner d1 d2 d3 d4 d5 where "length wire \<le> MAX_DNS" "ldns_decode env wire = Some (pktid, owner)"
    "take (MAX_QUERY - 1) owner \<noteq> []"
    "reverse_stage env pktid (take (MAX_QUERY - 1) owner) data = Some (None, d1)"
    "publish_query env (note_client (take (MAX_QUERY - 1) owner) client d1) = Some d2"
    "access_stage env pktid (take (MAX_QUERY - 1) owner) d2 = Some (None, d3)"
    "lease_stage env pktid (take (MAX_QUERY - 1) owner) d3 = Some (None, d4)"
    "cache_stage env wire d4 = Some (None, d5)"
    "offline_stage env pktid (take (MAX_QUERY - 1) owner) d5 = Some (None, data')"
proof -
  from assms obtain pktid owner where p: "length wire \<le> MAX_DNS" "ldns_decode env wire = Some (pktid, owner)"
    "take (MAX_QUERY - 1) owner \<noteq> []"
    by (auto simp: dcplugin_sync_pre_filter_def Let_def not_less split: if_splits option.splits)
  let ?q = "take (MAX_QUERY - 1) owner"
  let ?run = "run_stage (run_stage (run_stage (run_stage (run_stage (reverse_stage env pktid ?q data)
      (\<lambda>d. map_option (\<lambda>d'. (None, d')) (publish_query env (note_client ?q client d))))
      (access_stage env pktid ?q)) (lease_stage env pktid ?q)) (cache_stage env wire)) (offline_stage env pktid ?q)"
  from assms p obtain ro where ro: "?run = Some (ro, data')" "case_option Filter_ok id ro = Filter_ok"
    by (auto simp: dcplugin_sync_pre_filter_def Let_def split: option.splits)
  have "?run \<noteq> Some (Some Filter_ok, data')"
    by (simp add: run_stage_result stages_not_ok)
  with ro have "?run = Some (None, data')" by (cases ro) auto
  then show ?thesis
    using that[OF p] by (auto simp: run_stage_ok)
qed

lemma captive_portal_next: "captive_portal env pktid q (data\<lparr>mac := m, redis_stor := s\<rparr>) = captive_portal env pktid q data"
  "captive_portal env pktid q (data\<lparr>mac := m\<rparr>) = captive_portal env pktid q data"
  "captive_portal env pktid q (data\<lparr>redis_stor := s\<rparr>) = captive_portal env pktid q data"
  by (simp_all add: captive_portal_def)

lemma browse_check_result:
  "browse_check env pktid q data = Some (Some r, d) \<Longrightarrow> captive_portal env pktid q data = Some r"
  by (auto simp: browse_check_def Let_def bind_eq_Some_conv captive_portal_next split: if_splits)

lemma party_check_result:
  "party_check env pktid q data = Some (Some r, d) \<Longrightarrow> captive_portal env pktid q data = Some r"
  by (auto simp: party_check_def Let_def bind_eq_Some_conv captive_portal_next split: if_splits
      dest!: browse_check_result)

lemma access_stage_result:
  "access_stage env pktid q data = Some (Some r, d) \<Longrightarrow> captive_portal env pktid q data = Some r"
  by (auto simp: access_stage_def Let_def captive_portal_next split: if_splits prod.splits
      dest!: party_check_result)

lemma pre_filter_access:
  assumes "length wire \<le> MAX_DNS" "ldns_decode env wire = Some (pktid, owner)"
    and q: "q = take (MAX_QUERY - 1) owner" "q \<noteq> []" and "is_arpa q = Some False"
    and "dcplugin_sync_pre_filter env wire client data = Some (res, data')"
  obtains d2 where "publish_query env (note_client q client (data\<lparr>is_reverse := False\<rparr>)) = Some d2"
    "(\<exists>d3. access_stage env pktid q d2 = Some (Some res, d3)) \<or> (\<exists>d3. access_stage env pktid q d2 = Some (None, d3))"
proof -
  let ?pub = "publish_query env (note_client q client (data\<lparr>is_reverse := False\<rparr>))"
  have rev: "reverse_stage env pktid q data = Some (None, data\<lparr>is_reverse := False\<rparr>)"
    using assms(5) by (simp add: reverse_stage_def)
  obtain ro where ro: "run_stage (run_stage (run_stage (run_stage (run_stage (reverse_stage env pktid q data)
      (\<lambda>d. map_option (\<lambda>d'. (None, d')) (publish_query env (note_client q client d))))
      (access_stage env pktid q)) (lease_stage env pktid q)) (cache_stage env wire)) (offline_stage env pktid q) = Some (ro, data')"
    "res = (case ro of None \<Rightarrow> Filter_ok | Some r \<Rightarrow> r)"
    using assms(1,2,6) q by (auto simp: dcplugin_sync_pre_filter_def Let_def split: if_splits)
  then obtain d2 where d2: "?pub = Some d2"
    by (cases ?pub) (auto simp: rev run_stage_def)
  show thesis
  proof (cases "access_stage env pktid q d2")
    case None
    with ro(1) d2 show thesis by (simp add: rev run_stage_def)
  next
    case (Some r)
    obtain a d3 where r: "r = (a, d3)" by force
    show thesis
    proof (cases a)
      case None
      with that d2 Some r show thesis by blast
    next
      case (Some x)
      with ro d2 \<open>access_stage env pktid q d2 = Some r\<close> r have "res = x" by (auto simp: rev run_stage_def)
      with that d2 \<open>access_stage env pktid q d2 = Some r\<close> r Some show thesis by blast
    qed
  qed
qed

lemma demo_reads_only: "reads_only demo_server" "reads_only (\<lambda>r c. (Some ReplyNil, r))"
  by (simp_all add: reads_only_def)

lemma demo_extract: "extract_domain ''example.com'' = Domain ''example.com''"
  using extract_domain_labels[of "[''example'', ''com'']"]
  by (simp add: label_ok_def registered_def MAX_DOMAIN_def)

lemma demo_shows:
  "show_nat 0 = ''0''" "show_nat 9 = ''9''" "show_nat 21600 = ''21600''" "inet_ntoa 7 = ''0.0.0.7''"
  by (simp_all add: scan_simps inet_ntoa_def octet_def)

lemma demo_mac: "ethernet_mactoa [0, 1, 2, 3, 4, 5] = ''00:01:02:03:04:05''"
  by code_simp

lemmas dns_eval = dcplugin_sync_pre_filter_def run_stage_def reverse_stage_def is_arpa_def publish_query_def
  note_client_def access_stage_def party_check_def browse_check_def captive_portal_def lease_stage_def
  cache_stage_def offline_stage_def answer_directly_def answer_to_question_def add_group_def query_line_def
  tld_text_def says_yes_def reply_len_def extract_tld_def MAX_DNS_def MAX_QUERY_def MAX_OUTPUT_def MAX_TLD_def
  DNS_HIT_EXPIRE_def cmd_redis_def okredis_def ip4_derive_mac_def demo_mac
  show_int_def to_int32_def demo_extract demo_shows
  demo_dns_def demo_data_def demo_server_def

lemma demo_run:
  "\<exists>d. dcplugin_sync_pre_filter (demo_dns ''example.com.'' demo_server) [] 7 demo_data = Some (Filter_ok, d)"
  by (simp add: dns_eval Let_def del: ethernet_mactoa.simps)

lemma demo_run_redirect:
  "\<exists>r d. dcplugin_sync_pre_filter (demo_dns ''example.com.'' (\<lambda>r c. (Some ReplyNil, r))) [] 7 demo_data = Some (r, d)"
  by (simp add: dns_eval Let_def del: ethernet_mactoa.simps)

subsection \<open>Properties\<close>

text \<open>
  C4. The filter lets a query out of the network only for authorised clients: if it answers
  that a query is to be forwarded, then the client is the machine itself, or party mode is
  on, or the hardware address found for the client's address is enabled to browse; and the
  plugin is not offline and the packet is not longer than allowed.
\<close>

theorem filter_ok_authorised:
  assumes "reads_only (dns_server env)"
    and "dcplugin_sync_pre_filter env wire client data = Some (Filter_ok, data')"
  shows "length wire \<le> MAX_DNS \<and> \<not> offline data \<and> authorised env client data"
proof -
  obtain pktid owner d1 d2 d3 d4 d5 where st: "length wire \<le> MAX_DNS" "ldns_decode env wire = Some (pktid, owner)"
    "take (MAX_QUERY - 1) owner \<noteq> []"
    "reverse_stage env pktid (take (MAX_QUERY - 1) owner) data = Some (None, d1)"
    "publish_query env (note_client (take (MAX_QUERY - 1) owner) client d1) = Some d2"
    "access_stage env pktid (take (MAX_QUERY - 1) owner) d2 = Some (None, d3)"
    "lease_stage env pktid (take (MAX_QUERY - 1) owner) d3 = Some (None, d4)"
    "cache_stage env wire d4 = Some (None, d5)"
    "offline_stage env pktid (take (MAX_QUERY - 1) owner) d5 = Some (None, data')"
    by (rule pre_filter_okD[OF assms(2)])
  obtain b where d1: "d1 = data\<lparr>is_reverse := b\<rparr>" using reverse_stage_next[OF assms(1) st(4)] by blast
  obtain t r where d2: "d2 = (note_client (take (MAX_QUERY - 1) owner) client d1)\<lparr>tld := t, redis := r\<rparr>"
    using publish_query_frame[OF assms(1) st(5)] by blast
  have "offline d5 = offline data"
    using access_stage_next(1)[OF assms(1) st(6)] later_stages_next(1)[OF st(7)] later_stages_next(2)[OF st(8)]
    by (auto simp: d1 d2 note_client_def)
  with access_stage_next(2)[OF assms(1) st(6)] later_stages_next(3)[OF st(9)] st(1) show ?thesis
    by (simp add: d1 d2 note_client_def authorised_def)
qed

theorem filter_ok_authorised_witness:
  "authorised (demo_dns ''example.com.'' demo_server) 7 demo_data"
proof -
  obtain d where "dcplugin_sync_pre_filter (demo_dns ''example.com.'' demo_server) [] 7 demo_data = Some (Filter_ok, d)"
    using demo_run by blast
  moreover have "reads_only (dns_server (demo_dns ''example.com.'' demo_server))"
    using demo_reads_only(1) by (simp add: demo_dns_def)
  ultimately show ?thesis using filter_ok_authorised by blast
qed





text \<open>
  A query for a name of less than five characters with its final dot, the root for
  example, makes the test for reverse lookups read in front of the buffer.
\<close>

theorem short_query_faults:
  assumes "length wire \<le> MAX_DNS" "ldns_decode env wire = Some (pktid, q)"
    and "0 < length q" "length q < 5" "last q = CHR ''.''"
  shows "dcplugin_sync_pre_filter env wire client data = None"
proof -
  have "take (MAX_QUERY - 1) q = q" using assms(4) by (simp add: MAX_QUERY_def)
  moreover have "reverse_stage env pktid q data = None"
    using assms(4,5) by (simp add: reverse_stage_def is_arpa_def)
  ultimately show ?thesis
    using assms(1-3) by (simp add: dcplugin_sync_pre_filter_def run_stage_def MAX_QUERY_def)
qed

theorem short_query_faults_witness:
  "dcplugin_sync_pre_filter (demo_dns ''.'' demo_server) [] 7 demo_data = None"
  using short_query_faults[of "[]" "demo_dns ''.'' demo_server" 7 "''.''"]
  by (simp add: demo_dns_def MAX_DNS_def)

text \<open>
  Offline, the plugin never sends the loopback answer it prepares: the query is killed
  in every case.
\<close>

theorem offline_never_answers:
  assumes "offline data"
  shows "offline_stage env pktid q data = None \<or> offline_stage env pktid q data = Some (Some Filter_kill, data)"
  using assms by (cases "answer_to_question env pktid q (take 1023 (if is_reverse data then q @ '' 0 IN PTR localhost''
                        else query data @ '' 0 IN A 127.0.0.1''))") (simp_all add: offline_stage_def)

theorem offline_never_answers_witness:
  "offline_stage (demo_dns ''example.com.'' demo_server) 7 ''example.com.'' (demo_data\<lparr>offline := True\<rparr>)
     = Some (Some Filter_kill, demo_data\<lparr>offline := True\<rparr>)"
  using offline_never_answers[of "demo_data\<lparr>offline := True\<rparr>" "demo_dns ''example.com.'' demo_server" 7 "''example.com.''"]
  by (simp add: offline_stage_def answer_to_question_def demo_dns_def)

text \<open>
  A plugin that was started without a domain list crashes when it is unloaded: the map
  that was never created is freed.
\<close>

theorem destroy_without_domainlist_crashes:
  assumes "dcplugin_init env argv = Some (Init_done data)" "init_getenv env ''DOWSE_DOMAINLIST'' = None"
  shows "dcplugin_destroy data = None"
  using assms
  by (auto simp: dcplugin_init_def dcplugin_destroy_def free_domainlist_def hashmap_free_def Let_def
      split: option.splits prod.splits if_splits)

theorem destroy_without_domainlist_crashes_witness:
  "\<exists>data. dcplugin_init \<lparr>init_getenv = (\<lambda>v. if v = ''interface'' then Some ''eth0'' else None),
       init_files = (\<lambda>_. None), init_dirs = (\<lambda>_. None), init_memory = 64, init_garbage = [],
       init_socket_ok = True, init_net = (\<lambda>_. Connected ())\<rparr> [] = Some (Init_done data)
     \<and> dcplugin_destroy data = None"
proof -
  let ?env = "\<lparr>init_getenv = (\<lambda>v. if v = ''interface'' then Some ''eth0'' else None),
       init_files = (\<lambda>_. None), init_dirs = (\<lambda>_. None), init_memory = 64, init_garbage = [],
       init_socket_ok = True, init_net = (\<lambda>_. Connected ())\<rparr>"
  obtain data where data: "dcplugin_init ?env [] = Some (Init_done data)"
    by (simp add: dcplugin_init_def connect_redis_def)
  with destroy_without_domainlist_crashes[OF data] show ?thesis by simp
qed

end
