(* ===== verification/Tailq.thy ===== *)
theory Tailq
  imports Main
begin

text \<open>
  The tail queues of \<^verbatim>\<open>src/src/seccrond/queue.h\<close>, in which the cron daemon keeps its table and its
  jobs. The macros work on pointers: a head with a pointer to the first element and the
  address of the last next pointer, and in every element a next pointer and the address of
  the next pointer in front of it. The state is an explicit store of these pointers; that
  the operations implement the ones on lists is the refinement proved here.
\<close>

subsection \<open>The store\<close>

type_synonym elm = nat

text \<open>The address of a pointer to an element: the one in the head or the one in an element.\<close>

datatype link = Head_first | Next_of elm

record tailq =
  tqh_first :: "elm option"
  tqh_last :: link
  tqe_next :: "elm \<Rightarrow> elm option"
  tqe_prev :: "elm \<Rightarrow> link"

fun deref :: "tailq \<Rightarrow> link \<Rightarrow> elm option" where
  "deref q Head_first = tqh_first q"
| "deref q (Next_of e) = tqe_next q e"

fun store :: "link \<Rightarrow> elm option \<Rightarrow> tailq \<Rightarrow> tailq" where
  "store Head_first v q = q\<lparr>tqh_first := v\<rparr>"
| "store (Next_of e) v q = q\<lparr>tqe_next := (tqe_next q)(e := v)\<rparr>"

definition set_prev :: "elm \<Rightarrow> link \<Rightarrow> tailq \<Rightarrow> tailq" where
  "set_prev e l q = q\<lparr>tqe_prev := (tqe_prev q)(e := l)\<rparr>"

definition set_last :: "link \<Rightarrow> tailq \<Rightarrow> tailq" where
  "set_last l q = q\<lparr>tqh_last := l\<rparr>"

subsection \<open>The macros\<close>

definition TAILQ_INIT :: "tailq \<Rightarrow> tailq" where
  "TAILQ_INIT q = set_last Head_first (store Head_first None q)"

definition TAILQ_FIRST :: "tailq \<Rightarrow> elm option" where
  "TAILQ_FIRST q = tqh_first q"

definition TAILQ_NEXT :: "tailq \<Rightarrow> elm \<Rightarrow> elm option" where
  "TAILQ_NEXT q e = tqe_next q e"

definition TAILQ_EMPTY :: "tailq \<Rightarrow> bool" where
  "TAILQ_EMPTY q \<longleftrightarrow> TAILQ_FIRST q = None"

definition TAILQ_INSERT_HEAD :: "elm \<Rightarrow> tailq \<Rightarrow> tailq" where
  "TAILQ_INSERT_HEAD e q =
     (let q1 = store (Next_of e) (tqh_first q) q;
          q2 = (case tqh_first q1 of
                  Some f \<Rightarrow> set_prev f (Next_of e) q1
                | None \<Rightarrow> set_last (Next_of e) q1)
      in set_prev e Head_first (store Head_first (Some e) q2))"

definition TAILQ_INSERT_TAIL :: "elm \<Rightarrow> tailq \<Rightarrow> tailq" where
  "TAILQ_INSERT_TAIL e q =
     (let q1 = store (Next_of e) None q;
          q2 = set_prev e (tqh_last q1) q1;
          q3 = store (tqh_last q2) (Some e) q2
      in set_last (Next_of e) q3)"

definition TAILQ_INSERT_AFTER :: "elm \<Rightarrow> elm \<Rightarrow> tailq \<Rightarrow> tailq" where
  "TAILQ_INSERT_AFTER l e q =
     (let q1 = store (Next_of e) (tqe_next q l) q;
          q2 = (case tqe_next q1 e of
                  Some n \<Rightarrow> set_prev n (Next_of e) q1
                | None \<Rightarrow> set_last (Next_of e) q1)
      in set_prev e (Next_of l) (store (Next_of l) (Some e) q2))"

definition TAILQ_INSERT_BEFORE :: "elm \<Rightarrow> elm \<Rightarrow> tailq \<Rightarrow> tailq" where
  "TAILQ_INSERT_BEFORE l e q =
     (let q1 = set_prev e (tqe_prev q l) q;
          q2 = store (Next_of e) (Some l) q1;
          q3 = store (tqe_prev q2 l) (Some e) q2
      in set_prev l (Next_of e) q3)"

definition TAILQ_REMOVE :: "elm \<Rightarrow> tailq \<Rightarrow> tailq" where
  "TAILQ_REMOVE e q =
     (let q1 = (case tqe_next q e of
                  Some n \<Rightarrow> set_prev n (tqe_prev q e) q
                | None \<Rightarrow> set_last (tqe_prev q e) q)
      in store (tqe_prev q1 e) (tqe_next q1 e) q1)"

definition TAILQ_REPLACE :: "elm \<Rightarrow> elm \<Rightarrow> tailq \<Rightarrow> tailq" where
  "TAILQ_REPLACE e e2 q =
     (let q1 = store (Next_of e2) (tqe_next q e) q;
          q2 = (case tqe_next q1 e2 of
                  Some n \<Rightarrow> set_prev n (Next_of e2) q1
                | None \<Rightarrow> set_last (Next_of e2) q1);
          q3 = set_prev e2 (tqe_prev q2 e) q2
      in store (tqe_prev q3 e2) (Some e2) q3)"

text \<open>A traversal follows the next pointers; on a cycle it does not return.\<close>

partial_function (option) foreach_from :: "tailq \<Rightarrow> (elm \<Rightarrow> 's \<Rightarrow> 's) \<Rightarrow> elm option \<Rightarrow> 's \<Rightarrow> 's option" where
  "foreach_from q body var s =
     (case var of None \<Rightarrow> Some s | Some e \<Rightarrow> foreach_from q body (TAILQ_NEXT q e) (body e s))"

definition TAILQ_FOREACH :: "tailq \<Rightarrow> (elm \<Rightarrow> 's \<Rightarrow> 's) \<Rightarrow> 's \<Rightarrow> 's option" where
  "TAILQ_FOREACH q body s = foreach_from q body (TAILQ_FIRST q) s"

text \<open>The loop of \<^verbatim>\<open>unloadentries\<close> over the table: every element is taken out of the queue.\<close>

partial_function (option) unload_from :: "tailq \<Rightarrow> elm option \<Rightarrow> tailq option" where
  "unload_from q cte =
     (case cte of None \<Rightarrow> Some q | Some e \<Rightarrow> unload_from (TAILQ_REMOVE e q) (TAILQ_NEXT q e))"

subsection \<open>Lists\<close>

text \<open>The store holds a list: the next pointers lead through it and every prev pointer leads back.\<close>

fun chain :: "tailq \<Rightarrow> link \<Rightarrow> elm list \<Rightarrow> bool" where
  "chain q l [] \<longleftrightarrow> deref q l = None \<and> tqh_last q = l"
| "chain q l (x # xs) \<longleftrightarrow> deref q l = Some x \<and> tqe_prev q x = l \<and> chain q (Next_of x) xs"

definition holds :: "tailq \<Rightarrow> elm list \<Rightarrow> bool" where
  "holds q xs \<longleftrightarrow> distinct xs \<and> chain q Head_first xs"

text \<open>The operations, their meaning on lists, and when the code may call them.\<close>

datatype tq_op = Ins_head elm | Ins_tail elm | Ins_after elm elm | Ins_before elm elm | Rem elm | Repl elm elm

fun tq_run :: "tq_op \<Rightarrow> tailq \<Rightarrow> tailq" where
  "tq_run (Ins_head e) = TAILQ_INSERT_HEAD e"
| "tq_run (Ins_tail e) = TAILQ_INSERT_TAIL e"
| "tq_run (Ins_after l e) = TAILQ_INSERT_AFTER l e"
| "tq_run (Ins_before l e) = TAILQ_INSERT_BEFORE l e"
| "tq_run (Rem e) = TAILQ_REMOVE e"
| "tq_run (Repl e e2) = TAILQ_REPLACE e e2"

fun splice_at :: "elm \<Rightarrow> elm list \<Rightarrow> elm list \<Rightarrow> elm list" where
  "splice_at l ys [] = []"
| "splice_at l ys (x # xs) = (if x = l then ys @ xs else x # splice_at l ys xs)"

fun tq_spec :: "tq_op \<Rightarrow> elm list \<Rightarrow> elm list" where
  "tq_spec (Ins_head e) xs = e # xs"
| "tq_spec (Ins_tail e) xs = xs @ [e]"
| "tq_spec (Ins_after l e) xs = splice_at l [l, e] xs"
| "tq_spec (Ins_before l e) xs = splice_at l [e, l] xs"
| "tq_spec (Rem e) xs = splice_at e [] xs"
| "tq_spec (Repl e e2) xs = splice_at e [e2] xs"

fun tq_legal :: "tq_op \<Rightarrow> elm list \<Rightarrow> bool" where
  "tq_legal (Ins_head e) xs \<longleftrightarrow> e \<notin> set xs"
| "tq_legal (Ins_tail e) xs \<longleftrightarrow> e \<notin> set xs"
| "tq_legal (Ins_after l e) xs \<longleftrightarrow> l \<in> set xs \<and> e \<notin> set xs"
| "tq_legal (Ins_before l e) xs \<longleftrightarrow> l \<in> set xs \<and> e \<notin> set xs"
| "tq_legal (Rem e) xs \<longleftrightarrow> e \<in> set xs"
| "tq_legal (Repl e e2) xs \<longleftrightarrow> e \<in> set xs \<and> e2 \<notin> set xs"

fun all_legal :: "tq_op list \<Rightarrow> elm list \<Rightarrow> bool" where
  "all_legal [] xs \<longleftrightarrow> True"
| "all_legal (p # ps) xs \<longleftrightarrow> tq_legal p xs \<and> all_legal ps (tq_spec p xs)"

subsection \<open>Frames\<close>

fun seg :: "tailq \<Rightarrow> link \<Rightarrow> elm list \<Rightarrow> bool" where
  "seg q l [] \<longleftrightarrow> True"
| "seg q l (x # xs) \<longleftrightarrow> deref q l = Some x \<and> tqe_prev q x = l \<and> seg q (Next_of x) xs"

definition end_link :: "link \<Rightarrow> elm list \<Rightarrow> link" where
  "end_link l ys = last (l # map Next_of ys)"

definition inner_links :: "link \<Rightarrow> elm list \<Rightarrow> link set" where
  "inner_links l ys = set (butlast (l # map Next_of ys))"

lemma end_link_simps [simp]:
  "end_link l [] = l" "end_link l (y # ys) = end_link (Next_of y) ys"
  "end_link l (ys @ [y]) = Next_of y"
  by (simp_all add: end_link_def)

lemma chain_append: "chain q l (ys @ zs) \<longleftrightarrow> seg q l ys \<and> chain q (end_link l ys) zs"
  by (induction ys arbitrary: l) auto

lemma deref_updates [simp]:
  "deref (store l v q) = (deref q)(l := v)" "deref (set_prev e k q) = deref q" "deref (set_last k q) = deref q"
proof -
  have "deref (store l v q) m = ((deref q)(l := v)) m" for m by (cases l; cases m) auto
  then show "deref (store l v q) = (deref q)(l := v)" by blast
  have "deref (set_prev e k q) m = deref q m" "deref (set_last k q) m = deref q m" for m
    by (cases m; simp add: set_prev_def set_last_def)+
  then show "deref (set_prev e k q) = deref q" "deref (set_last k q) = deref q" by blast+
qed

lemma prev_last_updates [simp]:
  "tqe_prev (store l v q) = tqe_prev q" "tqh_last (store l v q) = tqh_last q"
  "tqe_prev (set_prev e k q) = (tqe_prev q)(e := k)" "tqh_last (set_prev e k q) = tqh_last q"
  "tqe_prev (set_last k q) = tqe_prev q" "tqh_last (set_last k q) = k"
  by (cases l; simp add: set_prev_def set_last_def)+

lemma deref_fields: "tqe_next q e = deref q (Next_of e)" "tqh_first q = deref q Head_first"
  by simp_all

lemma link_image [simp]: "Head_first \<notin> Next_of ` A" "Next_of e \<in> Next_of ` A \<longleftrightarrow> e \<in> A"
  by auto

declare deref.simps [simp del] store.simps [simp del]

lemma seg_frame [simp]:
  "e \<notin> set ys \<Longrightarrow> seg (set_prev e k q) l ys = seg q l ys" "seg (set_last k q) l ys = seg q l ys"
  "m \<notin> inner_links l ys \<Longrightarrow> seg (store m v q) l ys = seg q l ys"
  by (induction ys arbitrary: l) (auto simp: inner_links_def split: if_splits)

lemma chain_frame [simp]:
  "e \<notin> set zs \<Longrightarrow> chain (set_prev e k q) l zs = chain q l zs"
  "m \<noteq> l \<Longrightarrow> m \<notin> Next_of ` set zs \<Longrightarrow> chain (store m v q) l zs = chain q l zs"
  "chain (set_last k q) l (z # zs) \<longleftrightarrow>
     deref q l = Some z \<and> tqe_prev q z = l \<and> chain (set_last k q) (Next_of z) zs"
  by (induction zs arbitrary: l) auto

lemma end_link_in: "end_link l ys = l \<or> end_link l ys \<in> Next_of ` set ys"
  by (cases ys rule: rev_cases) auto

lemma end_link_new [simp]:
  "e \<notin> set ys \<Longrightarrow> end_link Head_first ys \<noteq> Next_of e" "e \<notin> set ys \<Longrightarrow> Next_of e \<noteq> end_link Head_first ys"
  "set ys \<inter> set zs = {} \<Longrightarrow> end_link Head_first ys \<notin> Next_of ` set zs"
  using end_link_in[of Head_first ys] by auto

lemma not_in_butlast [simp]:
  "distinct ys \<Longrightarrow> end_link Head_first ys \<notin> inner_links Head_first ys"
  "e \<notin> set ys \<Longrightarrow> Next_of e \<notin> inner_links Head_first ys"
proof -
  assume "distinct ys"
  then show "end_link Head_first ys \<notin> inner_links Head_first ys"
    by (cases ys rule: rev_cases) (auto simp: inner_links_def butlast_append simp flip: map_butlast dest: in_set_butlastD)
next
  assume "e \<notin> set ys"
  then show "Next_of e \<notin> inner_links Head_first ys"
    by (auto simp: inner_links_def simp flip: map_butlast dest!: in_set_butlastD)
qed

lemma splice_at_split: "l \<notin> set ys \<Longrightarrow> splice_at l es (ys @ l # zs) = ys @ es @ zs"
  by (induction ys) auto

lemma holds_split:
  "holds q (ys @ l # zs) \<longleftrightarrow> distinct (ys @ l # zs) \<and> seg q Head_first ys
     \<and> deref q (end_link Head_first ys) = Some l \<and> tqe_prev q l = end_link Head_first ys \<and> chain q (Next_of l) zs"
  by (auto simp: holds_def chain_append)

subsection \<open>Every operation refines its list operation\<close>

lemma insert_head_holds:
  assumes "holds q xs" "e \<notin> set xs" shows "holds (TAILQ_INSERT_HEAD e q) (e # xs)"
  using assms by (cases xs) (auto simp: holds_def TAILQ_INSERT_HEAD_def Let_def deref_fields)

lemma insert_tail_holds:
  assumes "holds q xs" "e \<notin> set xs" shows "holds (TAILQ_INSERT_TAIL e q) (xs @ [e])"
proof -
  have last: "tqh_last q = end_link Head_first xs" "seg q Head_first xs" "distinct xs"
    using assms(1) chain_append[of q Head_first xs "[]"] by (auto simp: holds_def)
  with assms(2) show ?thesis
    by (auto simp: holds_split TAILQ_INSERT_TAIL_def Let_def)
qed

lemma insert_after_holds:
  assumes "holds q (ys @ l # zs)" "e \<notin> set (ys @ l # zs)"
  shows "holds (TAILQ_INSERT_AFTER l e q) (ys @ l # e # zs)"
  using assms by (cases zs)
    (auto simp: holds_split TAILQ_INSERT_AFTER_def Let_def deref_fields)

lemma insert_before_holds:
  assumes "holds q (ys @ l # zs)" "e \<notin> set (ys @ l # zs)"
  shows "holds (TAILQ_INSERT_BEFORE l e q) (ys @ e # l # zs)"
  using assms by (auto simp: holds_split TAILQ_INSERT_BEFORE_def Let_def)

lemma holds_seg:
  "holds q xs \<longleftrightarrow> distinct xs \<and> seg q Head_first xs
     \<and> deref q (end_link Head_first xs) = None \<and> tqh_last q = end_link Head_first xs"
  using chain_append[of q Head_first xs "[]"] by (auto simp: holds_def)

lemma remove_holds:
  assumes "holds q (ys @ e # zs)" shows "holds (TAILQ_REMOVE e q) (ys @ zs)"
proof (cases zs)
  case Nil
  with assms show ?thesis
    by (simp add: holds_split) (simp add: holds_seg TAILQ_REMOVE_def Let_def deref_fields)
next
  case (Cons z zs')
  with assms show ?thesis
    by (auto simp: holds_split TAILQ_REMOVE_def Let_def deref_fields)
qed

lemma replace_holds:
  assumes "holds q (ys @ e # zs)" "e2 \<notin> set (ys @ e # zs)"
  shows "holds (TAILQ_REPLACE e e2 q) (ys @ e2 # zs)"
  using assms by (cases zs)
    (auto simp: holds_split TAILQ_REPLACE_def Let_def deref_fields)

lemma tq_run_holds:
  assumes "holds q xs" "tq_legal op xs" shows "holds (tq_run op q) (tq_spec op xs)"
proof -
  have split: "\<exists>ys zs. xs = ys @ l # zs \<and> l \<notin> set ys" if "l \<in> set xs" for l
    using split_list_first[OF that] by blast
  show ?thesis
  proof (cases op)
    case (Ins_after l e)
    with split[of l] assms insert_after_holds show ?thesis by (fastforce simp: splice_at_split)
  next
    case (Ins_before l e)
    with split[of l] assms insert_before_holds show ?thesis by (fastforce simp: splice_at_split)
  next
    case (Rem e)
    with split[of e] assms remove_holds show ?thesis by (fastforce simp: splice_at_split)
  next
    case (Repl e e2)
    with split[of e] assms replace_holds show ?thesis by (fastforce simp: splice_at_split)
  qed (use assms insert_head_holds insert_tail_holds in auto)
qed

lemma init_holds: "holds (TAILQ_INIT q) []"
  by (simp add: holds_def TAILQ_INIT_def)

lemma foreach_chain: "chain q l xs \<Longrightarrow> foreach_from q body (deref q l) s = Some (fold body xs s)"
proof (induction xs arbitrary: l s)
  case Nil
  then show ?case by (subst foreach_from.simps) simp
next
  case (Cons x xs)
  then show ?case by (subst foreach_from.simps) (simp add: TAILQ_NEXT_def deref_fields)
qed

lemma foreach_holds: "holds q xs \<Longrightarrow> TAILQ_FOREACH q body s = Some (fold body xs s)"
  using foreach_chain[of q Head_first xs body s] by (simp add: holds_def TAILQ_FOREACH_def TAILQ_FIRST_def deref_fields)

lemma first_holds: "holds q xs \<Longrightarrow> TAILQ_FIRST q = (case xs of [] \<Rightarrow> None | x # _ \<Rightarrow> Some x)"
  by (cases xs) (auto simp: holds_def TAILQ_FIRST_def deref_fields)

lemma next_holds: "holds q (x # xs) \<Longrightarrow> TAILQ_NEXT q x = (case xs of [] \<Rightarrow> None | y # _ \<Rightarrow> Some y)"
  by (cases xs) (auto simp: holds_def TAILQ_NEXT_def deref_fields)

subsection \<open>What the daemon relies on\<close>

text \<open>
  The contract between the queue and its user: elements go in at the end and come out
  anywhere, and first and next lead through the elements in order.
\<close>

locale tail_queue =
  fixes queue :: "'q \<Rightarrow> 'e list \<Rightarrow> bool"
    and ins :: "'e \<Rightarrow> 'q \<Rightarrow> 'q"
    and rem :: "'e \<Rightarrow> 'q \<Rightarrow> 'q"
    and first :: "'q \<Rightarrow> 'e option"
    and nxt :: "'q \<Rightarrow> 'e \<Rightarrow> 'e option"
  assumes ins_law: "queue q xs \<Longrightarrow> e \<notin> set xs \<Longrightarrow> queue (ins e q) (xs @ [e])"
    and rem_law: "queue q (ys @ e # zs) \<Longrightarrow> queue (rem e q) (ys @ zs)"
    and first_law: "queue q xs \<Longrightarrow> first q = (case xs of [] \<Rightarrow> None | x # _ \<Rightarrow> Some x)"
    and nxt_law: "queue q (x # xs) \<Longrightarrow> nxt q x = (case xs of [] \<Rightarrow> None | y # _ \<Rightarrow> Some y)"
begin

lemma fill: "queue q xs \<Longrightarrow> distinct (xs @ es) \<Longrightarrow> queue (fold ins es q) (xs @ es)"
proof (induction es arbitrary: q xs)
  case (Cons e es)
  then show ?case using Cons.IH[of "ins e q" "xs @ [e]"] ins_law[of q xs e] by auto
qed simp

lemma rem_front: "queue q (x # xs) \<Longrightarrow> queue (rem x q) xs \<and> first (rem x q) = nxt q x"
  using rem_law[of q "[]" x xs] first_law[of "rem x q" xs] nxt_law[of q x xs] by auto

end

interpretation tq: tail_queue holds TAILQ_INSERT_TAIL TAILQ_REMOVE TAILQ_FIRST TAILQ_NEXT
  by unfold_locales (auto simp: insert_tail_holds remove_holds first_holds next_holds)

lemma unload_holds: "holds q xs \<Longrightarrow> \<exists>q'. unload_from q (TAILQ_FIRST q) = Some q' \<and> holds q' []"
proof (induction xs arbitrary: q)
  case Nil
  then show ?case by (subst unload_from.simps) (simp add: first_holds)
next
  case (Cons x xs)
  with tq.rem_front[OF Cons.prems] Cons.IH[of "TAILQ_REMOVE x q"] show ?case
    by (subst unload_from.simps) (simp add: tq.first_law[OF Cons.prems])
qed

lemma tq_runs_hold: "holds q xs \<Longrightarrow> all_legal ops xs \<Longrightarrow> holds (fold tq_run ops q) (fold tq_spec ops xs)"
  by (induction ops arbitrary: q xs) (auto simp: tq_run_holds)

subsection \<open>Properties\<close>

text \<open>
  C26. The tail queue refines lists: after any sequence of insertions, removals and
  replacements that respects the rules of the macros (new elements are not in the queue,
  others are), a traversal returns and visits exactly the elements of the list obtained by
  the same operations on lists, in order; and the loop that unloads the queue returns and
  leaves it empty.
\<close>

theorem tailq_refines_list:
  assumes "all_legal ops []"
  shows "TAILQ_FOREACH (fold tq_run ops (TAILQ_INIT q)) body s = Some (fold body (fold tq_spec ops []) s)
    \<and> (\<exists>q'. unload_from (fold tq_run ops (TAILQ_INIT q)) (TAILQ_FIRST (fold tq_run ops (TAILQ_INIT q))) = Some q'
         \<and> TAILQ_EMPTY q')"
proof -
  have "holds (fold tq_run ops (TAILQ_INIT q)) (fold tq_spec ops [])"
    using tq_runs_hold[OF init_holds assms] .
  from foreach_holds[OF this, of body s] unload_holds[OF this] show ?thesis
    by (auto simp: TAILQ_EMPTY_def dest: tq.first_law)
qed

theorem tailq_refines_list_witness:
  "TAILQ_FOREACH (fold tq_run [Ins_tail 1, Ins_head 2, Ins_after 2 3, Rem 1, Repl 3 4]
     (TAILQ_INIT \<lparr>tqh_first = Some 7, tqh_last = Head_first, tqe_next = Map.empty, tqe_prev = (\<lambda>_. Head_first)\<rparr>))
     (#) [] = Some [4, 2]"
  using tailq_refines_list[of "[Ins_tail 1, Ins_head 2, Ins_after 2 3, Rem 1, Repl 3 4]" _ "(#)" "[]"] by simp

end
