(* ===== verification/Seccrond.thy ===== *)
theory Seccrond
  imports C_Stdlib Tailq
begin

text \<open>
  The cron daemon with seconds (\<^verbatim>\<open>src/src/seccrond/seccrond.c\<close>): parsing the table, matching
  its entries against the clock, starting and reaping jobs, and the main loop with its
  signal handler.

  The two tail queues are lists; \<open>Tailq\<close> shows that the macros behave like that. A field
  of the table is parsed into heap memory: \<open>None\<close> is undefined behaviour there, a write
  behind the allocated array or the use of an uninitialised variable. Memory allocation is
  taken to succeed. The main loop is a machine with one step for every read or write of a
  variable that the signal handler writes too, so that signals come in between them.
\<close>

subsection \<open>The table\<close>

datatype field_type = ERROR | WILDCARD | NUMBER | RANGE | REPEAT | LIST

record field =
  ftype :: field_type
  fval :: "int list"

record ctabentry =
  sec_f :: field
  min_f :: field
  hour_f :: field
  mday_f :: field
  mon_f :: field
  wday_f :: field
  cmd :: string

record jobentry =
  jcmd :: string
  jpid :: int

record tm =
  tm_sec :: int
  tm_min :: int
  tm_hour :: int
  tm_mday :: int
  tm_mon :: int
  tm_year :: int
  tm_wday :: int

subsection \<open>Matching\<close>

definition isleap :: "int \<Rightarrow> bool" where
  "isleap year =
     (if year mod 400 = 0 then True else if year mod 100 = 0 then False else year mod 4 = 0)"

definition daysinmon :: "int \<Rightarrow> int \<Rightarrow> int" where
  "daysinmon mon year =
     (let days = [31, 28, 31, 30, 31, 30, 31, 31, 30, 31, 30, 31];
          year' = (if year < 1900 then year + 1900 else year);
          days' = (if isleap year' then days[1 := 29] else days)
      in days' ! nat mon)"

fun field_match :: "field \<times> int \<times> int \<Rightarrow> bool" where
  "field_match (f, now, len) =
     (case ftype f of
        WILDCARD \<Rightarrow> True
      | NUMBER \<Rightarrow> fval f ! 0 = now
      | RANGE \<Rightarrow> fval f ! 0 \<le> now \<and> fval f ! 1 \<ge> now
      | REPEAT \<Rightarrow> if now > 0 then now mod (fval f ! 0) = 0 else len mod (fval f ! 0) = 0
      | LIST \<Rightarrow> now \<in> set (fval f)
      | ERROR \<Rightarrow> False)"

definition matchtbl :: "ctabentry \<Rightarrow> tm \<Rightarrow> (field \<times> int \<times> int) list" where
  "matchtbl cte tm =
     [(sec_f cte, tm_sec tm, 60), (min_f cte, tm_min tm, 60), (hour_f cte, tm_hour tm, 24),
      (mday_f cte, tm_mday tm, daysinmon (tm_mon tm) (tm_year tm)),
      (mon_f cte, tm_mon tm, 12), (wday_f cte, tm_wday tm, 7)]"

definition matchentry :: "ctabentry \<Rightarrow> tm \<Rightarrow> bool" where
  "matchentry cte tm = list_all field_match (matchtbl cte tm)"

subsection \<open>Parsing a field\<close>

text \<open>The check at the end of the function: \<open>Some None\<close> is the return value -1.\<close>

definition check_field :: "int \<Rightarrow> int \<Rightarrow> field_type \<Rightarrow> int list \<Rightarrow> field option" where
  "check_field low high ty vs =
     (if list_all (\<lambda>v. low \<le> v \<and> v \<le> high) vs then Some \<lparr>ftype = ty, fval = vs\<rparr> else None)"

text \<open>
  The loop over the numbers of a list, into an array of \<open>cap\<close> numbers. The commas were
  counted only up to the first character that is neither a comma nor a digit.
\<close>

function list_loop :: "nat \<Rightarrow> int list \<Rightarrow> string \<Rightarrow> bool \<Rightarrow> (int list \<times> string \<times> bool) option" where
  "list_loop cap vs e1 errno =
     (if take 1 e1 = '','' \<and> \<not> errno then
        if length vs \<ge> cap then None
        else (case strtol (tl e1) of (v, e2, er) \<Rightarrow> list_loop cap (vs @ [v]) e2 er)
      else Some (vs, e1, errno))"
  by pat_completeness auto
termination
  by (relation "measure (\<lambda>(cap, vs, e1, errno). cap - length vs)") auto

declare list_loop.simps [simp del]

definition count_commas :: "string \<Rightarrow> nat" where
  "count_commas p = length (filter (\<lambda>c. c = CHR '','') (takeWhile (\<lambda>c. isdigit c \<or> c = CHR '','') p))"

definition parse_repeat :: "string \<Rightarrow> int \<Rightarrow> int \<Rightarrow> field option" where
  "parse_repeat field low high =
     (case strtol (drop 2 field) of
        (v, e1, er) \<Rightarrow> if e1 \<noteq> [] \<or> er \<or> v = 0 then None else check_field low high REPEAT [v])"

definition parse_number :: "string \<Rightarrow> int \<Rightarrow> int \<Rightarrow> field option" where
  "parse_number field low high =
     (case strtol field of
        (v, e1, er) \<Rightarrow> if e1 \<noteq> [] \<or> er then None else check_field low high NUMBER [v])"

definition parse_range :: "string \<Rightarrow> int \<Rightarrow> int \<Rightarrow> field option" where
  "parse_range field low high =
     (case strtol field of
        (v, e1, er) \<Rightarrow>
          if take 1 e1 \<noteq> ''-'' \<or> er then None
          else (case strtol (tl e1) of
                  (w, e2, er2) \<Rightarrow> if e2 \<noteq> [] \<or> er2 then None else check_field low high RANGE [v, w]))"

definition parse_list :: "string \<Rightarrow> string \<Rightarrow> int \<Rightarrow> int \<Rightarrow> field option option" where
  "parse_list field p low high =
     (let cap = 1 + count_commas p
      in case strtol field of
           (v, e1, er) \<Rightarrow>
             if v < low \<or> v > high then Some None
             else (case list_loop cap [v] e1 er of
                     None \<Rightarrow> None
                   | Some (vs, e, er') \<Rightarrow>
                       if e \<noteq> [] \<or> er' then Some None
                       else if length vs < cap then None
                       else Some (check_field low high LIST vs)))"

text \<open>
  A star that is neither alone nor in front of a slash leaves the field as malloc returned
  it, and its garbage is examined and freed.
\<close>

definition parsefield :: "string \<Rightarrow> int \<Rightarrow> int \<Rightarrow> field option option" where
  "parsefield field low high =
     (let p = dropWhile isdigit field
      in if p = [] then Some (parse_number field low high)
         else if hd p = CHR ''*'' then
           (if field = ''*'' then Some (check_field low high WILDCARD [])
            else if take 2 field = ''*/'' then Some (parse_repeat field low high)
            else None)
         else if hd p = CHR ''-'' then Some (parse_range field low high)
         else if hd p = CHR '','' then parse_list field p low high
         else Some None)"

subsection \<open>Parsing the table\<close>

text \<open>strsep: the token up to a delimiter and the rest behind it, a null pointer at the end.\<close>

fun strsep :: "string \<Rightarrow> string option \<Rightarrow> string option \<times> string option" where
  "strsep delims None = (None, None)"
| "strsep delims (Some s) =
     (let r = dropWhile (\<lambda>c. c \<notin> set delims) s
      in (Some (takeWhile (\<lambda>c. c \<notin> set delims) s), if r = [] then None else Some (tl r)))"

definition column_seps :: string where "column_seps = [CHR 0x09, CHR 0x0A, CHR '' '']"

function next_col :: "string option \<Rightarrow> string option \<times> string option" where
  "next_col p =
     (case strsep column_seps p of
        (Some [], p') \<Rightarrow> next_col p'
      | (col, p') \<Rightarrow> (col, p'))"
  by pat_completeness auto
termination
proof (relation "measure (\<lambda>p. case p of None \<Rightarrow> 0 | Some s \<Rightarrow> Suc (length s))", goal_cases)
  case (2 p x p' a)
  then show ?case
    by (cases p) (auto simp: Let_def length_dropWhile_le less_Suc_eq_le le_diff_conv
        intro: order_trans[OF _ length_dropWhile_le] split: if_splits)
qed simp

declare next_col.simps [simp del]

definition flim :: "(string \<times> int \<times> int) list" where
  "flim = [(''sec'', 0, 59), (''min'', 0, 59), (''hour'', 0, 23), (''mday'', 1, 31),
     (''mon'', 1, 12), (''wday'', 0, 6)]"

text \<open>The columns of a line, or the name of the column that is missing or malformed.\<close>

fun parse_cols :: "(string \<times> int \<times> int) list \<Rightarrow> string option \<Rightarrow> (string + field list \<times> string option) option" where
  "parse_cols [] p = Some (Inr ([], p))"
| "parse_cols ((name, lo, hi) # ls) p =
     (case next_col p of
        (None, _) \<Rightarrow> Some (Inl name)
      | (Some col, p') \<Rightarrow>
          (case parsefield col lo hi of
             None \<Rightarrow> None
           | Some None \<Rightarrow> Some (Inl name)
           | Some (Some f) \<Rightarrow>
               (case parse_cols ls p' of
                  None \<Rightarrow> None
                | Some (Inl n) \<Rightarrow> Some (Inl n)
                | Some (Inr (fs, q)) \<Rightarrow> Some (Inr (f # fs, q)))))"

definition isblank :: "char \<Rightarrow> bool" where "isblank c \<longleftrightarrow> c = CHR 0x09 \<or> c = CHR '' ''"

definition parse_row :: "string \<Rightarrow> (string + ctabentry) option" where
  "parse_row line =
     (case parse_cols flim (Some line) of
        None \<Rightarrow> None
      | Some (Inl name) \<Rightarrow> Some (Inl name)
      | Some (Inr (fs, p)) \<Rightarrow>
          (case strsep [CHR 0x0A] p of
             (None, _) \<Rightarrow> Some (Inl ''cmd'')
           | (Some col, _) \<Rightarrow>
               let c = dropWhile isblank col
               in if c = [] then Some (Inl ''cmd'')
                  else Some (Inr \<lparr>sec_f = fs ! 0, min_f = fs ! 1, hour_f = fs ! 2, mday_f = fs ! 3,
                                   mon_f = fs ! 4, wday_f = fs ! 5, cmd = c\<rparr>)))"

datatype cron_msg =
    Cannot_open | Bad_field string nat | Discarding
  | Already_running string int | Fork_failed string | Run string int
  | Returned int int | Terminated int int | Stopped int int

fun getlines :: "string \<Rightarrow> string list" where
  "getlines [] = []"
| "getlines (c # cs) =
     (if c = CHR 0x0A then [c] # getlines cs
      else (case getlines cs of [] \<Rightarrow> [[c]] | l # ls \<Rightarrow> (c # l) # ls))"

definition skipped_row :: "string \<Rightarrow> bool" where
  "skipped_row line \<longleftrightarrow> line = [] \<or> hd line = CHR ''#'' \<or> hd line = CHR 0x0A"

fun load_rows :: "nat \<Rightarrow> string list \<Rightarrow> ctabentry list \<Rightarrow> (int \<times> ctabentry list \<times> cron_msg list) option" where
  "load_rows y [] tab = Some (0, tab, [])"
| "load_rows y (l # ls) tab =
     (let line = cstr l
      in if skipped_row line then load_rows (y + 1) ls tab
         else (case parse_row line of
                 None \<Rightarrow> None
               | Some (Inl name) \<Rightarrow> Some (-1, [], [Bad_field name (y + 1)])
               | Some (Inr e) \<Rightarrow> load_rows (y + 1) ls (tab @ [e])))"

definition loadentries :: "string option \<Rightarrow> ctabentry list \<Rightarrow> (int \<times> ctabentry list \<times> cron_msg list) option" where
  "loadentries conf tab =
     (case conf of
        None \<Rightarrow> Some (-1, tab, [Cannot_open])
      | Some text \<Rightarrow> load_rows 0 (getlines text) tab)"

definition unloadentries :: "ctabentry list \<Rightarrow> ctabentry list" where
  "unloadentries tab = fold (\<lambda>_ t. tl t) tab tab"

definition reloadentries :: "string option \<Rightarrow> ctabentry list \<Rightarrow> (ctabentry list \<times> cron_msg list) option" where
  "reloadentries conf tab =
     (case loadentries conf (unloadentries tab) of
        None \<Rightarrow> None
      | Some (r, tab', ms) \<Rightarrow> Some (tab', ms @ (if r < 0 then [Discarding] else [])))"

subsection \<open>The daemon\<close>

datatype wait_status = Exited int | Signaled int | Stopped_by int

datatype cron_pc =
    P_sleep | P_quit | P_flags | P_reload | P_reload_clear | P_child | P_child_clear
  | P_jobs "ctabentry list" | P_exit | P_fault

record cron =
  ctabhead :: "ctabentry list"
  jobhead :: "jobentry list"
  chldreap :: bool
  reload :: bool
  quit :: bool
  pc :: cron_pc
  reports :: "(int \<times> wait_status) list"
  pid_file :: bool
  syslog :: "cron_msg list"

definition runjob :: "int \<Rightarrow> string \<Rightarrow> cron \<Rightarrow> cron" where
  "runjob fork_pid c s =
     (case find (\<lambda>je. jcmd je = c) (jobhead s) of
        Some je \<Rightarrow> s\<lparr>syslog := syslog s @ [Already_running (jcmd je) (jpid je)]\<rparr>
      | None \<Rightarrow>
          if fork_pid < 0 then s\<lparr>syslog := syslog s @ [Fork_failed c]\<rparr>
          else s\<lparr>jobhead := jobhead s @ [\<lparr>jcmd = c, jpid = fork_pid\<rparr>], syslog := syslog s @ [Run c fork_pid]\<rparr>)"

fun status_msg :: "int \<Rightarrow> wait_status \<Rightarrow> cron_msg" where
  "status_msg pid (Exited n) = Returned pid n"
| "status_msg pid (Signaled n) = Terminated pid n"
| "status_msg pid (Stopped_by n) = Stopped pid n"

fun remove_pid :: "int \<Rightarrow> jobentry list \<Rightarrow> jobentry list" where
  "remove_pid pid [] = []"
| "remove_pid pid (je # jes) = (if jpid je = pid then jes else je # remove_pid pid jes)"

definition wait_one :: "int \<times> wait_status \<Rightarrow> cron \<Rightarrow> cron" where
  "wait_one r s = s\<lparr>jobhead := remove_pid (fst r) (jobhead s), syslog := syslog s @ [status_msg (fst r) (snd r)]\<rparr>"

text \<open>waitpid returns the reports of the kernel one after the other until there are none.\<close>

definition waitjob :: "cron \<Rightarrow> cron" where
  "waitjob s = (fold wait_one (reports s) s)\<lparr>reports := []\<rparr>"

datatype cron_signal = SIGCHLD | SIGHUP | SIGTERM

fun sighandler :: "cron_signal \<Rightarrow> cron \<Rightarrow> cron" where
  "sighandler SIGCHLD s = s\<lparr>chldreap := True\<rparr>"
| "sighandler SIGHUP s = s\<lparr>reload := True\<rparr>"
| "sighandler SIGTERM s = s\<lparr>quit := True\<rparr>"

text \<open>
  What the world does: a signal, a child that ends or stops (which sends a signal too), or
  time for the next step of the loop, with the clock, the result of a fork and the contents
  of the configuration file at that moment.
\<close>

record cron_input =
  now :: tm
  fork_pid :: int
  conf :: "string option"

datatype cron_event = Deliver cron_signal | Child int wait_status | Advance cron_input

definition cron_advance :: "bool \<Rightarrow> cron_input \<Rightarrow> cron \<Rightarrow> cron" where
  "cron_advance nflag i s =
     (case pc s of
        P_sleep \<Rightarrow> s\<lparr>pc := P_quit\<rparr>
      | P_quit \<Rightarrow>
          if quit s then s\<lparr>pc := P_exit, pid_file := (nflag \<and> pid_file s), ctabhead := unloadentries (ctabhead s)\<rparr>
          else s\<lparr>pc := P_flags\<rparr>
      | P_flags \<Rightarrow> if reload s \<or> chldreap s then s\<lparr>pc := P_reload\<rparr> else s\<lparr>pc := P_jobs (ctabhead s)\<rparr>
      | P_reload \<Rightarrow>
          if reload s then
            (case reloadentries (conf i) (ctabhead s) of
               None \<Rightarrow> s\<lparr>pc := P_fault\<rparr>
             | Some (tab, ms) \<Rightarrow> s\<lparr>pc := P_reload_clear, ctabhead := tab, syslog := syslog s @ ms\<rparr>)
          else s\<lparr>pc := P_child\<rparr>
      | P_reload_clear \<Rightarrow> s\<lparr>reload := False, pc := P_child\<rparr>
      | P_child \<Rightarrow> if chldreap s then (waitjob s)\<lparr>pc := P_child_clear\<rparr> else s\<lparr>pc := P_sleep\<rparr>
      | P_child_clear \<Rightarrow> s\<lparr>chldreap := False, pc := P_sleep\<rparr>
      | P_jobs [] \<Rightarrow> s\<lparr>pc := P_sleep\<rparr>
      | P_jobs (cte # ctes) \<Rightarrow>
          (if matchentry cte (now i) then runjob (fork_pid i) (cmd cte) s else s)\<lparr>pc := P_jobs ctes\<rparr>
      | P_exit \<Rightarrow> s
      | P_fault \<Rightarrow> s)"

fun cron_step :: "bool \<Rightarrow> cron_event \<Rightarrow> cron \<Rightarrow> cron" where
  "cron_step nflag (Deliver sg) s = sighandler sg s"
| "cron_step nflag (Child pid st) s = sighandler SIGCHLD (s\<lparr>reports := reports s @ [(pid, st)]\<rparr>)"
| "cron_step nflag (Advance i) s = cron_advance nflag i s"

subsection \<open>The command line\<close>

record cron_opts =
  nflag :: bool
  config :: string
  pidfile :: string

definition cron_defaults :: cron_opts where
  "cron_defaults = \<lparr>nflag = False, config = ''/etc/crontab'', pidfile = ''/var/run/crond.pid''\<rparr>"

datatype 'a arg_result = Usage | Arg_fault | Args 'a

definition set_cron_opt :: "char \<Rightarrow> string \<Rightarrow> cron_opts \<Rightarrow> cron_opts" where
  "set_cron_opt c a o1 = (if c = CHR ''f'' then o1\<lparr>config := a\<rparr> else o1\<lparr>pidfile := a\<rparr>)"

text \<open>
  The characters of one word of options: an argument is the rest of the word or the next
  word. After an empty next word the loop looks behind its end.
\<close>

fun arg_chars :: "cron_opts \<Rightarrow> string \<Rightarrow> string list \<Rightarrow> (cron_opts \<times> string list) arg_result" where
  "arg_chars o1 [] ws = Args (o1, ws)"
| "arg_chars o1 (c # cs) ws =
     (if c = CHR ''n'' then arg_chars (o1\<lparr>nflag := True\<rparr>) cs ws
      else if c = CHR ''f'' \<or> c = CHR ''p'' then
        (if cs \<noteq> [] then Args (set_cron_opt c cs o1, ws)
         else (case ws of
                 [] \<Rightarrow> Usage
               | w # ws' \<Rightarrow> if w = [] then Arg_fault else Args (set_cron_opt c w o1, ws')))
      else Usage)"

lemma arg_chars_shorter: "arg_chars o1 cs ws = Args (o2, ws') \<Longrightarrow> length ws' \<le> length ws"
  by (induction o1 cs ws arbitrary: o2 ws' rule: arg_chars.induct) (auto split: if_splits list.splits)

function cron_args :: "cron_opts \<Rightarrow> string list \<Rightarrow> cron_opts arg_result" where
  "cron_args o1 ws =
     (case ws of
        [] \<Rightarrow> Args o1
      | w # ws' \<Rightarrow>
          if w = [] then Arg_fault
          else if tl w \<noteq> [] \<and> hd w = CHR ''-'' then
            (if w = ''--'' then (if ws' = [] then Args o1 else Usage)
             else (case arg_chars o1 (tl w) ws' of
                     Usage \<Rightarrow> Usage
                   | Arg_fault \<Rightarrow> Arg_fault
                   | Args (o2, ws2) \<Rightarrow> cron_args o2 ws2))
          else Usage)"
  by pat_completeness auto
termination
  by (relation "measure (\<lambda>(o1, ws). length ws)") (auto dest: arg_chars_shorter)

declare cron_args.simps [simp del]

text \<open>
  The start of the daemon: \<open>daemonizes\<close> and \<open>pid_opens\<close> are the outcomes of daemon and of
  opening the pid file.
\<close>

datatype cron_start = Start_usage | Start_fault | Start_failed | Started cron_opts cron

definition cron_main :: "string list \<Rightarrow> (string \<Rightarrow> string option) \<Rightarrow> bool \<Rightarrow> bool \<Rightarrow> cron_start" where
  "cron_main argv files daemonizes pid_opens =
     (case cron_args cron_defaults argv of
        Usage \<Rightarrow> Start_usage
      | Arg_fault \<Rightarrow> Start_fault
      | Args opts \<Rightarrow>
          if \<not> nflag opts \<and> \<not> daemonizes then Start_failed
          else (case loadentries (files (config opts)) [] of
                  None \<Rightarrow> Start_fault
                | Some (r, tab, ms) \<Rightarrow>
                    Started opts \<lparr>ctabhead = tab, jobhead = [], chldreap = False, reload = False,
                      quit = False, pc = P_sleep, reports = [],
                      pid_file = (\<not> nflag opts \<and> pid_opens), syslog = ms\<rparr>))"

subsection \<open>The notation of the table\<close>

text \<open>
  What the manual describes: the kinds of values, their texts, which of them a column
  takes, the parsed field, and when a value holds at a time \<open>t\<close>. A table is a list of lines:
  comments, empty lines and jobs, with any number of blanks between the columns.
\<close>

datatype cron_spec = Any | Every nat | At nat | Between nat nat | Among "nat list"

fun join_commas :: "nat list \<Rightarrow> string" where
  "join_commas [] = []"
| "join_commas [n] = show_nat n"
| "join_commas (n # ns) = show_nat n @ '','' @ join_commas ns"

fun spec_text :: "cron_spec \<Rightarrow> string" where
  "spec_text Any = ''*''"
| "spec_text (Every n) = ''*/'' @ show_nat n"
| "spec_text (At n) = show_nat n"
| "spec_text (Between a b) = show_nat a @ ''-'' @ show_nat b"
| "spec_text (Among ns) = join_commas ns"

fun spec_ok :: "int \<Rightarrow> int \<Rightarrow> cron_spec \<Rightarrow> bool" where
  "spec_ok lo hi Any \<longleftrightarrow> True"
| "spec_ok lo hi (Every n) \<longleftrightarrow> 0 < n \<and> lo \<le> int n \<and> int n \<le> hi"
| "spec_ok lo hi (At n) \<longleftrightarrow> lo \<le> int n \<and> int n \<le> hi"
| "spec_ok lo hi (Between a b) \<longleftrightarrow> lo \<le> int a \<and> int a \<le> hi \<and> lo \<le> int b \<and> int b \<le> hi"
| "spec_ok lo hi (Among ns) \<longleftrightarrow> 2 \<le> length ns \<and> list_all (\<lambda>n. lo \<le> int n \<and> int n \<le> hi) ns"

fun spec_field :: "cron_spec \<Rightarrow> field" where
  "spec_field Any = \<lparr>ftype = WILDCARD, fval = []\<rparr>"
| "spec_field (Every n) = \<lparr>ftype = REPEAT, fval = [int n]\<rparr>"
| "spec_field (At n) = \<lparr>ftype = NUMBER, fval = [int n]\<rparr>"
| "spec_field (Between a b) = \<lparr>ftype = RANGE, fval = [int a, int b]\<rparr>"
| "spec_field (Among ns) = \<lparr>ftype = LIST, fval = map int ns\<rparr>"

fun spec_holds :: "int \<Rightarrow> cron_spec \<Rightarrow> int \<Rightarrow> bool" where
  "spec_holds len Any t \<longleftrightarrow> True"
| "spec_holds len (Every n) t \<longleftrightarrow> int n dvd (if t > 0 then t else len)"
| "spec_holds len (At n) t \<longleftrightarrow> t = int n"
| "spec_holds len (Between a b) t \<longleftrightarrow> int a \<le> t \<and> t \<le> int b"
| "spec_holds len (Among ns) t \<longleftrightarrow> t \<in> int ` set ns"

record cron_job =
  job_lead :: string
  job_specs :: "cron_spec list"
  job_seps :: "string list"
  job_cmd :: string

datatype cron_item = Comment string | Empty_line | Job cron_job

fun cols_text :: "cron_spec list \<Rightarrow> string list \<Rightarrow> string" where
  "cols_text (f # fs) (sep # seps) = spec_text f @ sep @ cols_text fs seps"
| "cols_text _ _ = []"

definition job_text :: "cron_job \<Rightarrow> string" where
  "job_text j = job_lead j @ cols_text (job_specs j) (job_seps j) @ job_cmd j"

fun item_text :: "cron_item \<Rightarrow> string" where
  "item_text (Comment t) = ''#'' @ t @ [CHR 0x0A]"
| "item_text Empty_line = [CHR 0x0A]"
| "item_text (Job j) = job_text j @ [CHR 0x0A]"

definition specs_ok :: "(string \<times> int \<times> int) list \<Rightarrow> cron_spec list \<Rightarrow> bool" where
  "specs_ok = list_all2 (\<lambda>(name, lo, hi) f. spec_ok lo hi f)"

definition job_ok :: "cron_job \<Rightarrow> bool" where
  "job_ok j \<longleftrightarrow> specs_ok flim (job_specs j) \<and> length (job_seps j) = 6
     \<and> list_all (\<lambda>sep. sep \<noteq> [] \<and> list_all isblank sep) (job_seps j) \<and> list_all isblank (job_lead j)
     \<and> job_cmd j \<noteq> [] \<and> \<not> isblank (hd (job_cmd j)) \<and> CHR 0x0A \<notin> set (job_cmd j) \<and> CHR 0x00 \<notin> set (job_cmd j)"

fun item_ok :: "cron_item \<Rightarrow> bool" where
  "item_ok (Comment t) \<longleftrightarrow> CHR 0x0A \<notin> set t"
| "item_ok Empty_line \<longleftrightarrow> True"
| "item_ok (Job j) \<longleftrightarrow> job_ok j"

definition job_entry :: "cron_job \<Rightarrow> ctabentry" where
  "job_entry j = (let fs = map spec_field (job_specs j)
     in \<lparr>sec_f = fs ! 0, min_f = fs ! 1, hour_f = fs ! 2, mday_f = fs ! 3, mon_f = fs ! 4, wday_f = fs ! 5, cmd = job_cmd j\<rparr>)"

fun items_entries :: "cron_item list \<Rightarrow> ctabentry list" where
  "items_entries [] = []"
| "items_entries (Job j # is) = job_entry j # items_entries is"
| "items_entries (_ # is) = items_entries is"

definition tm_fields :: "tm \<Rightarrow> (int \<times> int) list" where
  "tm_fields t = [(tm_sec t, 60), (tm_min t, 60), (tm_hour t, 24), (tm_mday t, daysinmon (tm_mon t) (tm_year t)),
     (tm_mon t, 12), (tm_wday t, 7)]"

definition field_char :: "char \<Rightarrow> bool" where
  "field_char c \<longleftrightarrow> isdigit c \<or> c \<in> {CHR ''*'', CHR ''/'', CHR ''-'', CHR '',''}"

subsection \<open>Reachable states\<close>

text \<open>
  What the parser promises of a field (so that matching reads only numbers that are there
  and does not divide by zero), the states the daemon can reach, and an invariant of them.
\<close>

definition in_range :: "int \<Rightarrow> int \<Rightarrow> int list \<Rightarrow> bool" where
  "in_range lo hi vs \<longleftrightarrow> list_all (\<lambda>v. lo \<le> v \<and> v \<le> hi) vs"

definition field_ok :: "int \<Rightarrow> int \<Rightarrow> field \<Rightarrow> bool" where
  "field_ok lo hi f \<longleftrightarrow> in_range lo hi (fval f) \<and>
     (case ftype f of
        ERROR \<Rightarrow> False
      | WILDCARD \<Rightarrow> fval f = []
      | NUMBER \<Rightarrow> length (fval f) = 1
      | RANGE \<Rightarrow> length (fval f) = 2
      | REPEAT \<Rightarrow> length (fval f) = 1 \<and> fval f ! 0 \<noteq> 0
      | LIST \<Rightarrow> fval f \<noteq> [])"

definition entry_ok :: "ctabentry \<Rightarrow> bool" where
  "entry_ok e \<longleftrightarrow> list_all2 (\<lambda>(name, lo, hi) f. field_ok lo hi f) flim
       [sec_f e, min_f e, hour_f e, mday_f e, mon_f e, wday_f e] \<and> cmd e \<noteq> []"

inductive cron_reach :: "bool \<Rightarrow> cron \<Rightarrow> bool" where
  start: "cron_main argv files daemonizes pid_opens = Started opts s \<Longrightarrow> cron_reach (nflag opts) s"
| step: "cron_reach n s \<Longrightarrow> cron_reach n (cron_step n ev s)"

definition cron_inv :: "cron \<Rightarrow> bool" where
  "cron_inv s \<longleftrightarrow> distinct (map jcmd (jobhead s)) \<and> list_all entry_ok (ctabhead s)
     \<and> (\<forall>es. pc s = P_jobs es \<longrightarrow> list_all entry_ok es)"

definition job_forgotten :: "jobentry \<Rightarrow> wait_status \<Rightarrow> cron \<Rightarrow> bool" where
  "job_forgotten j st s \<longleftrightarrow> j \<in> set (jobhead s) \<and> (jpid j, st) \<in> set (reports s) \<and> \<not> reload s \<and> \<not> quit s
     \<and> (pc s = P_child_clear \<or> \<not> chldreap s \<and> (pc s \<in> {P_sleep, P_quit, P_flags} \<or> (\<exists>es. pc s = P_jobs es)))"

definition demo_job :: cron_job where
  "demo_job = \<lparr>job_lead = [], job_specs = [Every 5, Any, Any, Any, At 12, Any],
     job_seps = ['' '', '' '', '' '', '' '', '' '', '' ''], job_cmd = ''date''\<rparr>"

definition demo_tm :: "int \<Rightarrow> int \<Rightarrow> tm" where
  "demo_tm s mon = \<lparr>tm_sec = s, tm_min = 0, tm_hour = 6, tm_mday = 1, tm_mon = mon, tm_year = 126, tm_wday = 4\<rparr>"

definition demo_cron :: cron where
  "demo_cron = \<lparr>ctabhead = [], jobhead = [], chldreap = False, reload = False,
                      quit = False, pc = P_sleep, reports = [], pid_file = True, syslog = []\<rparr>"

subsection \<open>Reading the table\<close>

lemma field_match_spec: "field_match (spec_field f, t, len) \<longleftrightarrow> spec_holds len f t"
  by (cases f) (auto simp: dvd_eq_mod_eq_0)

lemma clamp_small: "0 \<le> v \<Longrightarrow> v < 2 ^ 63 \<Longrightarrow> clamp_long v = v"
  by (simp add: clamp_long_def)

lemma drop_digits:
  "dropWhile isdigit (show_nat n) = []" "r \<noteq> [] \<Longrightarrow> \<not> isdigit (hd r) \<Longrightarrow> dropWhile isdigit (show_nat n @ r) = r"
  using show_nat_digits[of n] by (auto simp: dropWhile_append2 dropWhile_eq_Nil_conv) (cases r; auto simp: dropWhile_append2)

lemma not_digits [simp]: "\<not> isdigit (CHR ''*'')" "\<not> isdigit (CHR ''-'')" "\<not> isdigit (CHR '','')" "\<not> isdigit (CHR ''/'')"
  by (simp_all add: isdigit_def)

lemma strtol_all: "int n < 2 ^ 63 \<Longrightarrow> strtol (show_nat n) = (int n, [], False)"
  using strtol_show[of n "[]"] by simp

lemma count_commas_join: "count_commas (join_commas ns) = length ns - 1"
proof (induction ns rule: join_commas.induct)
  case (2 n)
  have "takeWhile (\<lambda>c. isdigit c \<or> c = CHR '','') (show_nat n) = show_nat n"
    using show_nat_digits by (simp add: takeWhile_eq_all_conv)
  moreover have "filter (\<lambda>c. c = CHR '','') (show_nat n) = []"
    using show_nat_digits[of n] by (auto simp: filter_empty_conv)
  ultimately show ?case by (simp only: count_commas_def join_commas.simps) simp
next
  case (3 n m ns)
  have "takeWhile (\<lambda>c. isdigit c \<or> c = CHR '','') (show_nat n @ r) = show_nat n @ takeWhile (\<lambda>c. isdigit c \<or> c = CHR '','') r" for r
    using show_nat_digits by (simp add: takeWhile_append2)
  moreover have "filter (\<lambda>c. c = CHR '','') (show_nat n) = []"
    using show_nat_digits[of n] by (auto simp: filter_empty_conv)
  ultimately show ?case using 3 by (simp add: count_commas_def)
qed (simp add: count_commas_def)

lemma list_loop_join:
  assumes "list_all (\<lambda>n. int n < 2 ^ 63) ns" "length vs + length ns \<le> cap" "ns \<noteq> []"
  shows "list_loop cap vs ('','' @ join_commas ns) False = Some (vs @ map int ns, [], False)"
  using assms
proof (induction ns arbitrary: vs rule: join_commas.induct)
  case (2 n)
  then show ?case
    by (subst list_loop.simps) (simp add: strtol_all list_loop.simps[of _ _ "[]"])
next
  case (3 n m ns)
  have "strtol (show_nat n @ '','' @ join_commas (m # ns)) = (int n, '','' @ join_commas (m # ns), False)"
    using 3 by (intro strtol_show) auto
  then show ?case using 3
    by (subst list_loop.simps) simp
qed simp

lemma parsefield_text:
  assumes "spec_ok lo hi f" "hi < 2 ^ 63"
  shows "parsefield (spec_text f) lo hi = Some (Some (spec_field f))"
proof (cases f)
  case Any
  then show ?thesis by (simp add: parsefield_def check_field_def)
next
  case (Every n)
  with assms show ?thesis
    by (simp add: parsefield_def parse_repeat_def strtol_all check_field_def)
next
  case (At n)
  with assms show ?thesis
    by (simp add: parsefield_def parse_number_def strtol_all check_field_def drop_digits)
next
  case (Between a b)
  with assms show ?thesis using strtol_show[of a "''-'' @ show_nat b"]
    by (simp add: parsefield_def parse_range_def strtol_all check_field_def drop_digits)
next
  case (Among ns)
  with assms(1) obtain n m ns' where ns: "ns = n # m # ns'" by (cases ns; cases "tl ns") auto
  have small: "int n < 2 ^ 63" "list_all (\<lambda>n. int n < 2 ^ 63) (m # ns')" and
    range: "lo \<le> int n" "int n \<le> hi" "list_all (\<lambda>v. lo \<le> v \<and> v \<le> hi) (map int ns)"
    using assms Among ns by (auto simp: list_all_iff)
  have p: "dropWhile isdigit (join_commas ns) = '','' @ join_commas (m # ns')"
    using drop_digits(2)[of "'','' @ join_commas (m # ns')" n] by (simp add: ns)
  have cc: "count_commas ('','' @ join_commas (m # ns')) = length (m # ns')"
    using count_commas_join[of "m # ns'"] by (simp add: count_commas_def)
  have st: "strtol (join_commas ns) = (int n, '','' @ join_commas (m # ns'), False)"
    using strtol_show[of n "'','' @ join_commas (m # ns')"] small by (simp add: ns)
  have ll: "list_loop (1 + length (m # ns')) [int n] ('','' @ join_commas (m # ns')) False = Some (map int ns, [], False)"
    using list_loop_join[OF small(2), of "[int n]" "1 + length (m # ns')"] by (simp add: ns)
  have "parse_list (join_commas ns) ('','' @ join_commas (m # ns')) lo hi = Some (Some (spec_field f))"
    using range st ll unfolding parse_list_def Let_def cc by (simp add: check_field_def Among ns)
  then show ?thesis using p by (simp add: parsefield_def Among)
qed

lemma digit_not_sep: "isdigit c \<Longrightarrow> c \<notin> set column_seps \<and> c \<noteq> CHR 0x00 \<and> c \<noteq> CHR 0x0A \<and> c \<noteq> CHR ''#''"
  by (auto simp: isdigit_def column_seps_def)

lemma field_char_facts: "field_char c \<Longrightarrow> c \<notin> set column_seps \<and> c \<noteq> CHR 0x00 \<and> c \<noteq> CHR 0x0A \<and> c \<noteq> CHR ''#'' \<and> \<not> isblank c"
  using digit_not_sep[of c] by (auto simp: field_char_def column_seps_def isblank_def)

lemma join_commas_chars: "\<forall>c \<in> set (join_commas ns). field_char c"
  using show_nat_digits by (induction ns rule: join_commas.induct) (auto simp: field_char_def)

lemma spec_text_chars: "\<forall>c \<in> set (spec_text f). field_char c"
  using join_commas_chars show_nat_digits by (cases f) (auto simp: field_char_def)

lemma spec_text_nonempty: "spec_ok lo hi f \<Longrightarrow> spec_text f \<noteq> []"
proof (cases f)
  case (Among ns)
  assume "spec_ok lo hi f"
  with Among show ?thesis by (cases ns rule: join_commas.cases) auto
qed auto

lemma next_col_word:
  assumes "list_all isblank bl" "w \<noteq> []" "\<forall>c \<in> set w. c \<notin> set column_seps" "isblank b"
  shows "next_col (Some (bl @ w @ b # r)) = (Some w, Some r)"
  using assms(1)
proof (induction bl)
  case Nil
  have b: "b \<in> set column_seps" using assms(4) by (auto simp: isblank_def column_seps_def)
  have "takeWhile (\<lambda>c. c \<notin> set column_seps) (w @ b # r) = w" "dropWhile (\<lambda>c. c \<notin> set column_seps) (w @ b # r) = b # r"
    using assms(3) b by (simp_all add: takeWhile_append2 dropWhile_append2)
  then show ?case using assms(2) by (subst next_col.simps) (cases w; simp add: Let_def)
next
  case (Cons c bl)
  then have "c \<in> set column_seps" by (auto simp: isblank_def column_seps_def)
  with Cons show ?case by (subst next_col.simps) (simp add: Let_def)
qed

lemma parse_cols_text:
  assumes "specs_ok ls fs" "length seps = length fs" "list_all isblank bl"
    "list_all (\<lambda>sep. sep \<noteq> [] \<and> list_all isblank sep) seps" "list_all (\<lambda>(name, lo, hi). hi < 2 ^ 63) ls"
  shows "\<exists>bl'. list_all isblank bl' \<and>
     parse_cols ls (Some (bl @ cols_text fs seps @ r)) = Some (Inr (map spec_field fs, Some (bl' @ r)))"
  using assms
proof (induction ls arbitrary: fs seps bl)
  case Nil
  then show ?case by (auto simp: specs_ok_def)
next
  case (Cons l ls)
  obtain name lo hi where l: "l = (name, lo, hi)" by (cases l) auto
  obtain f fs' sep seps' where fs: "fs = f # fs'" "seps = sep # seps'"
    using Cons.prems by (cases fs; cases seps) (auto simp: specs_ok_def)
  obtain b bs where sep: "sep = b # bs" "isblank b" "list_all isblank bs"
    using Cons.prems(4) fs by (cases sep) auto
  have f: "spec_ok lo hi f" "hi < 2 ^ 63" using Cons.prems l fs by (auto simp: specs_ok_def)
  have word: "next_col (Some (bl @ spec_text f @ b # bs @ cols_text fs' seps' @ r)) = (Some (spec_text f), Some (bs @ cols_text fs' seps' @ r))"
    using next_col_word[OF Cons.prems(3) spec_text_nonempty[OF f(1)] _ sep(2)] spec_text_chars[of f] field_char_facts by blast
  obtain bl' where "list_all isblank bl'" "parse_cols ls (Some (bs @ cols_text fs' seps' @ r)) = Some (Inr (map spec_field fs', Some (bl' @ r)))"
    using Cons.IH[of fs' seps' bs] Cons.prems fs sep l by (auto simp: specs_ok_def)
  then show ?case using word parsefield_text[OF f] by (intro exI[of _ bl']) (simp add: l fs sep)
qed

lemma flim_bounds: "list_all (\<lambda>(name, lo, hi). hi < 2 ^ 63) flim" by (simp add: flim_def)

lemma job_ok_length: "job_ok j \<Longrightarrow> length (job_specs j) = 6"
  by (auto simp: job_ok_def specs_ok_def flim_def dest: list_all2_lengthD)

lemma parse_row_job:
  assumes "job_ok j"
  shows "parse_row (job_text j @ [CHR 0x0A]) = Some (Inr (job_entry j))"
proof -
  obtain bl where bl: "list_all isblank bl"
    "parse_cols flim (Some (job_lead j @ cols_text (job_specs j) (job_seps j) @ (job_cmd j @ [CHR 0x0A])))
       = Some (Inr (map spec_field (job_specs j), Some (bl @ (job_cmd j @ [CHR 0x0A]))))"
    using parse_cols_text[of flim "job_specs j" "job_seps j" "job_lead j" "job_cmd j @ [CHR 0x0A]"]
      assms job_ok_length[OF assms] flim_bounds by (auto simp: job_ok_def)
  have nl: "\<forall>c \<in> set (bl @ job_cmd j). c \<notin> set [CHR 0x0A]" using bl(1) assms by (auto simp: list_all_iff isblank_def job_ok_def)
  have tok: "takeWhile (\<lambda>c. c \<notin> set [CHR 0x0A]) (bl @ job_cmd j @ [CHR 0x0A]) = bl @ job_cmd j"
    using nl takeWhile_append2[of "bl @ job_cmd j" "\<lambda>c. c \<notin> set [CHR 0x0A]" "[CHR 0x0A]"] by simp
  have "dropWhile isblank (bl @ job_cmd j) = job_cmd j"
    using bl(1) assms by (cases "job_cmd j") (auto simp: list_all_iff dropWhile_append2 job_ok_def)
  then show ?thesis
    using bl(2) tok assms
    unfolding parse_row_def job_text_def by (simp add: Let_def job_entry_def job_ok_def job_ok_length[OF assms])
qed

lemma getlines_line: "CHR 0x0A \<notin> set l \<Longrightarrow> getlines (l @ CHR 0x0A # s) = (l @ [CHR 0x0A]) # getlines s"
  by (induction l) auto

lemma cols_text_chars:
  assumes "list_all (list_all isblank) seps"
  shows "\<forall>c \<in> set (cols_text fs seps). field_char c \<or> isblank c"
  using assms spec_text_chars by (induction fs seps rule: cols_text.induct) (auto simp: list_all_iff)

lemma blank_facts: "isblank c \<Longrightarrow> c \<noteq> CHR 0x00 \<and> c \<noteq> CHR 0x0A \<and> c \<noteq> CHR ''#''"
  by (auto simp: isblank_def)

lemma job_text_clean:
  assumes "job_ok j"
  shows "CHR 0x0A \<notin> set (job_text j)" "CHR 0x00 \<notin> set (job_text j)" "job_text j \<noteq> []" "hd (job_text j) \<noteq> CHR ''#''"
proof -
  have "list_all (list_all isblank) (job_seps j)" using assms by (simp add: job_ok_def list_all_iff)
  from cols_text_chars[OF this, of "job_specs j"]
  have "field_char c \<or> isblank c" if "c \<in> set (job_lead j @ cols_text (job_specs j) (job_seps j))" for c
    using that assms by (auto simp: job_ok_def list_all_iff)
  then have lead: "c \<noteq> CHR 0x00 \<and> c \<noteq> CHR 0x0A \<and> c \<noteq> CHR ''#''"
    if "c \<in> set (job_lead j @ cols_text (job_specs j) (job_seps j))" for c
    using that field_char_facts[of c] blank_facts[of c] by blast
  have cmd: "CHR 0x0A \<notin> set (job_cmd j)" "CHR 0x00 \<notin> set (job_cmd j)" using assms by (simp_all add: job_ok_def)
  show "CHR 0x0A \<notin> set (job_text j)" using lead[of "CHR 0x0A"] cmd(1) unfolding job_text_def set_append by blast
  show "CHR 0x00 \<notin> set (job_text j)" using lead[of "CHR 0x00"] cmd(2) unfolding job_text_def set_append by blast
  show "job_text j \<noteq> []" using assms by (simp add: job_text_def job_ok_def)
  obtain f fs sep seps where "job_specs j = f # fs" "job_seps j = sep # seps"
    using job_ok_length[OF assms] assms by (cases "job_specs j"; cases "job_seps j") (auto simp: job_ok_def)
  then have "cols_text (job_specs j) (job_seps j) \<noteq> []"
    using assms by (auto simp: job_ok_def)
  then have "hd (job_text j) \<in> set (job_lead j @ cols_text (job_specs j) (job_seps j))"
    unfolding job_text_def by (metis append_assoc append_is_Nil_conv hd_append2 hd_in_set)
  with lead show "hd (job_text j) \<noteq> CHR ''#''" by blast
qed

lemma cstr_clean: "CHR 0x00 \<notin> set l \<Longrightarrow> cstr (l @ [CHR 0x0A]) = l @ [CHR 0x0A]"
  by (auto simp: cstr_def takeWhile_eq_all_conv)

lemma load_rows_items:
  assumes "list_all item_ok is"
  shows "load_rows y (getlines (concat (map item_text is))) tab = Some (0, tab @ items_entries is, [])"
  using assms
proof (induction "is" arbitrary: y tab)
  case (Cons i "is")
  show ?case
  proof (cases i)
    case (Comment t)
    then have "getlines (concat (map item_text (i # is))) = (''#'' @ t @ [CHR 0x0A]) # getlines (concat (map item_text is))"
      using getlines_line[of "''#'' @ t"] Cons.prems by simp
    moreover have "skipped_row (cstr (''#'' @ t @ [CHR 0x0A]))" by (simp add: skipped_row_def cstr_def)
    ultimately show ?thesis using Cons by (simp add: Comment)
  next
    case Empty_line
    then show ?thesis using Cons by (simp add: skipped_row_def cstr_def)
  next
    case (Job j)
    then have j: "job_ok j" using Cons.prems by simp
    have "getlines (concat (map item_text (i # is))) = (job_text j @ [CHR 0x0A]) # getlines (concat (map item_text is))"
      using getlines_line[OF job_text_clean(1)[OF j]] by (simp add: Job)
    moreover have "\<not> skipped_row (job_text j @ [CHR 0x0A])"
      using job_text_clean[OF j] by (auto simp: skipped_row_def neq_Nil_conv)
    ultimately show ?thesis
      using Cons parse_row_job[OF j] cstr_clean[OF job_text_clean(2)[OF j]] by (simp add: Job)
  qed
qed simp

lemma six: "length xs = 6 \<Longrightarrow> \<exists>a b c d e f. xs = [a, b, c, d, e, f]"
  by (auto simp: length_Suc_conv eval_nat_numeral)

lemma matchentry_job:
  assumes "job_ok j"
  shows "matchentry (job_entry j) t \<longleftrightarrow> list_all2 (\<lambda>f (v, len). spec_holds len f v) (job_specs j) (tm_fields t)"
proof -
  obtain a b c d e f where "job_specs j = [a, b, c, d, e, f]" using six[OF job_ok_length[OF assms]] by blast
  then show ?thesis
    by (simp add: matchentry_def matchtbl_def job_entry_def tm_fields_def field_match_spec del: field_match.simps)
qed

subsection \<open>The daemon\<close>

lemma check_field_Some: "check_field lo hi ty vs = Some f \<longleftrightarrow> in_range lo hi vs \<and> f = \<lparr>ftype = ty, fval = vs\<rparr>"
  by (auto simp: check_field_def in_range_def)

lemma list_loop_extends: "list_loop cap vs e er = Some (vs', e', er') \<Longrightarrow> length vs \<le> length vs'"
proof (induction cap vs e er arbitrary: vs' rule: list_loop.induct)
  case (1 cap vs e er)
  show ?case
  proof (cases "take 1 e = '','' \<and> \<not> er \<and> length vs < cap")
    case True
    obtain v e2 er2 where v: "strtol (tl e) = (v, e2, er2)" by (cases "strtol (tl e)") auto
    from "1.prems" True v have "list_loop cap (vs @ [v]) e2 er2 = Some (vs', e', er')"
      by (subst (asm) list_loop.simps) simp
    from "1.IH"[OF _ _ v[symmetric] refl this] True show ?thesis by simp
  next
    case False
    with "1.prems" show ?thesis by (subst (asm) list_loop.simps) (auto split: if_splits)
  qed
qed

lemma parsefield_ok:
  assumes "parsefield t lo hi = Some (Some f)"
  shows "field_ok lo hi f"
proof -
  consider "parse_number t lo hi = Some f" | "check_field lo hi WILDCARD [] = Some f" | "parse_repeat t lo hi = Some f"
    | "parse_range t lo hi = Some f" | p where "parse_list t p lo hi = Some (Some f)"
    using assms unfolding parsefield_def Let_def by (simp split: if_splits)
  then show ?thesis
  proof cases
    case 5
    then show ?thesis
      by (auto simp: parse_list_def Let_def check_field_Some field_ok_def split: prod.splits if_splits option.splits
          dest!: list_loop_extends)
  qed (auto simp: parse_number_def parse_repeat_def parse_range_def check_field_Some field_ok_def
      split: prod.splits if_splits)
qed

lemma parse_cols_ok:
  "parse_cols ls p = Some (Inr (fs, q)) \<Longrightarrow> list_all2 (\<lambda>(name, lo, hi) f. field_ok lo hi f) ls fs"
  by (induction ls p arbitrary: fs q rule: parse_cols.induct)
    (auto split: prod.splits option.splits sum.splits dest: parsefield_ok)

lemma parse_row_ok:
  assumes "parse_row l = Some (Inr e)" shows "entry_ok e"
proof -
  obtain fs p c where fs: "parse_cols flim (Some l) = Some (Inr (fs, p))" and c: "c \<noteq> []"
    "e = \<lparr>sec_f = fs ! 0, min_f = fs ! 1, hour_f = fs ! 2, mday_f = fs ! 3, mon_f = fs ! 4, wday_f = fs ! 5, cmd = c\<rparr>"
    using assms by (auto simp: parse_row_def Let_def simp del: dropWhile_eq_Nil_conv split: option.splits sum.splits prod.splits if_splits)
  from parse_cols_ok[OF fs] have "length fs = 6" by (auto simp: flim_def dest: list_all2_lengthD)
  then obtain a b c' d e' f where "fs = [a, b, c', d, e', f]" using six by blast
  with parse_cols_ok[OF fs] c show ?thesis by (simp add: entry_ok_def)
qed

lemma load_rows_ok:
  "load_rows y ls tab = Some (r, tab', ms) \<Longrightarrow> list_all entry_ok tab \<Longrightarrow> list_all entry_ok tab'"
  by (induction y ls tab rule: load_rows.induct)
    (auto simp: Let_def split: if_splits option.splits sum.splits dest: parse_row_ok)

lemma unloadentries_empty [simp]: "unloadentries tab = []"
proof -
  have "fold (\<lambda>_ t. tl t) xs t = drop (length xs) t" for xs :: "ctabentry list" and t :: "ctabentry list"
    by (induction xs arbitrary: t) (auto simp: drop_Suc)
  then show ?thesis by (simp add: unloadentries_def)
qed

lemma loadentries_ok:
  "loadentries cf tab = Some (r, tab', ms) \<Longrightarrow> list_all entry_ok tab \<Longrightarrow> list_all entry_ok tab'"
  by (auto simp: loadentries_def split: option.splits dest: load_rows_ok)

lemma reloadentries_ok: "reloadentries cf tab = Some (tab', ms) \<Longrightarrow> list_all entry_ok tab'"
  by (auto simp: reloadentries_def split: option.splits prod.splits dest!: loadentries_ok)

lemma runjob_jobs:
  "jobhead (runjob p c s) = (if c \<in> jcmd ` set (jobhead s) \<or> p < 0 then jobhead s else jobhead s @ [\<lparr>jcmd = c, jpid = p\<rparr>])"
  by (auto simp: runjob_def find_None_iff find_Some_iff split: option.splits)

lemma runjob_frame [simp]:
  "ctabhead (runjob p c s) = ctabhead s" "chldreap (runjob p c s) = chldreap s" "reload (runjob p c s) = reload s"
  "quit (runjob p c s) = quit s" "reports (runjob p c s) = reports s" "pc (runjob p c s) = pc s"
  "pid_file (runjob p c s) = pid_file s"
  by (auto simp: runjob_def split: option.splits)

lemma remove_pid_subset: "set (remove_pid p js) \<subseteq> set js"
  by (induction js) auto

lemma remove_pid_distinct: "distinct (map jcmd js) \<Longrightarrow> distinct (map jcmd (remove_pid p js))"
proof (induction js)
  case (Cons je js)
  then show ?case using remove_pid_subset[of p js] by (simp add: image_iff) blast
qed simp

lemma wait_fold:
  "distinct (map jcmd (jobhead s)) \<Longrightarrow> distinct (map jcmd (jobhead (fold wait_one rs s)))
     \<and> ctabhead (fold wait_one rs s) = ctabhead s"
  by (induction rs arbitrary: s) (auto simp: wait_one_def remove_pid_distinct)

lemma advance_inv: "cron_inv s \<Longrightarrow> cron_inv (cron_advance n i s)"
  unfolding cron_advance_def
  by (cases "pc s") (auto simp: cron_inv_def waitjob_def wait_fold runjob_jobs dest: reloadentries_ok
      split: option.splits list.splits if_splits)

lemma step_inv: "cron_inv s \<Longrightarrow> cron_inv (cron_step n ev s)"
proof (cases ev)
  case (Deliver sg)
  assume "cron_inv s"
  then show ?thesis by (cases sg) (auto simp: Deliver cron_inv_def)
qed (auto simp: advance_inv, auto simp: cron_inv_def)

lemma reach_inv: "cron_reach n s \<Longrightarrow> cron_inv s"
proof (induction rule: cron_reach.induct)
  case (start argv files daemonizes pid_opens opts s)
  then show ?case
    by (auto simp: cron_main_def cron_inv_def split: arg_result.splits if_splits option.splits prod.splits dest: loadentries_ok)
qed (rule step_inv)

lemma jobs_pass:
  assumes "pc s = P_jobs es" "length is = Suc (length es)" "list_all (\<lambda>i. now i = t \<and> 0 < fork_pid i) is"
  shows "\<exists>new. jobhead (fold (cron_step n) (map Advance is) s) = jobhead s @ new
     \<and> pc (fold (cron_step n) (map Advance is) s) = P_sleep
     \<and> (\<forall>j \<in> set new. \<exists>e \<in> set es. matchentry e t \<and> jcmd j = cmd e)
     \<and> (\<forall>e \<in> set es. matchentry e t \<longrightarrow> cmd e \<in> jcmd ` set (jobhead s @ new))"
  using assms
proof (induction es arbitrary: s "is")
  case Nil
  then show ?case by (cases "is") (auto simp: cron_advance_def)
next
  case (Cons e es)
  then obtain i is' where i: "is = i # is'" by (cases "is") auto
  let ?s = "cron_advance n i s"
  have s: "pc ?s = P_jobs es" "\<exists>add. jobhead ?s = jobhead s @ add \<and> (\<forall>j \<in> set add. matchentry e t \<and> jcmd j = cmd e)
      \<and> (matchentry e t \<longrightarrow> cmd e \<in> jcmd ` set (jobhead s @ add))"
    using Cons.prems by (auto simp: cron_advance_def i runjob_jobs)
  from Cons.IH[OF s(1), of is'] Cons.prems obtain new where new: "jobhead (fold (cron_step n) (map Advance is') ?s) = jobhead ?s @ new"
     "pc (fold (cron_step n) (map Advance is') ?s) = P_sleep"
     "\<forall>j \<in> set new. \<exists>e \<in> set es. matchentry e t \<and> jcmd j = cmd e"
     "\<forall>e \<in> set es. matchentry e t \<longrightarrow> cmd e \<in> jcmd ` set (jobhead ?s @ new)"
    by (auto simp: i)
  from s(2) obtain add where add: "jobhead ?s = jobhead s @ add" "\<forall>j \<in> set add. matchentry e t \<and> jcmd j = cmd e"
    "matchentry e t \<longrightarrow> cmd e \<in> jcmd ` set (jobhead s @ add)" by blast
  show ?case
    using new add by (intro exI[of _ "add @ new"]) (auto simp: i)
qed

lemma demo_job_ok: "job_ok demo_job"
  by (simp add: job_ok_def demo_job_def specs_ok_def flim_def isblank_def)

lemma job_forgotten_step: "job_forgotten j st s \<Longrightarrow> job_forgotten j st (cron_step n (Advance i) s)"
  by (auto simp: job_forgotten_def cron_advance_def runjob_jobs split: list.splits if_splits)

lemma strtol_plus:
  assumes "int n < 2 ^ 63" "r = [] \<or> \<not> isdigit (hd r)"
  shows "strtol (CHR ''+'' # show_nat n @ r) = (int n, r, False)"
proof -
  have "takeWhile isdigit (show_nat n @ r) = show_nat n"
    using show_nat_digits[of n] assms(2) by (cases r) (auto simp: takeWhile_append2)
  then show ?thesis using assms(1) by (simp add: strtol_def scan_long_def isspace_def clamp_long_def)
qed

subsection \<open>Properties\<close>



text \<open>
  C39. Months are shifted: an entry for month \<open>n\<close> is only run in the month after it, because
  the table counts months from one and the clock from zero, and an entry for December is
  never run.
\<close>

theorem cron_month_shifted:
  assumes "job_ok j" "job_specs j ! 4 = At n" "0 \<le> tm_mon t" "tm_mon t \<le> 11" "matchentry (job_entry j) t"
  shows "tm_mon t + 1 = int n + 1 \<and> n \<noteq> 12"
proof -
  obtain a b c d e f where "job_specs j = [a, b, c, d, e, f]" using six[OF job_ok_length[OF assms(1)]] by blast
  with assms show ?thesis by (auto simp: matchentry_job tm_fields_def)
qed

theorem cron_month_shifted_witness:
  "matchentry (job_entry (demo_job\<lparr>job_specs := [Any, Any, Any, Any, At 1, Any]\<rparr>)) (demo_tm 0 1)
    \<and> tm_mon (demo_tm 0 1) + 1 = 2"
proof -
  have "job_ok (demo_job\<lparr>job_specs := [Any, Any, Any, Any, At 1, Any]\<rparr>)"
    using demo_job_ok by (simp add: job_ok_def demo_job_def specs_ok_def flim_def)
  moreover from this have "matchentry (job_entry (demo_job\<lparr>job_specs := [Any, Any, Any, Any, At 1, Any]\<rparr>)) (demo_tm 0 1)"
    by (simp add: matchentry_job tm_fields_def demo_tm_def)
  ultimately show ?thesis
    using cron_month_shifted[of "demo_job\<lparr>job_specs := [Any, Any, Any, Any, At 1, Any]\<rparr>" 1 "demo_tm 0 1"]
    by (simp add: demo_tm_def)
qed





text \<open>
  A child that ends after the daemon has collected the ended children, but before it
  clears the flag, is forgotten: as long as no other signal arrives, its report is not
  read and its job stays in the list, so its command is not started again.
\<close>

theorem cron_child_lost:
  assumes "pc s = P_child_clear" "j \<in> set (jobhead s)" "\<not> reload s" "\<not> quit s"
  shows "j \<in> set (jobhead (fold (cron_step n) (Child (jpid j) st # map Advance is) s))
    \<and> (jpid j, st) \<in> set (reports (fold (cron_step n) (Child (jpid j) st # map Advance is) s))"
proof -
  have "job_forgotten j st (cron_step n (Child (jpid j) st) s)"
    using assms by (simp add: job_forgotten_def)
  then have "job_forgotten j st (fold (cron_step n) (map Advance is) (cron_step n (Child (jpid j) st) s))"
    by (induction "is" rule: rev_induct) (auto simp: job_forgotten_step simp del: cron_step.simps)
  then show ?thesis by (simp add: job_forgotten_def)
qed

theorem cron_child_lost_witness:
  "\<lparr>jcmd = ''date'', jpid = 77\<rparr> \<in> set (jobhead (fold (cron_step False)
     (Child 77 (Exited 0) # map Advance (replicate 100 \<lparr>now = demo_tm 0 1, fork_pid = 78, conf = None\<rparr>))
     (demo_cron\<lparr>pc := P_child_clear, jobhead := [\<lparr>jcmd = ''date'', jpid = 77\<rparr>], chldreap := True\<rparr>)))"
  using cron_child_lost[of "demo_cron\<lparr>pc := P_child_clear, jobhead := [\<lparr>jcmd = ''date'', jpid = 77\<rparr>], chldreap := True\<rparr>"
      "\<lparr>jcmd = ''date'', jpid = 77\<rparr>" False "Exited 0"
      "replicate 100 \<lparr>now = demo_tm 0 1, fork_pid = 78, conf = None\<rparr>"]
  by (simp add: demo_cron_def)

text \<open>
  Two malformed fields are undefined behaviour: in a list a number with a sign lets the
  parser write behind the array it allocated, and a number in front of a star lets it
  examine and free an uninitialised field.
\<close>

theorem cron_field_faults:
  assumes "lo \<le> int a" "int a \<le> hi" "hi < 2 ^ 63" "int b < 2 ^ 63"
  shows "parsefield (show_nat a @ '',+'' @ show_nat b @ '','' @ show_nat c) lo hi = None
    \<and> parsefield (show_nat a @ ''*'' @ r) lo hi = None"
proof
  let ?p = "'',+'' @ show_nat b @ '','' @ show_nat c"
  have p: "dropWhile isdigit (show_nat a @ ?p) = ?p" by (rule drop_digits(2)) auto
  have st: "strtol (show_nat a @ ?p) = (int a, ?p, False)" using assms by (intro strtol_show) auto
  have cc: "count_commas ?p = 1" by (simp add: count_commas_def isdigit_def)
  have ll: "list_loop 2 [int a] ?p False = None"
    using strtol_plus[of b "'','' @ show_nat c"] assms(4) by (simp add: list_loop.simps)
  have "parse_list (show_nat a @ ?p) ?p lo hi = None"
    using assms unfolding parse_list_def cc Let_def st using ll by (simp add: numeral_2_eq_2)
  then show "parsefield (show_nat a @ ?p) lo hi = None" using p by (simp add: parsefield_def)
next
  obtain d ds where d: "show_nat a = d # ds" "isdigit d" using show_nat_digits[of a] by (cases "show_nat a") auto
  have "dropWhile isdigit (show_nat a @ ''*'' @ r) = ''*'' @ r" by (rule drop_digits(2)) auto
  then show "parsefield (show_nat a @ ''*'' @ r) lo hi = None"
    using d by (auto simp: parsefield_def Let_def)
qed

theorem cron_field_faults_witness:
  "parsefield ''1,+2,3'' 0 59 = None \<and> parsefield ''5*'' 0 59 = None"
  using cron_field_faults[of 0 1 59 2 3 "[]"] cron_field_faults[of 0 5 59 2 3 "[]"] by (simp add: scan_simps)

end
