(* ===== verification/Sha256.thy ===== *)
theory Sha256
  imports Dowse_Prelude Complex_Main
begin

text \<open>
  SHA-256 (\<^verbatim>\<open>src/src/sup/sha256.c\<close>), with which \<^verbatim>\<open>sup\<close> checks the programs it runs. The type \<^verbatim>\<open>uint32\<close>
  of the source is an unsigned long, which has 64 bits: the upper halves of the variables
  hold garbage, and that they never reach a lower half is part of what is proved. The
  specification is the one of FIPS 180, on words of 32 bits, with its constants defined
  by roots of primes.
\<close>

subsection \<open>Bytes and words\<close>

definition GET_UINT32 :: "u8 list \<Rightarrow> nat \<Rightarrow> u64" where
  "GET_UINT32 b i =
     push_bit 24 (ucast (b ! i)) OR push_bit 16 (ucast (b ! (i + 1)))
     OR push_bit 8 (ucast (b ! (i + 2))) OR ucast (b ! (i + 3))"

definition PUT_UINT32 :: "u64 \<Rightarrow> u8 list" where
  "PUT_UINT32 n = [ucast (drop_bit 24 n), ucast (drop_bit 16 n), ucast (drop_bit 8 n), ucast n]"

subsection \<open>The context\<close>

record sha256_context =
  total0 :: u64
  total1 :: u64
  state :: "u64 list"
  buffer :: "u8 list"

definition sha256_starts :: "sha256_context \<Rightarrow> sha256_context" where
  "sha256_starts ctx = ctx\<lparr>total0 := 0, total1 := 0,
     state := [0x6A09E667, 0xBB67AE85, 0x3C6EF372, 0xA54FF53A, 0x510E527F, 0x9B05688C, 0x1F83D9AB, 0x5BE0CD19]\<rparr>"

subsection \<open>One block\<close>

definition SHR :: "u64 \<Rightarrow> nat \<Rightarrow> u64" where
  "SHR x n = drop_bit n (x AND 0xFFFFFFFF)"

definition ROTR :: "u64 \<Rightarrow> nat \<Rightarrow> u64" where
  "ROTR x n = SHR x n OR push_bit (32 - n) x"

definition S0 :: "u64 \<Rightarrow> u64" where "S0 x = ROTR x 7 XOR ROTR x 18 XOR SHR x 3"
definition S1 :: "u64 \<Rightarrow> u64" where "S1 x = ROTR x 17 XOR ROTR x 19 XOR SHR x 10"
definition S2 :: "u64 \<Rightarrow> u64" where "S2 x = ROTR x 2 XOR ROTR x 13 XOR ROTR x 22"
definition S3 :: "u64 \<Rightarrow> u64" where "S3 x = ROTR x 6 XOR ROTR x 11 XOR ROTR x 25"

definition F0 :: "u64 \<Rightarrow> u64 \<Rightarrow> u64 \<Rightarrow> u64" where "F0 x y z = (x AND y) OR (z AND (x OR y))"
definition F1 :: "u64 \<Rightarrow> u64 \<Rightarrow> u64 \<Rightarrow> u64" where "F1 x y z = z XOR (x AND (y XOR z))"

text \<open>The words computed so far, extended by the next one.\<close>

definition R :: "u64 list \<Rightarrow> u64 list" where
  "R W = (let t = length W
          in W @ [S1 (W ! (t - 2)) + W ! (t - 7) + S0 (W ! (t - 15)) + W ! (t - 16)])"

text \<open>The new values of the variables passed as \<open>d\<close> and \<open>h\<close>.\<close>

definition P :: "u64 \<Rightarrow> u64 \<Rightarrow> u64 \<Rightarrow> u64 \<Rightarrow> u64 \<Rightarrow> u64 \<Rightarrow> u64 \<Rightarrow> u64 \<Rightarrow> u64 \<Rightarrow> u64 \<Rightarrow> u64 \<times> u64" where
  "P a b c d e f g h x K =
     (let temp1 = h + S3 e + F1 e f g + K + x; temp2 = S2 a + F0 a b c
      in (d + temp1, temp1 + temp2))"

definition round_constants :: "u64 list" where
  "round_constants =
    [0x428A2F98, 0x71374491, 0xB5C0FBCF, 0xE9B5DBA5, 0x3956C25B, 0x59F111F1, 0x923F82A4, 0xAB1C5ED5,
     0xD807AA98, 0x12835B01, 0x243185BE, 0x550C7DC3, 0x72BE5D74, 0x80DEB1FE, 0x9BDC06A7, 0xC19BF174,
     0xE49B69C1, 0xEFBE4786, 0x0FC19DC6, 0x240CA1CC, 0x2DE92C6F, 0x4A7484AA, 0x5CB0A9DC, 0x76F988DA,
     0x983E5152, 0xA831C66D, 0xB00327C8, 0xBF597FC7, 0xC6E00BF3, 0xD5A79147, 0x06CA6351, 0x14292967,
     0x27B70A85, 0x2E1B2138, 0x4D2C6DFC, 0x53380D13, 0x650A7354, 0x766A0ABB, 0x81C2C92E, 0x92722C85,
     0xA2BFE8A1, 0xA81A664B, 0xC24B8B70, 0xC76C51A3, 0xD192E819, 0xD6990624, 0xF40E3585, 0x106AA070,
     0x19A4C116, 0x1E376C08, 0x2748774C, 0x34B0BCB5, 0x391C0CB3, 0x4ED8AA4A, 0x5B9CCA4F, 0x682E6FF3,
     0x748F82EE, 0x78A5636F, 0x84C87814, 0x8CC70208, 0x90BEFFFA, 0xA4506CEB, 0xBEF9A3F7, 0xC67178F2]"

type_synonym registers = "u64 \<times> u64 \<times> u64 \<times> u64 \<times> u64 \<times> u64 \<times> u64 \<times> u64"

text \<open>
  Eight lines of the unrolled loop: the variables change their roles from line to line and
  are back after eight.
\<close>

fun eight_rounds :: "u64 list \<Rightarrow> u64 list \<Rightarrow> registers \<Rightarrow> registers" where
  "eight_rounds w k (A, B, C, D, E, F, G, H) =
     (let (D, H) = P A B C D E F G H (w ! 0) (k ! 0);
          (C, G) = P H A B C D E F G (w ! 1) (k ! 1);
          (B, F) = P G H A B C D E F (w ! 2) (k ! 2);
          (A, E) = P F G H A B C D E (w ! 3) (k ! 3);
          (H, D) = P E F G H A B C D (w ! 4) (k ! 4);
          (G, C) = P D E F G H A B C (w ! 5) (k ! 5);
          (F, B) = P C D E F G H A B (w ! 6) (k ! 6);
          (E, A) = P B C D E F G H A (w ! 7) (k ! 7)
      in (A, B, C, D, E, F, G, H))"

definition registers_of :: "u64 list \<Rightarrow> registers" where
  "registers_of s = (s ! 0, s ! 1, s ! 2, s ! 3, s ! 4, s ! 5, s ! 6, s ! 7)"

fun list_of_registers :: "registers \<Rightarrow> u64 list" where
  "list_of_registers (A, B, C, D, E, F, G, H) = [A, B, C, D, E, F, G, H]"

definition process_block :: "u64 list \<Rightarrow> u8 list \<Rightarrow> u64 list" where
  "process_block s data =
     (let W = (R ^^ 48) (map (\<lambda>i. GET_UINT32 data (4 * i)) [0..<16]);
          regs = fold (\<lambda>i. eight_rounds (drop (8 * i) W) (drop (8 * i) round_constants)) [0..<8] (registers_of s)
      in map2 (+) s (list_of_registers regs))"

definition sha256_process :: "sha256_context \<Rightarrow> u8 list \<Rightarrow> sha256_context" where
  "sha256_process ctx data = ctx\<lparr>state := process_block (state ctx) data\<rparr>"

subsection \<open>A stream of bytes\<close>

definition memcpy_at :: "u8 list \<Rightarrow> nat \<Rightarrow> u8 list \<Rightarrow> u8 list" where
  "memcpy_at buf i src = take i buf @ src @ drop (i + length src) buf"

function update_blocks :: "sha256_context \<Rightarrow> u8 list \<Rightarrow> sha256_context \<times> u8 list" where
  "update_blocks ctx input =
     (if length input \<ge> 64 then update_blocks (sha256_process ctx (take 64 input)) (drop 64 input)
      else (ctx, input))"
  by pat_completeness auto
termination
  by (relation "measure (\<lambda>(ctx, input). length input)") auto

declare update_blocks.simps [simp del]

definition sha256_update :: "sha256_context \<Rightarrow> u8 list \<Rightarrow> sha256_context" where
  "sha256_update ctx input =
     (if input = [] then ctx
      else let left = unat (total0 ctx AND 0x3F);
               fill = 64 - left;
               len = of_nat (length input);
               t0 = (total0 ctx + len) AND 0xFFFFFFFF;
               ctx1 = ctx\<lparr>total0 := t0, total1 := (if t0 < len then total1 ctx + 1 else total1 ctx)\<rparr>;
               (ctx2, input2, left2) =
                 (if left \<noteq> 0 \<and> length input \<ge> fill
                  then let ctx' = ctx1\<lparr>buffer := memcpy_at (buffer ctx1) left (take fill input)\<rparr>
                       in (sha256_process ctx' (buffer ctx'), drop fill input, 0)
                  else (ctx1, input, left));
               (ctx3, input3) = update_blocks ctx2 input2
           in if input3 = [] then ctx3
              else ctx3\<lparr>buffer := memcpy_at (buffer ctx3) left2 input3\<rparr>)"

definition sha256_padding :: "u8 list" where
  "sha256_padding = 0x80 # replicate 63 0"

definition sha256_finish :: "sha256_context \<Rightarrow> u8 list" where
  "sha256_finish ctx =
     (let high = drop_bit 29 (total0 ctx) OR push_bit 3 (total1 ctx);
          low = push_bit 3 (total0 ctx);
          msglen = PUT_UINT32 high @ PUT_UINT32 low;
          last = unat (total0 ctx AND 0x3F);
          padn = (if last < 56 then 56 - last else 120 - last);
          ctx1 = sha256_update ctx (take padn sha256_padding);
          ctx2 = sha256_update ctx1 msglen
      in concat (map PUT_UINT32 (state ctx2)))"

subsection \<open>The standard\<close>

text \<open>The first 32 bits of the fractional part of a root of a number.\<close>

definition root_bits :: "nat \<Rightarrow> nat \<Rightarrow> u32" where
  "root_bits k p = of_int \<lfloor>frac (root k (real p)) * 2 ^ 32\<rfloor>"

definition first_primes :: "nat list" where
  "first_primes =
    [2, 3, 5, 7, 11, 13, 17, 19, 23, 29, 31, 37, 41, 43, 47, 53, 59, 61, 67, 71, 73, 79, 83, 89, 97, 101, 103, 107,
     109, 113, 127, 131, 137, 139, 149, 151, 157, 163, 167, 173, 179, 181, 191, 193, 197, 199, 211, 223, 227, 229,
     233, 239, 241, 251, 257, 263, 269, 271, 277, 281, 283, 293, 307, 311]"

definition Ch :: "u32 \<Rightarrow> u32 \<Rightarrow> u32 \<Rightarrow> u32" where "Ch x y z = (x AND y) XOR (NOT x AND z)"
definition Maj :: "u32 \<Rightarrow> u32 \<Rightarrow> u32 \<Rightarrow> u32" where "Maj x y z = (x AND y) XOR (x AND z) XOR (y AND z)"
definition Sum0 :: "u32 \<Rightarrow> u32" where "Sum0 x = word_rotr 2 x XOR word_rotr 13 x XOR word_rotr 22 x"
definition Sum1 :: "u32 \<Rightarrow> u32" where "Sum1 x = word_rotr 6 x XOR word_rotr 11 x XOR word_rotr 25 x"
definition sigma0 :: "u32 \<Rightarrow> u32" where "sigma0 x = word_rotr 7 x XOR word_rotr 18 x XOR drop_bit 3 x"
definition sigma1 :: "u32 \<Rightarrow> u32" where "sigma1 x = word_rotr 17 x XOR word_rotr 19 x XOR drop_bit 10 x"

definition be_bytes :: "nat \<Rightarrow> nat \<Rightarrow> u8 list" where
  "be_bytes n v = map (\<lambda>i. of_nat (v div 256 ^ (n - 1 - i))) [0..<n]"

definition be32 :: "u8 list \<Rightarrow> u32" where
  "be32 bs = of_nat (foldl (\<lambda>a b. a * 256 + unat b) 0 bs)"

fun schedule_word :: "u8 list \<Rightarrow> nat \<Rightarrow> u32" where
  "schedule_word block t =
     (if t < 16 then be32 (take 4 (drop (4 * t) block))
      else sigma1 (schedule_word block (t - 2)) + schedule_word block (t - 7)
         + sigma0 (schedule_word block (t - 15)) + schedule_word block (t - 16))"

declare schedule_word.simps [simp del]

type_synonym hash_state = "u32 \<times> u32 \<times> u32 \<times> u32 \<times> u32 \<times> u32 \<times> u32 \<times> u32"

fun hash_round :: "u32 \<Rightarrow> u32 \<Rightarrow> hash_state \<Rightarrow> hash_state" where
  "hash_round w k (a, b, c, d, e, f, g, h) =
     (let T1 = h + Sum1 e + Ch e f g + k + w; T2 = Sum0 a + Maj a b c
      in (T1 + T2, a, b, c, d + T1, e, f, g))"

fun hash_add :: "hash_state \<Rightarrow> hash_state \<Rightarrow> hash_state" where
  "hash_add (a, b, c, d, e, f, g, h) (a', b', c', d', e', f', g', h')
     = (a + a', b + b', c + c', d + d', e + e', f + f', g + g', h + h')"

definition hash_block :: "hash_state \<Rightarrow> u8 list \<Rightarrow> hash_state" where
  "hash_block s block =
     hash_add s (fold (\<lambda>t. hash_round (schedule_word block t) (root_bits 3 (first_primes ! t))) [0..<64] s)"

definition initial_hash :: hash_state where
  "initial_hash = (root_bits 2 2, root_bits 2 3, root_bits 2 5, root_bits 2 7,
     root_bits 2 11, root_bits 2 13, root_bits 2 17, root_bits 2 19)"

text \<open>Padding to a multiple of 64 bytes, with the length in bits at the end.\<close>

definition sha_pad :: "u8 list \<Rightarrow> u8 list" where
  "sha_pad m = m @ [0x80] @ replicate ((119 - length m mod 64) mod 64) 0 @ be_bytes 8 (8 * length m)"

function hash_blocks :: "hash_state \<Rightarrow> u8 list \<Rightarrow> hash_state" where
  "hash_blocks s m = (if length m < 64 then s else hash_blocks (hash_block s (take 64 m)) (drop 64 m))"
  by pat_completeness auto
termination
  by (relation "measure (\<lambda>(s, m). length m)") auto

declare hash_blocks.simps [simp del]

fun hash_bytes :: "hash_state \<Rightarrow> u8 list" where
  "hash_bytes (a, b, c, d, e, f, g, h) = concat (map (\<lambda>w. be_bytes 4 (unat w)) [a, b, c, d, e, f, g, h])"

definition sha256_spec :: "u8 list \<Rightarrow> u8 list" where
  "sha256_spec m = hash_bytes (hash_blocks initial_hash (sha_pad m))"

subsection \<open>Auxiliary definitions\<close>

text \<open>
  The whole roots of the primes, scaled by \<open>2 ^ 32\<close>; the lower halves of words and registers;
  and when a context represents a message: the blocks of it have been processed, the rest
  is in the buffer and the length in the counters.
\<close>

definition cube_roots :: "nat list" where
  "cube_roots =
    [5411319704, 6194414737, 7344290767, 8215976869, 9551921755, 10098905585, 11043570340, 11460697813,
     12214315672, 13195500289, 13492127166, 14311783875, 14809980276, 15046980094, 15499789991, 16133124468,
     16720292289, 16907126662, 17444216262, 17784676812, 17950125167, 18429019306, 18734950876, 19175934170,
     19734090066, 20001703533, 20132865992, 20390182855, 20516441075, 20764397895, 21588763473, 21813078375,
     22141143685, 22248366392, 22769593852, 22871018771, 23170020180, 23461497531, 23651862830, 23931792517,
     24205322401, 24295138891, 24734567280, 24820601251, 24990902297, 25075189284, 25569408389, 26045227120,
     26200031510, 26276752392, 26428864332, 26653801653, 26727943347, 27092625994, 27306805839, 27517677555,
     27725365998, 27793908591, 27997534228, 28131656200, 28198240250, 28526537963, 28973835255, 29099129074]"

definition square_roots :: "nat list" where
  "square_roots =
    [6074000999, 7439101573, 9603838834, 11363415354, 14244795007, 15485724812, 17708603819, 18721328409]"

abbreviation lo :: "u64 \<Rightarrow> u32" where "lo x \<equiv> ucast x"

fun lo_regs :: "registers \<Rightarrow> hash_state" where
  "lo_regs (A, B, C, D, E, F, G, H) = (lo A, lo B, lo C, lo D, lo E, lo F, lo G, lo H)"

definition stream_ok :: "u64 list \<Rightarrow> u8 list \<Rightarrow> u8 list \<Rightarrow> bool" where
  "stream_ok s buf m \<longleftrightarrow> length s = 8 \<and> length buf = 64
     \<and> lo_regs (registers_of s) = hash_blocks initial_hash m
     \<and> take (length m mod 64) buf = drop (64 * (length m div 64)) m"

definition counted :: "u64 \<Rightarrow> u64 \<Rightarrow> nat \<Rightarrow> bool" where
  "counted t0 t1 n \<longleftrightarrow> unat t0 = n mod 2 ^ 32 \<and> unat t1 = n div 2 ^ 32 mod 2 ^ 64"

definition represents :: "sha256_context \<Rightarrow> u8 list \<Rightarrow> bool" where
  "represents ctx m \<longleftrightarrow> stream_ok (state ctx) (buffer ctx) m \<and> counted (total0 ctx) (total1 ctx) (length m)"

definition store_rest :: "sha256_context \<times> u8 list \<Rightarrow> nat \<Rightarrow> sha256_context" where
  "store_rest p left = (if snd p = [] then fst p else (fst p)\<lparr>buffer := memcpy_at (buffer (fst p)) left (snd p)\<rparr>)"

subsection \<open>The constants\<close>

lemma root_bits_eq:
  assumes "0 < k" "r ^ k \<le> p * (2 ^ 32) ^ k" "p * (2 ^ 32) ^ k < (r + 1) ^ k"
  shows "root_bits k p = of_nat r"
proof -
  let ?x = "root k (real p)"
  have x: "(?x * 2 ^ 32) ^ k = real (p * (2 ^ 32) ^ k)" using assms(1) by (simp add: power_mult_distrib)
  have "real r ^ k \<le> (?x * 2 ^ 32) ^ k" "(?x * 2 ^ 32) ^ k < (real r + 1) ^ k"
    unfolding x using assms(2,3) by (metis of_nat_le_iff of_nat_power, metis of_nat_1 of_nat_add of_nat_less_iff of_nat_power)
  moreover have "0 \<le> ?x * 2 ^ 32" using assms(1) by simp
  ultimately have "real r \<le> ?x * 2 ^ 32" "?x * 2 ^ 32 < real r + 1"
    using assms(1) by (meson of_nat_0_le_iff power_mono_iff, meson add_nonneg_nonneg of_nat_0_le_iff power_less_imp_less_base zero_le_one)
  then have fl: "\<lfloor>?x * 2 ^ 32\<rfloor> = int r" by (simp add: floor_eq_iff)
  have "frac ?x * 2 ^ 32 = ?x * 2 ^ 32 - real_of_int (\<lfloor>?x\<rfloor> * 2 ^ 32)"
    by (simp add: frac_def left_diff_distrib)
  then have "\<lfloor>frac ?x * 2 ^ 32\<rfloor> = int r - \<lfloor>?x\<rfloor> * 2 ^ 32"
    using fl floor_diff_of_int[of "?x * 2 ^ 32" "\<lfloor>?x\<rfloor> * 2 ^ 32"] by simp
  moreover have "(of_int (\<lfloor>?x\<rfloor> * 2 ^ 32) :: u32) = 0"
  proof -
    have "(2 :: u32) ^ 32 = 0" by simp
    then show ?thesis by (simp only: of_int_mult of_int_power of_int_numeral mult_zero_right)
  qed
  ultimately show ?thesis unfolding root_bits_def by (simp only: of_int_diff of_int_of_nat_eq diff_zero)
qed

lemma cube_roots_ok: "list_all2 (\<lambda>p r. r ^ 3 \<le> p * (2 ^ 32) ^ 3 \<and> p * (2 ^ 32) ^ 3 < (r + 1) ^ 3) first_primes cube_roots"
  by (simp add: first_primes_def cube_roots_def)

lemma square_roots_ok: "list_all2 (\<lambda>p r. r ^ 2 \<le> p * (2 ^ 32) ^ 2 \<and> p * (2 ^ 32) ^ 2 < (r + 1) ^ 2) (take 8 first_primes) square_roots"
  by (simp add: first_primes_def square_roots_def)

lemma round_constants_low: "map (\<lambda>k. ucast k :: u32) round_constants = map of_nat cube_roots"
  by (simp add: round_constants_def cube_roots_def)

subsection \<open>Lower halves\<close>

lemma lo_add: "lo (x + y) = lo x + lo y"
proof -
  have "take_bit 32 (take_bit 64 a + take_bit 64 b) = take_bit 32 (a + b)" for a b :: int
    using take_bit_add[of 32 "take_bit 64 a" "take_bit 64 b"] take_bit_add[of 32 a b] by simp
  then show ?thesis by transfer simp
qed

lemma lo_bits: "lo (x AND y) = lo x AND lo y" "lo (x OR y) = lo x OR lo y" "lo (x XOR y) = lo x XOR lo y"
  by (rule bit_word_eqI; auto simp: bit_simps)+

lemma lo_SHR: "lo (SHR x n) = drop_bit n (lo x)"
proof (rule bit_word_eqI)
  fix i assume "i < LENGTH(32)"
  have m: "(0xFFFFFFFF :: u64) = mask 32" by (simp add: mask_eq_exp_minus_1)
  show "bit (lo (SHR x n)) i = bit (drop_bit n (lo x)) i"
    using \<open>i < LENGTH(32)\<close> unfolding SHR_def m by (auto simp: bit_simps)
qed

lemma lo_ROTR:
  assumes "0 < n" "n < 32" shows "lo (ROTR x n) = word_rotr n (lo x)"
proof (rule bit_word_eqI)
  fix i assume i: "i < LENGTH(32)"
  show "bit (lo (ROTR x n)) i = bit (word_rotr n (lo x)) i"
  proof (cases "i + n < 32")
    case True
    then show ?thesis using i assms by (auto simp: ROTR_def lo_bits lo_SHR bit_simps bit_word_rotr_iff add.commute)
  next
    case False
    then have "(i + n) mod 32 = i + n - 32" using i assms by (simp add: mod_if)
    then show ?thesis using i assms False by (auto simp: ROTR_def lo_bits lo_SHR bit_simps bit_word_rotr_iff add.commute)
  qed
qed

lemma lo_S: "lo (S0 x) = sigma0 (lo x)" "lo (S1 x) = sigma1 (lo x)" "lo (S2 x) = Sum0 (lo x)" "lo (S3 x) = Sum1 (lo x)"
  by (simp_all add: S0_def S1_def S2_def S3_def sigma0_def sigma1_def Sum0_def Sum1_def lo_bits lo_ROTR lo_SHR)

lemma lo_F: "lo (F0 x y z) = Maj (lo x) (lo y) (lo z)" "lo (F1 x y z) = Ch (lo x) (lo y) (lo z)"
  unfolding F0_def F1_def Maj_def Ch_def lo_bits by (rule bit_word_eqI; auto simp: bit_simps)+

lemmas lo_simps = lo_add lo_S lo_F

lemma four: "i + 4 \<le> length b \<Longrightarrow> take 4 (drop i b) = [b ! i, b ! (i + 1), b ! (i + 2), b ! (i + 3)]"
  by (rule nth_equalityI) (auto simp: less_Suc_eq eval_nat_numeral)

lemma shift_byte: "push_bit 8 x OR ucast (b :: u8) = x * 256 + (of_nat (unat b) :: u32)"
proof -
  have "push_bit 8 x OR ucast b = push_bit 8 x + (ucast b :: u32)"
    by (rule disjunctive_add[symmetric]) (auto simp: bit_simps dest: bit_imp_le_length)
  also have "\<dots> = x * 256 + of_nat (unat b)"
    by (simp only: of_nat_unat push_bit_eq_mult) simp
  finally show ?thesis .
qed

lemma lo_push: "lo (push_bit k x) = push_bit k (lo x)" "lo (ucast (b :: u8)) = ucast b"
  by (rule bit_word_eqI; auto simp: bit_simps)+

lemma lo_GET:
  assumes "i + 4 \<le> length b" shows "lo (GET_UINT32 b i) = be32 (take 4 (drop i b))"
proof -
  have "lo (GET_UINT32 b i) = push_bit 8 (push_bit 8 (push_bit 8 (ucast (b ! i)) OR ucast (b ! (i + 1)))
      OR ucast (b ! (i + 2))) OR (ucast (b ! (i + 3)) :: u32)"
    by (simp add: GET_UINT32_def lo_bits lo_push push_bit_or or.assoc)
  also have "\<dots> = be32 (take 4 (drop i b))"
    unfolding shift_byte four[OF assms] be32_def
    by (simp only: of_nat_unat foldl_Cons foldl_Nil of_nat_add of_nat_mult of_nat_numeral mult_zero_left add_0_left)
  finally show ?thesis .
qed

lemma R_nth:
  "length (R W) = Suc (length W)" "t < length W \<Longrightarrow> R W ! t = W ! t"
  "t = length W \<Longrightarrow> R W ! t = S1 (W ! (t - 2)) + W ! (t - 7) + S0 (W ! (t - 15)) + W ! (t - 16)"
  by (auto simp: R_def Let_def nth_append)

lemma R_length: "length ((R ^^ k) W) = length W + k"
  by (induction k) (auto simp: R_nth)

lemma schedule_low:
  assumes "length data = 64" "t < 16 + k"
  shows "lo ((R ^^ k) (map (\<lambda>i. GET_UINT32 data (4 * i)) [0..<16]) ! t) = schedule_word data t"
  using assms(2)
proof (induction k arbitrary: t)
  case 0
  then show ?case using assms(1) by (simp add: lo_GET schedule_word.simps[of _ t] del: upt_rec_numeral)
next
  case (Suc k)
  define W where "W = (R ^^ k) (map (\<lambda>i. GET_UINT32 data (4 * i)) [0..<16])"
  have len: "length W = 16 + k" by (simp add: W_def R_length)
  have W: "lo (W ! t) = schedule_word data t" if "t < 16 + k" for t using Suc.IH[OF that] by (simp add: W_def)
  have "lo (R W ! t) = schedule_word data t"
  proof (cases "t < 16 + k")
    case True
    then show ?thesis using W[OF True] len by (simp add: R_nth)
  next
    case False
    then have t: "t = 16 + k" using Suc.prems by simp
    then have "lo (R W ! t) = lo (S1 (W ! (t - 2)) + W ! (t - 7) + S0 (W ! (t - 15)) + W ! (t - 16))"
      using R_nth(3)[of t W] len by simp
    also have "\<dots> = schedule_word data t"
      using W t by (subst schedule_word.simps) (simp add: lo_simps)
    finally show ?thesis .
  qed
  then show ?case by (simp add: W_def)
qed

subsection \<open>One block\<close>

lemma round_constant_low:
  assumes "t < 64" shows "lo (round_constants ! t) = root_bits 3 (first_primes ! t)"
proof -
  have len: "length round_constants = 64" "length cube_roots = 64" "length first_primes = 64"
    by (simp_all add: round_constants_def cube_roots_def first_primes_def)
  have "map (\<lambda>k. ucast k :: u32) round_constants ! t = map of_nat cube_roots ! t"
    by (simp only: round_constants_low)
  then have "lo (round_constants ! t) = of_nat (cube_roots ! t)" using assms len by simp
  moreover have "root_bits 3 (first_primes ! t) = of_nat (cube_roots ! t)"
    using list_all2_nthD[OF cube_roots_ok, of t] assms len by (intro root_bits_eq) auto
  ultimately show ?thesis by simp
qed

lemma P_low:
  assumes "P a b c d e f g h x K = (d', h')"
  shows "hash_round (lo x) (lo K) (lo a, lo b, lo c, lo d, lo e, lo f, lo g, lo h)
    = (lo h', lo a, lo b, lo c, lo d', lo e, lo f, lo g)"
  using assms by (auto simp: P_def Let_def lo_simps)

lemma eight_rounds_low:
  "lo_regs (eight_rounds w k r) = fold (\<lambda>i. hash_round (lo (w ! i)) (lo (k ! i))) [0..<8] (lo_regs r)"
proof -
  obtain A B C D E F G H where r: "r = (A, B, C, D, E, F, G, H)" by (cases r) auto
  obtain D1 H1 where 1: "P A B C D E F G H (w ! 0) (k ! 0) = (D1, H1)" by fastforce
  obtain C2 G2 where 2: "P H1 A B C D1 E F G (w ! 1) (k ! 1) = (C2, G2)" by fastforce
  obtain B3 F3 where 3: "P G2 H1 A B C2 D1 E F (w ! 2) (k ! 2) = (B3, F3)" by fastforce
  obtain A4 E4 where 4: "P F3 G2 H1 A B3 C2 D1 E (w ! 3) (k ! 3) = (A4, E4)" by fastforce
  obtain H5 D5 where 5: "P E4 F3 G2 H1 A4 B3 C2 D1 (w ! 4) (k ! 4) = (H5, D5)" by fastforce
  obtain G6 C6 where 6: "P D5 E4 F3 G2 H5 A4 B3 C2 (w ! 5) (k ! 5) = (G6, C6)" by fastforce
  obtain F7 B7 where 7: "P C6 D5 E4 F3 G6 H5 A4 B3 (w ! 6) (k ! 6) = (F7, B7)" by fastforce
  obtain E8 A8 where 8: "P B7 C6 D5 E4 F7 G6 H5 A4 (w ! 7) (k ! 7) = (E8, A8)" by fastforce
  have upt: "[0..<8] = [0, 1, 2, 3, 4, 5, 6, 7 :: nat]" by (simp add: upt_rec)
  have "eight_rounds w k r = (A8, B7, C6, D5, E8, F7, G6, H5)"
    unfolding r eight_rounds.simps Let_def 1 2 3 4 5 6 7 8 prod.case ..
  moreover have "fold (\<lambda>i. hash_round (lo (w ! i)) (lo (k ! i))) [0..<8] (lo_regs r)
      = (lo A8, lo B7, lo C6, lo D5, lo E8, lo F7, lo G6, lo H5)"
    unfolding upt r lo_regs.simps fold_simps
      P_low[OF 1] P_low[OF 2] P_low[OF 3] P_low[OF 4] P_low[OF 5] P_low[OF 6] P_low[OF 7] P_low[OF 8] ..
  ultimately show ?thesis by simp
qed

lemma fold_eights: "fold (\<lambda>i. fold (\<lambda>t. g (8 * i + t)) [0..<8]) [0..<n] s = fold g [0..<8 * n] s"
proof (induction n)
  case (Suc n)
  have "[0..<8 * Suc n] = [0..<8 * n] @ map (\<lambda>t. 8 * n + t) [0..<8]"
    using upt_add_eq_append[of 0 "8 * n" 8] map_add_upt[of "8 * n" 8] by (simp add: add.commute)
  with Suc show ?case by (simp add: fold_map comp_def)
qed simp

lemma lo_regs_fold:
  assumes "\<And>i r. i \<in> set is \<Longrightarrow> lo_regs (f i r) = g i (lo_regs r)"
  shows "lo_regs (fold f is r) = fold g is (lo_regs r)"
  using assms by (induction "is" arbitrary: r) auto

lemma list_of_registers_length: "length (list_of_registers r) = 8"
  by (cases r rule: list_of_registers.cases) simp

lemma lo_map2: "length s = 8 \<Longrightarrow>
  lo_regs (registers_of (map2 (+) s (list_of_registers r))) = hash_add (lo_regs (registers_of s)) (lo_regs r)"
  by (cases r) (auto simp: registers_of_def lo_add)

lemma process_block_low:
  assumes "length s = 8" "length data = 64"
  shows "length (process_block s data) = 8"
    "lo_regs (registers_of (process_block s data)) = hash_block (lo_regs (registers_of s)) data"
proof -
  define W where "W = (R ^^ 48) (map (\<lambda>i. GET_UINT32 data (4 * i)) [0..<16])"
  have W: "length W = 64" "\<And>t. t < 64 \<Longrightarrow> lo (W ! t) = schedule_word data t"
    using schedule_low[OF assms(2), of _ 48] by (simp_all add: W_def R_length)
  let ?regs = "fold (\<lambda>i. eight_rounds (drop (8 * i) W) (drop (8 * i) round_constants)) [0..<8] (registers_of s)"
  have len: "length round_constants = 64" by (simp add: round_constants_def)
  have pb: "process_block s data = map2 (+) s (list_of_registers ?regs)"
    by (simp add: process_block_def Let_def W_def)
  show "length (process_block s data) = 8" using assms(1) by (simp add: pb list_of_registers_length)
  have "lo_regs ?regs = fold (\<lambda>i. fold (\<lambda>t. hash_round (schedule_word data (8 * i + t)) (root_bits 3 (first_primes ! (8 * i + t)))) [0..<8])
      [0..<8] (lo_regs (registers_of s))"
  proof (rule lo_regs_fold)
    fix i r assume "i \<in> set [0..<8 :: nat]"
    then have i: "i < 8" by simp
    show "lo_regs (eight_rounds (drop (8 * i) W) (drop (8 * i) round_constants) r)
        = fold (\<lambda>t. hash_round (schedule_word data (8 * i + t)) (root_bits 3 (first_primes ! (8 * i + t)))) [0..<8] (lo_regs r)"
      unfolding eight_rounds_low
      by (rule fold_cong[OF refl refl]) (use i W len in \<open>simp add: round_constant_low\<close>)
  qed
  also have "\<dots> = fold (\<lambda>t. hash_round (schedule_word data t) (root_bits 3 (first_primes ! t))) [0..<64] (lo_regs (registers_of s))"
    using fold_eights[of "\<lambda>t. hash_round (schedule_word data t) (root_bits 3 (first_primes ! t))" 8] by simp
  finally show "lo_regs (registers_of (process_block s data)) = hash_block (lo_regs (registers_of s)) data"
    using assms(1) by (simp add: pb lo_map2 hash_block_def)
qed

subsection \<open>The stream\<close>

lemma hash_blocks_short: "length m < 64 \<Longrightarrow> hash_blocks s m = s"
  by (subst hash_blocks.simps) simp

lemma hash_blocks_step: "64 \<le> length m \<Longrightarrow> hash_blocks s m = hash_blocks (hash_block s (take 64 m)) (drop 64 m)"
  by (subst hash_blocks.simps) simp

lemma hash_blocks_append:
  "64 dvd length a \<Longrightarrow> hash_blocks s (a @ b) = hash_blocks (hash_blocks s a) b"
proof (induction s a rule: hash_blocks.induct)
  case (1 s a)
  show ?case
  proof (cases "length a < 64")
    case True
    with "1.prems" have "a = []" using nat_dvd_not_less by fastforce
    then show ?thesis by (simp add: hash_blocks_short)
  next
    case False
    then have "64 dvd length (drop 64 a)" using "1.prems" by simp
    with False "1.IH"[OF False] show ?thesis
      by (simp add: hash_blocks_step[of a] hash_blocks_step[of "a @ b"])
  qed
qed

lemma update_blocks_low:
  assumes "length (state ctx) = 8"
  shows "update_blocks ctx input = (ctx\<lparr>state := state (fst (update_blocks ctx input))\<rparr>, drop (64 * (length input div 64)) input)
    \<and> length (state (fst (update_blocks ctx input))) = 8
    \<and> lo_regs (registers_of (state (fst (update_blocks ctx input)))) = hash_blocks (lo_regs (registers_of (state ctx))) input"
  using assms
proof (induction ctx input rule: update_blocks.induct)
  case (1 ctx input)
  show ?case
  proof (cases "64 \<le> length input")
    case True
    let ?c = "sha256_process ctx (take 64 input)"
    have c: "length (state ?c) = 8" "lo_regs (registers_of (state ?c)) = hash_block (lo_regs (registers_of (state ctx))) (take 64 input)"
      using process_block_low[OF "1.prems", of "take 64 input"] True by (simp_all add: sha256_process_def)
    have u: "update_blocks ctx input = update_blocks ?c (drop 64 input)" using True by (subst update_blocks.simps) simp
    have d: "drop (64 * (length (drop 64 input) div 64)) (drop 64 input) = drop (64 * (length input div 64)) input"
    proof -
      have "length input div 64 = Suc (length (drop 64 input) div 64)" using True by (simp add: le_div_geq)
      then show ?thesis by (simp add: add.commute)
    qed
    have h: "hash_blocks (lo_regs (registers_of (state ctx))) input = hash_blocks (hash_block (lo_regs (registers_of (state ctx))) (take 64 input)) (drop 64 input)"
      using True by (subst hash_blocks.simps) simp
    show ?thesis using "1.IH"[OF True c(1)] unfolding u d c(2) h
      by (metis (no_types, lifting) fst_conv sha256_context.update_convs(3) sha256_context.surjective sha256_process_def)
  next
    case False
    then show ?thesis using "1.prems" by (subst (1 2 3 4) update_blocks.simps) (simp add: hash_blocks_short)
  qed
qed

lemma memcpy_at_take: "length src + i \<le> length buf \<Longrightarrow> take (i + length src) (memcpy_at buf i src) = take i buf @ src"
  "length src + i \<le> length buf \<Longrightarrow> length (memcpy_at buf i src) = length buf"
  by (auto simp: memcpy_at_def)

lemma split_blocks:
  assumes "64 dvd length full" "length rest < 64"
  shows "length (full @ rest) mod 64 = length rest" "drop (64 * (length (full @ rest) div 64)) (full @ rest) = rest"
proof -
  obtain q where q: "length full = 64 * q" using assms(1) by (auto elim: dvdE)
  with assms(2) have "(64 * q + length rest) div 64 = q" "(64 * q + length rest) mod 64 = length rest" by simp_all
  with q show "length (full @ rest) mod 64 = length rest" "drop (64 * (length (full @ rest) div 64)) (full @ rest) = rest"
    by simp_all
qed

lemma tail_phase:
  assumes "length (state ctx) = 8" "length (buffer ctx) = 64" "64 dvd length full"
    and "lo_regs (registers_of (state ctx)) = hash_blocks initial_hash full"
    and "take (length rest) (buffer ctx) = rest" "length rest < 64" "rest = [] \<or> length input < 64 - length rest"
  shows "stream_ok (state (store_rest (update_blocks ctx input) (length rest)))
    (buffer (store_rest (update_blocks ctx input) (length rest))) (full @ rest @ input)"
proof -
  define q where "q = length input div 64"
  define input3 where "input3 = drop (64 * q) input"
  obtain s3 where s3: "update_blocks ctx input = (ctx\<lparr>state := s3\<rparr>, input3)" "length s3 = 8"
    "lo_regs (registers_of s3) = hash_blocks (hash_blocks initial_hash full) input"
    using update_blocks_low[OF assms(1), of input] by (auto simp: input3_def q_def assms(4))
  have q0: "q = 0" if "rest \<noteq> []" using assms(7) that by (simp add: q_def)
  have short: "length rest + length input3 < 64"
    using assms(6,7) q0 by (cases "rest = []") (auto simp: input3_def q_def minus_mult_div_eq_mod)
  have "64 * q \<le> length input" by (simp add: q_def)
  then have lenq: "length (take (64 * q) input) = 64 * q" by simp
  have full': "64 dvd length (full @ take (64 * q) input)"
    using assms(3) by (simp only: length_append lenq dvd_add dvd_triv_left)
  have whole: "full @ rest @ input = (full @ take (64 * q) input) @ (rest @ input3)"
    using q0 by (cases "rest = []") (auto simp: input3_def)
  have "hash_blocks initial_hash (full @ rest @ input) = lo_regs (registers_of s3)"
  proof -
    have "hash_blocks initial_hash (full @ rest @ input) = hash_blocks initial_hash (full @ take (64 * q) input)"
      unfolding whole using hash_blocks_append[OF full'] short by (simp add: hash_blocks_short)
    also have "\<dots> = hash_blocks (hash_blocks initial_hash full) (take (64 * q) input)" by (rule hash_blocks_append[OF assms(3)])
    also have "\<dots> = hash_blocks (hash_blocks initial_hash full) (take (64 * q) input @ input3)"
      using hash_blocks_append[of "take (64 * q) input"] short lenq by (simp add: hash_blocks_short)
    finally show ?thesis by (simp add: s3(3) input3_def)
  qed
  moreover have "take (length rest + length input3) (buffer (store_rest (update_blocks ctx input) (length rest))) = rest @ input3"
    "length (buffer (store_rest (update_blocks ctx input) (length rest))) = 64"
    using short assms(2,5) memcpy_at_take[of input3 "length rest" "buffer ctx"]
    by (auto simp: store_rest_def s3(1))
  moreover have "state (store_rest (update_blocks ctx input) (length rest)) = s3"
    by (simp add: store_rest_def s3(1))
  ultimately show ?thesis
    using split_blocks[OF full', of "rest @ input3"] short s3(2) unfolding stream_ok_def whole by simp
qed

lemma unat_and_masks:
  "unat (x AND 0x3F :: u64) = unat x mod 64" "unat (x AND 0xFFFFFFFF :: u64) = unat x mod 2 ^ 32"
proof -
  have "(0x3F :: u64) = mask 6" "(0xFFFFFFFF :: u64) = mask 32" by (simp_all add: mask_eq_exp_minus_1)
  then have "x AND 0x3F = take_bit 6 x" "x AND 0xFFFFFFFF = take_bit 32 x" by (simp_all add: take_bit_eq_mask)
  then show "unat (x AND 0x3F) = unat x mod 64" "unat (x AND 0xFFFFFFFF) = unat x mod 2 ^ 32"
    by (simp_all add: take_bit_eq_mod unat_mod)
qed

lemma carry_step:
  fixes n l b :: nat
  assumes "0 < b" "l < b" "0 < l"
  shows "(n + l) div b = n div b + (if (n mod b + l) mod b < l then 1 else 0)"
proof -
  have "n + l = (n mod b + l) + n div b * b" using div_mult_mod_eq[of n b] by linarith
  then have "(n + l) div b = ((n mod b + l) + n div b * b) div b" by simp
  also have "\<dots> = n div b + (n mod b + l) div b" using assms(1) by (intro div_mult_self1) simp
  finally have "(n + l) div b = n div b + (n mod b + l) div b" .
  moreover have "(n mod b + l) div b = (if (n mod b + l) mod b < l then 1 else 0)"
  proof (cases "n mod b + l < b")
    case False
    have small: "n mod b + l - b < b" "n mod b < b" using assms mod_less_divisor[OF assms(1), of n] by linarith+
    with False have "(n mod b + l) mod b = n mod b + l - b" "(n mod b + l) div b = Suc 0"
      using assms(1) by (simp_all add: le_mod_geq le_div_geq)
    with small(2) False show ?thesis by simp
  qed simp
  ultimately show ?thesis by simp
qed

lemma counted_step:
  assumes "counted t0 t1 n" "0 < l" "l < 2 ^ 32"
  shows "counted ((t0 + of_nat l) AND 0xFFFFFFFF)
    (if (t0 + of_nat l) AND 0xFFFFFFFF < (of_nat l :: u64) then t1 + 1 else t1) (n + l)"
proof -
  let ?b = "2 ^ 32 :: nat"
  have t0: "unat t0 = n mod ?b" and t1: "unat t1 = n div ?b mod 2 ^ 64" using assms(1) by (simp_all add: counted_def)
  have ul: "unat (of_nat l :: u64) = l" using assms(3) by (simp add: unat_of_nat)
  have "n mod ?b < ?b" by simp
  then have "unat t0 + unat (of_nat l :: u64) < 2 ^ 64" using t0 ul assms(3) by simp
  then have "unat (t0 + of_nat l) = n mod ?b + l" unfolding unat_word_ariths using t0 ul by simp
  then have ut: "unat ((t0 + of_nat l) AND 0xFFFFFFFF) = (n mod ?b + l) mod ?b" by (simp only: unat_and_masks)
  have less: "(t0 + of_nat l) AND 0xFFFFFFFF < (of_nat l :: u64) \<longleftrightarrow> (n mod ?b + l) mod ?b < l"
    unfolding word_less_nat_alt ut ul ..
  have "(n + l) mod ?b = (n mod ?b + l) mod ?b" by (simp add: mod_add_left_eq)
  moreover have "unat (t1 + 1) = (n div ?b + 1) mod 2 ^ 64"
    unfolding unat_word_ariths t1 by (simp add: mod_Suc_eq)
  ultimately show ?thesis
    using carry_step[of ?b l n] assms(2,3) ut t1 unfolding counted_def less by simp
qed

lemma sha256_update_cases:
  assumes "input \<noteq> []" "left = unat (total0 ctx AND 0x3F)"
  shows "sha256_update ctx input =
    (let len = of_nat (length input); t0 = (total0 ctx + len) AND 0xFFFFFFFF;
         ctx1 = ctx\<lparr>total0 := t0, total1 := (if t0 < len then total1 ctx + 1 else total1 ctx)\<rparr>
     in if left \<noteq> 0 \<and> length input \<ge> 64 - left
        then store_rest (update_blocks (sha256_process (ctx1\<lparr>buffer := memcpy_at (buffer ctx) left (take (64 - left) input)\<rparr>)
               (memcpy_at (buffer ctx) left (take (64 - left) input))) (drop (64 - left) input)) 0
        else store_rest (update_blocks ctx1 input) left)"
  using assms by (simp add: sha256_update_def Let_def store_rest_def split: prod.splits)

lemma store_rest_totals:
  assumes "length (state ctx) = 8"
  shows "total0 (store_rest (update_blocks ctx input) k) = total0 ctx" "total1 (store_rest (update_blocks ctx input) k) = total1 ctx"
proof -
  have "fst (update_blocks ctx input) = ctx\<lparr>state := state (fst (update_blocks ctx input))\<rparr>"
    using update_blocks_low[OF assms, of input] by (metis fst_conv)
  then have "total0 (fst (update_blocks ctx input)) = total0 ctx" "total1 (fst (update_blocks ctx input)) = total1 ctx"
    by (metis sha256_context.select_convs(1) sha256_context.surjective sha256_context.update_convs(3),
        metis sha256_context.select_convs(2) sha256_context.surjective sha256_context.update_convs(3))
  then show "total0 (store_rest (update_blocks ctx input) k) = total0 ctx" "total1 (store_rest (update_blocks ctx input) k) = total1 ctx"
    by (simp_all add: store_rest_def)
qed

lemma represents_split:
  assumes "represents ctx m"
  obtains full rest where "m = full @ rest" "64 dvd length full" "length rest < 64"
    "lo_regs (registers_of (state ctx)) = hash_blocks initial_hash full"
    "take (length rest) (buffer ctx) = rest" "unat (total0 ctx AND 0x3F) = length rest"
    "length (state ctx) = 8" "length (buffer ctx) = 64" "counted (total0 ctx) (total1 ctx) (length m)"
proof -
  define full where "full = take (64 * (length m div 64)) m"
  define rest where "rest = drop (64 * (length m div 64)) m"
  have ok: "length (state ctx) = 8" "length (buffer ctx) = 64" "lo_regs (registers_of (state ctx)) = hash_blocks initial_hash m"
    "take (length m mod 64) (buffer ctx) = rest" and cnt: "counted (total0 ctx) (total1 ctx) (length m)"
    using assms by (auto simp: represents_def stream_ok_def rest_def)
  have m: "m = full @ rest" by (simp add: full_def rest_def)
  have lrest: "length rest = length m mod 64" by (simp add: rest_def minus_mult_div_eq_mod)
  have lfull: "64 dvd length full" by (simp add: full_def)
  have "unat (total0 ctx AND 0x3F) = (length m mod 2 ^ 32) mod 64" using cnt by (simp add: unat_and_masks counted_def)
  also have "\<dots> = length m mod 64" by (rule mod_mod_cancel) simp
  finally have left: "unat (total0 ctx AND 0x3F) = length rest" by (simp add: lrest)
  have "hash_blocks initial_hash m = hash_blocks initial_hash full"
    unfolding m using hash_blocks_append[OF lfull] lrest by (simp add: hash_blocks_short)
  then show ?thesis using that[OF m lfull _ _ _ left ok(1,2) cnt] ok lrest by simp
qed

lemma sha256_update_represents:
  assumes "represents ctx m" "length input < 2 ^ 32"
  shows "represents (sha256_update ctx input) (m @ input)"
proof (cases "input = []")
  case True
  with assms(1) show ?thesis by (simp add: sha256_update_def)
next
  case False
  obtain full rest where m: "m = full @ rest" and lfull: "64 dvd length full" and rest64: "length rest < 64"
    and hb: "lo_regs (registers_of (state ctx)) = hash_blocks initial_hash full"
    and buf: "take (length rest) (buffer ctx) = rest" and left: "unat (total0 ctx AND 0x3F) = length rest"
    and ok: "length (state ctx) = 8" "length (buffer ctx) = 64" and cnt: "counted (total0 ctx) (total1 ctx) (length m)"
    by (rule represents_split[OF assms(1)])
  define len where "len = (of_nat (length input) :: u64)"
  define t0 where "t0 = (total0 ctx + len) AND 0xFFFFFFFF"
  define ctx1 where "ctx1 = ctx\<lparr>total0 := t0, total1 := (if t0 < len then total1 ctx + 1 else total1 ctx)\<rparr>"
  have c1: "state ctx1 = state ctx" "buffer ctx1 = buffer ctx" "counted (total0 ctx1) (total1 ctx1) (length (m @ input))"
    using counted_step[OF cnt, of "length input"] assms(2) False by (simp_all add: ctx1_def t0_def len_def)
  show ?thesis
  proof (cases "length rest \<noteq> 0 \<and> length input \<ge> 64 - length rest")
    case True
    define fill where "fill = take (64 - length rest) input"
    define ctx2 where "ctx2 = sha256_process (ctx1\<lparr>buffer := memcpy_at (buffer ctx) (length rest) fill\<rparr>)
        (memcpy_at (buffer ctx) (length rest) fill)"
    have mem: "memcpy_at (buffer ctx) (length rest) fill = rest @ fill"
      using True ok rest64 buf by (simp add: memcpy_at_def fill_def)
    have lblock: "length (rest @ fill) = 64" using True rest64 by (simp add: fill_def)
    have c2: "length (state ctx2) = 8" "buffer ctx2 = rest @ fill" "total0 ctx2 = total0 ctx1" "total1 ctx2 = total1 ctx1"
      "lo_regs (registers_of (state ctx2)) = hash_block (hash_blocks initial_hash full) (rest @ fill)"
      using process_block_low[OF ok(1) lblock] hb by (simp_all add: ctx2_def sha256_process_def mem c1)
    have "lo_regs (registers_of (state ctx2)) = hash_blocks initial_hash (full @ rest @ fill)"
      using c2(5) hash_blocks_append[OF lfull] lblock by (simp add: hash_blocks_step[of "rest @ fill"] hash_blocks_short)
    then have "stream_ok (state (store_rest (update_blocks ctx2 (drop (64 - length rest) input)) (length ([] :: u8 list))))
        (buffer (store_rest (update_blocks ctx2 (drop (64 - length rest) input)) (length ([] :: u8 list))))
        ((full @ rest @ fill) @ [] @ drop (64 - length rest) input)"
      using c2 lblock lfull by (intro tail_phase) simp_all
    moreover have "(full @ rest @ fill) @ [] @ drop (64 - length rest) input = m @ input" by (simp add: m fill_def)
    moreover have "sha256_update ctx input = store_rest (update_blocks ctx2 (drop (64 - length rest) input)) 0"
      using sha256_update_cases[OF False left[symmetric]]
      by (simp only: Let_def ctx2_def ctx1_def t0_def len_def fill_def if_P[OF True])
    ultimately show ?thesis using c1(3) store_rest_totals[OF c2(1)] c2(3,4) by (simp add: represents_def)
  next
    case small: False
    have "stream_ok (state (store_rest (update_blocks ctx1 input) (length rest)))
        (buffer (store_rest (update_blocks ctx1 input) (length rest))) (full @ rest @ input)"
      using ok c1 lfull hb buf rest64 small by (intro tail_phase) auto
    moreover have "sha256_update ctx input = store_rest (update_blocks ctx1 input) (length rest)"
      using sha256_update_cases[OF False left[symmetric]]
      by (simp only: Let_def ctx1_def t0_def len_def if_not_P[OF small])
    ultimately show ?thesis using c1 ok(1) store_rest_totals[of ctx1] by (simp add: represents_def m)
  qed
qed

subsection \<open>The end of the message\<close>

lemma PUT_low: "PUT_UINT32 x = be_bytes 4 (unat (lo x))"
proof -
  have "ucast (drop_bit k x) = (of_nat (unat (lo x) div 2 ^ k) :: u8)" if "k \<le> 24" for k
  proof -
    have "unat (lo x) div 2 ^ k = unat (drop_bit k (lo x))" by (simp only: unat_drop_bit_eq drop_bit_eq_div[of k "unat (lo x)"])
    then have "(of_nat (unat (lo x) div 2 ^ k) :: u8) = ucast (drop_bit k (lo x))" by (simp only: of_nat_unat)
    also have "\<dots> = ucast (drop_bit k x)" using that by (intro bit_word_eqI) (auto simp: bit_simps)
    finally show ?thesis by simp
  qed
  from this[of 24] this[of 16] this[of 8] this[of 0] show ?thesis
    by (simp add: PUT_UINT32_def be_bytes_def upt_rec)
qed

lemma be_bytes_mod: "be_bytes 4 (unat (of_nat v :: u32)) = be_bytes 4 v"
proof -
  have "(of_nat (v mod 2 ^ 32 div 2 ^ k) :: u8) = of_nat (v div 2 ^ k)" if "k \<le> 24" for k
  proof -
    have "take_bit 8 (drop_bit k (take_bit 32 v)) = take_bit 8 (drop_bit k v)"
      using that by (auto simp: bit_eq_iff bit_simps)
    then have "take_bit LENGTH(8) (v mod 2 ^ 32 div 2 ^ k) = take_bit LENGTH(8) (v div 2 ^ k)"
      by (simp only: take_bit_eq_mod drop_bit_eq_div len_of_numeral_defs) simp
    then show ?thesis by (simp only: word_of_nat_eq_iff)
  qed
  from this[of 24] this[of 16] this[of 8] this[of 0] show ?thesis
    by (simp add: be_bytes_def upt_rec unat_of_nat)
qed

lemma be_bytes_8: "be_bytes 8 v = be_bytes 4 (v div 2 ^ 32) @ be_bytes 4 v"
  by (simp add: be_bytes_def upt_rec div_mult2_eq[symmetric])

lemma counted_words:
  assumes "counted t0 t1 n"
  shows "t0 = of_nat (take_bit 32 n)" "t1 = of_nat (drop_bit 32 n)"
proof -
  have "t0 = of_nat (unat t0)" "t1 = of_nat (unat t1)" by simp_all
  then show "t0 = of_nat (take_bit 32 n)" "t1 = of_nat (drop_bit 32 n)"
    using assms by (auto simp: counted_def take_bit_eq_mod drop_bit_eq_div word_of_nat_eq_iff simp del: of_nat_unat)
qed

lemma msglen_bytes:
  assumes "counted t0 t1 n"
  shows "PUT_UINT32 (drop_bit 29 t0 OR push_bit 3 t1) @ PUT_UINT32 (push_bit 3 t0) = be_bytes 8 (8 * n)"
proof -
  have "lo (drop_bit 29 t0 OR push_bit 3 t1) = of_nat (drop_bit 29 n)"
    unfolding counted_words[OF assms] by (rule bit_word_eqI) (auto simp: bit_simps not_less le_Suc_ex add.commute)
  moreover have "lo (push_bit 3 t0) = of_nat (push_bit 3 n)"
    unfolding counted_words[OF assms] by (rule bit_word_eqI) (auto simp: bit_simps)
  moreover have "drop_bit 29 n = (8 * n) div 2 ^ 32" "push_bit 3 n = 8 * n"
    by (simp_all add: drop_bit_eq_div push_bit_eq_mult)
  ultimately show ?thesis by (simp only: PUT_low be_bytes_mod be_bytes_8)
qed

lemma padding_bytes:
  "take (if l < 56 then 56 - l else 120 - l) sha256_padding = 0x80 # replicate ((119 - l) mod 64) 0" if "l < 64" for l
proof -
  define k where "k = (if l < 56 then 56 - l else 120 - l)"
  have k: "k = Suc ((119 - l) mod 64)"
  proof (cases "l < 56")
    case True
    then have "119 - l = (55 - l) + 64" by simp
    then have "(119 - l) mod 64 = (55 - l) mod 64" by (simp only: mod_add_self2)
    with True show ?thesis by (simp add: k_def)
  next
    case False
    then show ?thesis using that by (simp add: k_def)
  qed
  have "(119 - l) mod 64 < 64" by simp
  then show ?thesis unfolding k_def[symmetric] k sha256_padding_def by (simp add: min_def del: replicate.simps)
qed

lemma registers_bytes: "length s = 8 \<Longrightarrow> concat (map PUT_UINT32 s) = hash_bytes (lo_regs (registers_of s))"
  by (auto simp: registers_of_def PUT_low length_Suc_conv eval_nat_numeral)

lemma sha256_finish_represents:
  assumes "represents ctx m" shows "sha256_finish ctx = sha256_spec m"
proof -
  define last where "last = unat (total0 ctx AND 0x3F)"
  define pad where "pad = take (if last < 56 then 56 - last else 120 - last) sha256_padding"
  define msglen where "msglen = PUT_UINT32 (drop_bit 29 (total0 ctx) OR push_bit 3 (total1 ctx)) @ PUT_UINT32 (push_bit 3 (total0 ctx))"
  obtain full rest where sp: "m = full @ rest" "64 dvd length full" "length rest < 64" "last = length rest"
    "counted (total0 ctx) (total1 ctx) (length m)"
    unfolding last_def by (rule represents_split[OF assms]) blast
  have last: "last = length m mod 64" "last < 64" using sp by (auto elim!: dvdE)
  have pad: "pad = 0x80 # replicate ((119 - length m mod 64) mod 64) 0"
    unfolding pad_def using padding_bytes[OF last(2)] last(1) by simp
  have ml: "msglen = be_bytes 8 (8 * length m)" unfolding msglen_def by (rule msglen_bytes[OF sp(5)])
  have whole: "(m @ pad) @ msglen = sha_pad m" by (simp add: sha_pad_def pad ml)
  have "length pad < 2 ^ 32" "length msglen < 2 ^ 32"
    by (simp_all add: pad_def sha256_padding_def ml be_bytes_def)
  then have rep: "represents (sha256_update (sha256_update ctx pad) msglen) (sha_pad m)"
    using sha256_update_represents assms whole by metis
  have "sha256_finish ctx = concat (map PUT_UINT32 (state (sha256_update (sha256_update ctx pad) msglen)))"
    by (simp add: sha256_finish_def Let_def last_def pad_def msglen_def)
  with rep show ?thesis
    by (simp add: represents_def stream_ok_def registers_bytes sha256_spec_def)
qed

lemma initial_hash_low:
  "lo_regs (registers_of (state (sha256_starts ctx))) = initial_hash"
proof -
  have first: "length first_primes = 64" by (simp add: first_primes_def)
  have "root_bits 2 (first_primes ! t) = of_nat (square_roots ! t)" if "t < 8" for t
    using list_all2_nthD[OF square_roots_ok, of t] that first
    by (intro root_bits_eq) auto
  from this[of 0] this[of 1] this[of 2] this[of 3] this[of 4] this[of 5] this[of 6] this[of 7]
  show ?thesis
    by (simp add: initial_hash_def registers_of_def sha256_starts_def first_primes_def square_roots_def)
qed

lemma sha256_starts_represents: "length (buffer ctx) = 64 \<Longrightarrow> represents (sha256_starts ctx) []"
  using initial_hash_low[of ctx]
  by (simp add: represents_def stream_ok_def counted_def hash_blocks_short) (simp add: sha256_starts_def)

lemma sha256_updates_represent:
  "represents ctx m \<Longrightarrow> list_all (\<lambda>c. length c < 2 ^ 32) cs \<Longrightarrow>
     represents (fold (\<lambda>c ctx. sha256_update ctx c) cs ctx) (m @ concat cs)"
proof (induction cs arbitrary: ctx m)
  case (Cons c cs)
  then show ?case using Cons.IH[OF sha256_update_represents[of ctx m c]] by simp
qed simp

subsection \<open>Properties\<close>

text \<open>
  C7. The implementation computes SHA-256: starting a context, feeding it a message in
  pieces of any sizes below 4 GiB and finishing gives the digest of FIPS 180 of the whole
  message, its constants being the fractional parts of the roots of the first primes. In
  particular the garbage in the upper halves of the variables has no effect.
\<close>

theorem sha256_correct:
  assumes "length (buffer ctx) = 64" "list_all (\<lambda>c. length c < 2 ^ 32) cs"
  shows "sha256_finish (fold (\<lambda>c ctx. sha256_update ctx c) cs (sha256_starts ctx)) = sha256_spec (concat cs)"
  using sha256_finish_represents[OF sha256_updates_represent[OF sha256_starts_represents[OF assms(1)] assms(2)]] by simp

theorem sha256_correct_witness:
  "sha256_finish (sha256_update (sha256_update (sha256_starts
     \<lparr>total0 = 5, total1 = 5, state = [], buffer = replicate 64 7\<rparr>) [0x61]) [0x62, 0x63]) = sha256_spec [0x61, 0x62, 0x63]"
  using sha256_correct[of "\<lparr>total0 = 5, total1 = 5, state = [], buffer = replicate 64 7\<rparr>" "[[0x61], [0x62, 0x63]]"]
  by simp

end
