(* ===== verification/Sup.thy ===== *)
theory Sup
  imports C_Stdlib Sha256
begin

text \<open>
  The superuser tool (\<^verbatim>\<open>src/src/sup/sup.c\<close>), with which the other programs gain privileges: the
  search along PATH, the checksum of the program, and the main function with its options
  and its checks. The rules are compiled in from a generated file and are a parameter, as
  are the kernel and the user database. The flags HASH and DAEMON are set, as in the
  configuration the repository provides.
\<close>

subsection \<open>Data\<close>

record rule_t =
  rule_uid :: int
  rule_gid :: int
  rule_cmd :: string
  rule_path :: string
  rule_hash :: string

record sup_config =
  rules :: "rule_t list"
  SETUID :: int
  SETGID :: int
  CHROOT :: string
  CHRDIR :: string

text \<open>
  The world: the user database (the ids of a user, and whether errno is set when there is
  none), the caller, the environment, the files with their modes, sizes and contents, the
  system calls that change the credentials \<open>'c\<close> of the process, and the outcomes of the
  others.
\<close>

record 'c sup_env =
  getpwnam :: "string \<Rightarrow> (int \<times> int) option \<times> bool"
  getpwuid :: "int \<Rightarrow> string"
  getuid :: int
  getgid :: int
  PATH :: "string option"
  lstat :: "string \<Rightarrow> (u32 \<times> nat) option"
  contents :: "string \<Rightarrow> u8 list option"
  read_error :: "string \<Rightarrow> bool"
  creds :: 'c
  sys_setuid :: "int \<Rightarrow> 'c \<Rightarrow> 'c option"
  sys_setgid :: "int \<Rightarrow> 'c \<Rightarrow> 'c option"
  sys_seteuid :: "int \<Rightarrow> 'c \<Rightarrow> 'c option"
  sys_setegid :: "int \<Rightarrow> 'c \<Rightarrow> 'c option"
  sys_chdir :: "string \<Rightarrow> bool"
  sys_chroot :: bool
  sys_fork :: int
  pidfile_opens :: "string \<Rightarrow> bool"
  exec_works :: bool

datatype 'c sup_result =
    Fail string | Help | Version | Listing "(string \<times> rule_t) list" | Sorry
  | Exec string "string list" 'c "string option"
  | Parent "(string \<times> int) option"

definition MAXCMD :: nat where "MAXCMD = 512"
definition MAXFILEPATH :: nat where "MAXFILEPATH = 4096"
definition CHUNK :: nat where "CHUNK = 1048576"

subsection \<open>The search along PATH\<close>

text \<open>
  \<open>done\<close> is the part of PATH before the current component \<open>dir\<close>. A component is tried when
  the colon behind it is found. On success the colon is left overwritten, which cuts PATH.
\<close>

fun path_scan :: "(string \<Rightarrow> bool) \<Rightarrow> string \<Rightarrow> string \<Rightarrow> string \<Rightarrow> string \<Rightarrow> (string \<times> string) option" where
  "path_scan exists str done dir [] = None"
| "path_scan exists str done dir (c # cs) =
     (if c = CHR '':'' \<and> dir \<noteq> [] \<and> last dir \<noteq> CHR 0x5C then
        let file = take (MAXFILEPATH - 2) (dir @ ''/'' @ str)
        in if exists file then Some (file, done @ dir)
           else path_scan exists str (done @ dir @ '':'') [] cs
      else path_scan exists str done (dir @ [c]) cs)"

text \<open>The file, if there is one, and the value of PATH afterwards.\<close>

definition getpath :: "'c sup_env \<Rightarrow> string \<Rightarrow> string option \<times> string option" where
  "getpath env str =
     (case PATH env of
        None \<Rightarrow> (None, None)
      | Some path \<Rightarrow>
          (case path_scan (\<lambda>f. lstat env f \<noteq> None) str [] [] path of
             None \<Rightarrow> (None, Some path)
           | Some (file, path') \<Rightarrow> (Some file, Some path')))"

subsection \<open>The checksum\<close>

function sha_chunks :: "sha256_context \<Rightarrow> u8 list \<Rightarrow> nat \<Rightarrow> sha256_context \<times> nat" where
  "sha_chunks sha file tot =
     (let buf = take CHUNK file; len = length buf
      in if len < CHUNK then (if len > 0 then sha256_update sha buf else sha, tot + len)
         else sha_chunks (sha256_update sha buf) (drop CHUNK file) (tot + len))"
  by pat_completeness auto
termination
  by (relation "measure (\<lambda>(sha, file, tot). length file)") (auto simp: CHUNK_def)

declare sha_chunks.simps [simp del]

definition static_sha :: sha256_context where
  "static_sha = \<lparr>total0 = 0, total1 = 0, state = replicate 8 0, buffer = replicate 64 0\<rparr>"

definition getsha :: "'c sup_env \<Rightarrow> string \<Rightarrow> string + u8 list \<times> nat" where
  "getsha env path =
     (case contents env path of
        None \<Rightarrow> Inl ''fopen''
      | Some file \<Rightarrow>
          (case sha_chunks (sha256_starts static_sha) file 0 of
             (sha, tot) \<Rightarrow>
               if read_error env path then Inl ''fread'' else Inr (sha256_finish sha, tot)))"

subsection \<open>Options\<close>

record sup_opts =
  target_uid :: int
  target_gid :: int
  fork_daemon :: bool
  sup_pidfile :: string

definition sup_defaults :: sup_opts where
  "sup_defaults = \<lparr>target_uid = 0, target_gid = 0, fork_daemon = False, sup_pidfile = []\<rparr>"

definition sup_optspec :: "char \<Rightarrow> bool option" where
  "sup_optspec c = (if c \<in> {CHR ''h'', CHR ''v'', CHR ''d'', CHR ''l''} then Some False
     else if c \<in> {CHR ''u'', CHR ''g'', CHR ''p''} then Some True else None)"

fun sup_options :: "sup_config \<Rightarrow> 'c sup_env \<Rightarrow> (char \<times> string) list \<Rightarrow> sup_opts \<Rightarrow> 'c sup_result + sup_opts" where
  "sup_options cfg env [] o1 = Inr o1"
| "sup_options cfg env ((c, optarg) # opts) o1 =
     (if c = CHR ''p'' then sup_options cfg env opts (o1\<lparr>sup_pidfile := take (MAXFILEPATH - 1) optarg\<rparr>)
      else if c = CHR ''u'' then
        (case getpwnam env optarg of
           (None, True) \<Rightarrow> Inl (Fail ''uid_getpwnam'')
         | (None, False) \<Rightarrow> sup_options cfg env opts o1
         | (Some (uid, gid), _) \<Rightarrow> sup_options cfg env opts (o1\<lparr>target_uid := uid\<rparr>))
      else if c = CHR ''g'' then
        (case getpwnam env optarg of
           (None, True) \<Rightarrow> Inl (Fail ''gid_getpwnam'')
         | (None, False) \<Rightarrow> sup_options cfg env opts o1
         | (Some (uid, gid), _) \<Rightarrow> sup_options cfg env opts (o1\<lparr>target_gid := gid\<rparr>))
      else if c = CHR ''h'' then Inl Help
      else if c = CHR ''v'' then Inl Version
      else if c = CHR ''d'' then sup_options cfg env opts (o1\<lparr>fork_daemon := True\<rparr>)
      else if c = CHR ''l'' then Inl (Listing (map (\<lambda>r. (getpwuid env (rule_uid r), r)) (rules cfg)))
      else sup_options cfg env opts o1)"

subsection \<open>The checks\<close>

text \<open>basename of libgen: it cuts slashes at the end off its argument. The result is the name and the argument.\<close>

definition after_slash :: "string \<Rightarrow> string" where
  "after_slash s = rev (takeWhile (\<lambda>c. c \<noteq> CHR ''/'') (rev s))"

definition basename :: "string \<Rightarrow> string \<times> string" where
  "basename s =
     (if s = [] then (''.'', s)
      else if last s \<noteq> CHR ''/'' then (after_slash s, s)
      else let t = rev (dropWhile (\<lambda>c. c = CHR ''/'') (rev s))
           in if t = [] then (''/'', s) else (after_slash t, t))"

definition rule_matches :: "string \<Rightarrow> rule_t \<Rightarrow> bool" where
  "rule_matches cmd r \<longleftrightarrow> take 1 (rule_cmd r) = ''*'' \<or> cmd = rule_cmd r"

definition path_given :: "string \<Rightarrow> bool" where
  "path_given s \<longleftrightarrow> take 1 s = ''.'' \<or> take 1 s = ''/''"

text \<open>A command that is not found prints as \<^verbatim>\<open>(null)\<close>.\<close>

definition default_path :: "'c sup_env \<Rightarrow> string \<Rightarrow> string \<times> string option" where
  "default_path env cmd =
     (case getpath env cmd of
        (None, p) \<Rightarrow> (''(null)'', p)
      | (Some f, p) \<Rightarrow> (take (MAXCMD - 1) f, p))"

definition path_check :: "'c sup_env \<Rightarrow> rule_t \<Rightarrow> string \<Rightarrow> string \<Rightarrow> string + string \<times> string option" where
  "path_check env r fullcmd cmd =
     (if take 1 (rule_path r) \<noteq> ''*'' then
        if path_given fullcmd then
          (if rule_path r = fullcmd then Inr (fullcmd, PATH env) else Inl ''path'')
        else (let (full, p) = default_path env cmd
              in if rule_path r = full then Inr (full, p) else Inl ''path'')
      else if path_given fullcmd then Inr (fullcmd, PATH env)
      else Inr (default_path env cmd))"

definition id_allowed :: "int \<Rightarrow> int \<Rightarrow> int \<Rightarrow> bool" where
  "id_allowed super wanted caller \<longleftrightarrow> caller = super \<or> wanted = -1 \<or> wanted = caller"

definition hash_check :: "'c sup_env \<Rightarrow> rule_t \<Rightarrow> string \<Rightarrow> nat \<Rightarrow> string option" where
  "hash_check env r fullcmd st_size =
     (if rule_hash r = [] then None
      else (case getsha env fullcmd of
              Inl e \<Rightarrow> Some e
            | Inr (digest, sizeread) \<Rightarrow>
                if sizeread \<noteq> st_size then Some ''getsha''
                else if take 64 (rule_hash r) \<noteq> concat (map hex2 digest) then Some ''hash''
                else None))"

definition binary_check :: "sup_config \<Rightarrow> 'c sup_env \<Rightarrow> rule_t \<Rightarrow> string \<Rightarrow> string option" where
  "binary_check cfg env r fullcmd =
     (case lstat env fullcmd of
        None \<Rightarrow> Some ''lstat''
      | Some (mode, sz) \<Rightarrow>
          if mode AND 0x12 \<noteq> 0 then Some ''perm''
          else if \<not> id_allowed (SETUID cfg) (rule_uid r) (getuid env) then Some ''uid''
          else if \<not> id_allowed (SETGID cfg) (rule_gid r) (getgid env) then Some ''gid''
          else hash_check env r fullcmd sz)"

definition escalate :: "'c sup_env \<Rightarrow> sup_opts \<Rightarrow> string + 'c" where
  "escalate env o1 =
     (case sys_setuid env (target_uid o1) (creds env) of
        None \<Rightarrow> Inl ''setuid''
      | Some c1 \<Rightarrow>
          (case sys_setgid env (target_gid o1) c1 of
             None \<Rightarrow> Inl ''setgid''
           | Some c2 \<Rightarrow>
               (case sys_seteuid env (target_uid o1) c2 of
                  None \<Rightarrow> Inl ''seteuid''
                | Some c3 \<Rightarrow>
                    (case sys_setegid env (target_gid o1) c3 of
                       None \<Rightarrow> Inl ''setegid''
                     | Some c4 \<Rightarrow> Inr c4))))"

definition enter_dirs :: "sup_config \<Rightarrow> 'c sup_env \<Rightarrow> sup_opts \<Rightarrow> string option" where
  "enter_dirs cfg env o1 =
     (if CHROOT cfg \<noteq> [] \<and> target_uid o1 = 0 \<and> \<not> (sys_chdir env (CHROOT cfg) \<and> sys_chroot env) then Some ''chroot''
      else if CHRDIR cfg \<noteq> [] \<and> \<not> sys_chdir env (CHRDIR cfg) then Some ''chdir''
      else None)"

definition execute :: "'c sup_env \<Rightarrow> string \<Rightarrow> string list \<Rightarrow> 'c \<Rightarrow> string option \<Rightarrow> 'c sup_result" where
  "execute env full args c path = (if exec_works env then Exec full args c path else Fail ''execv'')"

text \<open>With a daemon the parent writes the pid file and exits; the child goes on.\<close>

definition launch :: "'c sup_env \<Rightarrow> sup_opts \<Rightarrow> string \<Rightarrow> string list \<Rightarrow> 'c \<Rightarrow> string option \<Rightarrow> 'c sup_result" where
  "launch env o1 full args c path =
     (if fork_daemon o1 then
        if sys_fork env < 0 then Fail ''fork''
        else if sys_fork env = 0 then execute env full args c path
        else if sup_pidfile o1 = [] then Parent None
        else if pidfile_opens env (sup_pidfile o1) then Parent (Some (sup_pidfile o1, sys_fork env))
        else Fail ''pidfile''
      else execute env full args c path)"

definition apply_rule :: "sup_config \<Rightarrow> 'c sup_env \<Rightarrow> sup_opts \<Rightarrow> string \<Rightarrow> string \<Rightarrow> string list \<Rightarrow> rule_t \<Rightarrow> 'c sup_result" where
  "apply_rule cfg env o1 fullcmd cmd args r =
     (case path_check env r fullcmd cmd of
        Inl e \<Rightarrow> Fail e
      | Inr (full, path) \<Rightarrow>
          (case binary_check cfg env r full of
             Some e \<Rightarrow> Fail e
           | None \<Rightarrow>
               (case escalate env o1 of
                  Inl e \<Rightarrow> Fail e
                | Inr c \<Rightarrow>
                    (case enter_dirs cfg env o1 of
                       Some e \<Rightarrow> Fail e
                     | None \<Rightarrow> launch env o1 full args c path))))"

definition sup_main :: "sup_config \<Rightarrow> 'c sup_env \<Rightarrow> string list \<Rightarrow> 'c sup_result" where
  "sup_main cfg env argv =
     (let (opts, args) = getopt True sup_optspec argv
      in case sup_options cfg env opts sup_defaults of
           Inl res \<Rightarrow> res
         | Inr o1 \<Rightarrow>
             let (cmd, fullcmd) = basename (take (MAXCMD - 1) (case args of [] \<Rightarrow> ''(null)'' | a # _ \<Rightarrow> a))
             in case find (rule_matches cmd) (rules cfg) of
                  None \<Rightarrow> Sorry
                | Some r \<Rightarrow> apply_rule cfg env o1 fullcmd cmd args r)"

subsection \<open>What may be run\<close>

text \<open>
  A program that a rule allows the caller to run: at the path of the rule, not writable by
  others, for the user and group of the rule, and with the checksum of the rule.
\<close>

definition program_authorised :: "sup_config \<Rightarrow> 'c sup_env \<Rightarrow> rule_t \<Rightarrow> string \<Rightarrow> bool" where
  "program_authorised cfg env r full \<longleftrightarrow>
     (take 1 (rule_path r) = ''*'' \<or> rule_path r = full)
   \<and> id_allowed (SETUID cfg) (rule_uid r) (getuid env) \<and> id_allowed (SETGID cfg) (rule_gid r) (getgid env)
   \<and> (\<exists>mode sz. lstat env full = Some (mode, sz) \<and> mode AND 0x12 = 0
        \<and> (rule_hash r \<noteq> [] \<longrightarrow> (\<exists>bytes. contents env full = Some bytes \<and> length bytes = sz
             \<and> take 64 (rule_hash r) = concat (map hex2 (sha256_spec bytes)))))"

text \<open>
  What POSIX says of a process that has given up the superuser's id: it can set its group
  id only to the ones it had, here \<open>gids\<close>.
\<close>

definition drops_group_rights :: "'c sup_env \<Rightarrow> int set \<Rightarrow> bool" where
  "drops_group_rights env gids \<longleftrightarrow>
     (\<forall>u c c' g. u \<noteq> 0 \<longrightarrow> sys_setuid env u c = Some c' \<longrightarrow> g \<notin> gids \<longrightarrow> sys_setgid env g c' = None)"

text \<open>A kernel of that kind for a caller with group 100 and a rule for one program.\<close>

definition posix_setuid :: "int \<Rightarrow> int \<times> int \<Rightarrow> (int \<times> int) option" where
  "posix_setuid u c = (if fst c = 0 \<or> u = fst c then Some (u, snd c) else None)"

definition posix_setgid :: "int \<Rightarrow> int \<times> int \<Rightarrow> (int \<times> int) option" where
  "posix_setgid g c = (if fst c = 0 then Some (fst c, g) else if g = 100 then Some (fst c, g) else None)"

definition demo_sup :: "(int \<times> int) sup_env" where
  "demo_sup = \<lparr>getpwnam = (\<lambda>n. if n = ''dns'' then (Some (53, 53), False) else (None, False)), getpwuid = (\<lambda>_. []),
     getuid = 1000, getgid = 100, PATH = Some ''/bin:/usr/bin'',
     lstat = (\<lambda>f. if f = ''/bin/id'' then Some (0x1ED, 3) else None), contents = (\<lambda>_. Some [1, 2, 3]),
     read_error = (\<lambda>_. False), creds = (0, 100), sys_setuid = posix_setuid, sys_setgid = posix_setgid,
     sys_seteuid = posix_setuid, sys_setegid = posix_setgid, sys_chdir = (\<lambda>_. True), sys_chroot = True,
     sys_fork = 0, pidfile_opens = (\<lambda>_. True), exec_works = True\<rparr>"

definition demo_rules :: sup_config where
  "demo_rules = \<lparr>rules = [\<lparr>rule_uid = 1000, rule_gid = -1, rule_cmd = ''id'', rule_path = ''/bin/id'', rule_hash = []\<rparr>],
     SETUID = 0, SETGID = 0, CHROOT = [], CHRDIR = []\<rparr>"

subsection \<open>Lemmas\<close>

lemma static_sha_represents: "represents (sha256_starts static_sha) []"
  by (rule sha256_starts_represents) (simp add: static_sha_def)

lemma sha_chunks_correct:
  assumes "represents sha m" "sha_chunks sha bytes tot = (sha', tot')"
  shows "represents sha' (m @ bytes) \<and> tot' = tot + length bytes"
  using assms
proof (induction sha bytes tot arbitrary: m rule: sha_chunks.induct)
  case (1 sha bytes tot)
  have small: "length (take CHUNK bytes) < 2 ^ 32" by (simp add: CHUNK_def min_def)
  have step: "represents (sha256_update sha (take CHUNK bytes)) (m @ take CHUNK bytes)"
    by (rule sha256_update_represents[OF "1.prems"(1) small])
  show ?case
  proof (cases "length (take CHUNK bytes) < CHUNK")
    case True
    then have bytes: "take CHUNK bytes = bytes" by auto
    with "1.prems" True step show ?thesis by (subst (asm) sha_chunks.simps) (auto simp: Let_def split: if_splits)
  next
    case False
    from "1.prems"(2) False have "sha_chunks (sha256_update sha (take CHUNK bytes)) (drop CHUNK bytes) (tot + length (take CHUNK bytes)) = (sha', tot')"
      by (subst (asm) sha_chunks.simps) (simp add: Let_def)
    from "1.IH"[OF refl refl _ step this] False show ?thesis by simp
  qed
qed

lemma getsha_correct:
  assumes "getsha env path = Inr (digest, n)"
  shows "\<exists>bytes. contents env path = Some bytes \<and> digest = sha256_spec bytes \<and> n = length bytes"
proof -
  obtain bytes sha where f: "contents env path = Some bytes" "sha_chunks (sha256_starts static_sha) bytes 0 = (sha, n)"
    "digest = sha256_finish sha"
    using assms by (auto simp: getsha_def split: option.splits prod.splits if_splits)
  from sha_chunks_correct[OF static_sha_represents f(2)] sha256_finish_represents f show ?thesis by auto
qed

lemma binary_check_None:
  assumes "binary_check cfg env r full = None" "take 1 (rule_path r) = ''*'' \<or> rule_path r = full"
  shows "program_authorised cfg env r full"
proof -
  obtain mode sz where st: "lstat env full = Some (mode, sz)" "mode AND 0x12 = 0" "hash_check env r full sz = None"
    "id_allowed (SETUID cfg) (rule_uid r) (getuid env)" "id_allowed (SETGID cfg) (rule_gid r) (getgid env)"
    using assms(1) by (auto simp: binary_check_def split: option.splits prod.splits if_splits)
  have "\<exists>bytes. contents env full = Some bytes \<and> length bytes = sz \<and> take 64 (rule_hash r) = concat (map hex2 (sha256_spec bytes))"
    if "rule_hash r \<noteq> []"
    using st(3) that by (auto simp: hash_check_def split: sum.splits prod.splits if_splits dest!: getsha_correct)
  with st assms(2) show ?thesis by (auto simp: program_authorised_def)
qed

lemma path_check_path: "path_check env r fullcmd cmd = Inr (full, p) \<Longrightarrow> take 1 (rule_path r) = ''*'' \<or> rule_path r = full"
  by (auto simp: path_check_def split: if_splits prod.splits)

lemma launch_Exec: "launch env o1 full args c path = Exec f as c' p \<Longrightarrow> f = full \<and> as = args \<and> c' = c \<and> p = path"
  by (auto simp: launch_def execute_def split: if_splits)

lemma apply_rule_Exec:
  assumes "apply_rule cfg env o1 fullcmd cmd args r = Exec full as c path"
  shows "program_authorised cfg env r full \<and> as = args \<and> escalate env o1 = Inr c"
proof -
  from assms have "path_check env r fullcmd cmd = Inr (full, path)" "binary_check cfg env r full = None"
    "escalate env o1 = Inr c" "as = args"
    by (auto simp: apply_rule_def split: sum.splits option.splits dest!: launch_Exec)
  with binary_check_None path_check_path show ?thesis by blast
qed

lemma sup_options_no_exec: "sup_options cfg env opts o1 = Inl res \<Longrightarrow> res \<noteq> Exec f as c p"
  by (induction cfg env opts o1 rule: sup_options.induct) (auto split: if_splits option.splits prod.splits bool.splits)

lemma path_scan_colon: "CHR '':'' \<notin> set cs \<Longrightarrow> path_scan ex str pre dir cs = None"
  by (induction cs arbitrary: dir) auto

lemmas sup_eval = sup_main_def sup_optspec_def sup_defaults_def basename_def after_slash_def rule_matches_def
  apply_rule_def path_check_def path_given_def default_path_def getpath_def binary_check_def id_allowed_def
  hash_check_def escalate_def enter_dirs_def launch_def execute_def MAXCMD_def MAXFILEPATH_def
  posix_setuid_def posix_setgid_def demo_sup_def demo_rules_def

lemma demo_sup_exec: "sup_main demo_rules demo_sup [''id'', ''-u''] = Exec ''/bin/id'' [''id'', ''-u''] (0, 0) (Some ''/bin'')"
  by (simp add: sup_eval)

subsection \<open>Properties\<close>

text \<open>
  C6. What \<^verbatim>\<open>sup\<close> executes with the target credentials is authorised: the first rule whose
  command matches the name of the program allows it, that is, the program is at the path of
  the rule unless that is unlocked, neither the group nor others can write it, the caller is
  the user and in the group of the rule or is the superuser, and if the rule has a
  checksum, it is the SHA-256 of the file, which has the size the file system reported.
\<close>

theorem sup_exec_authorised:
  assumes "sup_main cfg env argv = Exec full args c path"
  shows "\<exists>r. find (rule_matches (fst (basename (take (MAXCMD - 1) (case args of [] \<Rightarrow> ''(null)'' | a # _ \<Rightarrow> a))))) (rules cfg) = Some r
    \<and> program_authorised cfg env r full \<and> args = snd (getopt True sup_optspec argv)"
  using assms by (auto simp: sup_main_def split: prod.splits sum.splits option.splits
      dest!: apply_rule_Exec sup_options_no_exec[of cfg env _ _ _ full args c path])

theorem sup_exec_authorised_witness:
  "\<exists>r. find (rule_matches ''id'') (rules demo_rules) = Some r \<and> program_authorised demo_rules demo_sup r ''/bin/id''"
  using sup_exec_authorised[OF demo_sup_exec] by (simp add: MAXCMD_def basename_def after_slash_def)

text \<open>
  C40. A misspelt user name means the superuser: with a name that is not in the user database
  the option \<^verbatim>\<open>-u\<close> has no effect at all.
\<close>

theorem sup_unknown_user_is_root:
  assumes "getpwnam env name = (None, False)"
  shows "sup_main cfg env (''-u'' # name # argv) = sup_main cfg env argv"
  using assms by (simp add: sup_main_def sup_optspec_def split: prod.splits)

theorem sup_unknown_user_is_root_witness:
  "sup_main demo_rules demo_sup [''-u'', ''typo'', ''id''] = Exec ''/bin/id'' [''id''] (0, 0) (Some ''/bin'')"
proof -
  have "sup_main demo_rules demo_sup [''id''] = Exec ''/bin/id'' [''id''] (0, 0) (Some ''/bin'')" by (simp add: sup_eval)
  then show ?thesis using sup_unknown_user_is_root[of demo_sup "''typo''" demo_rules "[''id'']"] by (simp add: demo_sup_def)
qed

text \<open>
  C43. The last directory of PATH is not searched. If there is only one, a command under a
  rule with an unlocked path is not found, and the program that is checked and run instead
  is the file named \<^verbatim>\<open>(null)\<close> in the current directory.
\<close>

theorem sup_last_path_skipped:
  assumes "PATH env = Some p" "CHR '':'' \<notin> set p" "\<not> path_given cmd" "take 1 (rule_path r) = ''*''"
  shows "path_check env r cmd cmd = Inr (''(null)'', Some p)"
  using assms by (simp add: path_check_def default_path_def getpath_def path_scan_colon)

theorem sup_last_path_skipped_witness:
  "path_check (demo_sup\<lparr>PATH := Some ''/bin''\<rparr>) \<lparr>rule_uid = 1000, rule_gid = -1, rule_cmd = ''id'', rule_path = ''*'', rule_hash = []\<rparr>
     ''id'' ''id'' = Inr (''(null)'', Some ''/bin'')"
  using sup_last_path_skipped[of "demo_sup\<lparr>PATH := Some ''/bin''\<rparr>" "''/bin''" "''id''"] by (simp add: path_given_def)

text \<open>
  Running a command as another user than root does not work for callers who are not in
  group 0: the user id is set before the group id, and without the superuser's id the
  kernel refuses the group.
\<close>

theorem sup_other_user_fails:
  assumes "drops_group_rights env gids" "0 \<notin> gids" "getpwnam env name = (Some (uid, gid), b)" "uid \<noteq> 0"
    and "take 1 command \<noteq> ''-''"
  shows "sup_main cfg env (''-u'' # name # command # args) \<noteq> Exec full as c path"
proof
  assume run: "sup_main cfg env (''-u'' # name # command # args) = Exec full as c path"
  have "getopt True sup_optspec (''-u'' # name # command # args) = ([(CHR ''u'', name)], command # args)"
    using assms(5) by (cases command) (auto simp: sup_optspec_def)
  with run assms(3) obtain r fullcmd cmd where
    "apply_rule cfg env (sup_defaults\<lparr>target_uid := uid\<rparr>) fullcmd cmd (command # args) r = Exec full as c path"
    by (auto simp: sup_main_def split: prod.splits option.splits)
  then have "escalate env (sup_defaults\<lparr>target_uid := uid\<rparr>) = Inr c" by (simp add: apply_rule_Exec)
  moreover have "escalate env (sup_defaults\<lparr>target_uid := uid\<rparr>) \<noteq> Inr c"
    using assms(1,2,4) by (auto simp: escalate_def drops_group_rights_def sup_defaults_def split: option.splits)
  ultimately show False by simp
qed

theorem sup_other_user_fails_witness:
  "sup_main demo_rules demo_sup [''-u'', ''dns'', ''id''] \<noteq> Exec ''/bin/id'' [''id''] (53, 0) (Some ''/bin'')"
proof -
  have "drops_group_rights demo_sup {100}"
    by (auto simp: drops_group_rights_def demo_sup_def posix_setuid_def posix_setgid_def split: if_splits)
  then show ?thesis
    using sup_other_user_fails[of demo_sup "{100}" "''dns''" 53 53 False "''id''" demo_rules "[]"] by (simp add: demo_sup_def)
qed

end
