(* ===== verification/Mqtt_Topic.thy ===== *)
theory Mqtt_Topic
  imports Dowse_Prelude
begin

text \<open>
  The topic functions of the MQTT client library that \<^verbatim>\<open>dowse-to-mqtt\<close> is linked with
  (\<^verbatim>\<open>src/src/mosquitto/lib/util_mosq.c\<close> and the tokeniser of \<^verbatim>\<open>mosquitto.c\<close>): the checks of
  topics and of subscriptions, and the match of a topic with a subscription. The match walks
  over both strings with two indices; it is compared with the definition of the protocol,
  which splits them into levels.

  A string is read at its length too, where C has the terminating NUL. Arguments are never
  NULL pointers and allocations succeed.
\<close>

datatype mosq_err = MOSQ_ERR_SUCCESS | MOSQ_ERR_NOMEM | MOSQ_ERR_PROTOCOL | MOSQ_ERR_INVAL
  | MOSQ_ERR_NO_CONN | MOSQ_ERR_CONN_REFUSED | MOSQ_ERR_NOT_FOUND | MOSQ_ERR_CONN_LOST
  | MOSQ_ERR_PAYLOAD_SIZE | MOSQ_ERR_ERRNO

definition char_at :: "string \<Rightarrow> nat \<Rightarrow> char" where
  "char_at s i = (if i < length s then s ! i else CHR 0x00)"

subsection \<open>Valid topics\<close>

fun pub_check :: "nat \<Rightarrow> string \<Rightarrow> mosq_err" where
  "pub_check len [] = (if len > 65535 then MOSQ_ERR_INVAL else MOSQ_ERR_SUCCESS)"
| "pub_check len (c # str) =
     (if c = CHR ''+'' \<or> c = CHR ''#'' then MOSQ_ERR_INVAL else pub_check (len + 1) str)"

definition mosquitto_pub_topic_check :: "string \<Rightarrow> mosq_err" where
  "mosquitto_pub_topic_check str = pub_check 0 str"

fun sub_check :: "char \<Rightarrow> nat \<Rightarrow> string \<Rightarrow> mosq_err" where
  "sub_check c len [] = (if len > 65535 then MOSQ_ERR_INVAL else MOSQ_ERR_SUCCESS)"
| "sub_check c len (d # str) =
     (if d = CHR ''+'' \<and> (c \<noteq> CHR 0x00 \<and> c \<noteq> CHR ''/''
            \<or> char_at str 0 \<noteq> CHR 0x00 \<and> char_at str 0 \<noteq> CHR ''/'') then MOSQ_ERR_INVAL
      else if d = CHR ''#'' \<and> (c \<noteq> CHR 0x00 \<and> c \<noteq> CHR ''/'' \<or> char_at str 0 \<noteq> CHR 0x00)
      then MOSQ_ERR_INVAL
      else sub_check d (len + 1) str)"

definition mosquitto_sub_topic_check :: "string \<Rightarrow> mosq_err" where
  "mosquitto_sub_topic_check str = sub_check (CHR 0x00) 0 str"

subsection \<open>Matching\<close>

text \<open>
  The loop of the match, with the value \<open>r\<close> that the caller has in \<open>*result\<close>. The result is
  the return value and what \<open>*result\<close> holds then. The flag for the multi-level wildcard is
  only set right before a return, so the test behind the loop always finds it false.
\<close>

function (sequential) match_loop :: "bool \<Rightarrow> string \<Rightarrow> string \<Rightarrow> nat \<Rightarrow> nat \<Rightarrow> mosq_err \<times> bool" where
  "match_loop r sub topic spos tpos =
     (let slen = length sub; tlen = length topic
      in if spos < slen \<and> tpos \<le> tlen then
           (if char_at sub spos = char_at topic tpos then
              (if tpos + 1 = tlen \<and> spos + 3 = slen \<and> char_at sub (spos + 1) = CHR ''/''
                    \<and> char_at sub (spos + 2) = CHR ''#'' then (MOSQ_ERR_SUCCESS, True)
               else if spos + 1 = slen \<and> tpos + 1 = tlen then (MOSQ_ERR_SUCCESS, True)
               else if tpos + 1 = tlen \<and> spos + 1 = slen - 1 \<and> char_at sub (spos + 1) = CHR ''+'' then
                 (if char_at sub spos \<noteq> CHR ''/'' then (MOSQ_ERR_INVAL, False) else (MOSQ_ERR_SUCCESS, True))
               else match_loop r sub topic (spos + 1) (tpos + 1))
            else if char_at sub spos = CHR ''+'' then
              (if spos > 0 \<and> char_at sub (spos - 1) \<noteq> CHR ''/'' then (MOSQ_ERR_INVAL, False)
               else if spos < slen - 1 \<and> char_at sub (spos + 1) \<noteq> CHR ''/'' then (MOSQ_ERR_INVAL, False)
               else let tpos' = tpos + length (takeWhile (\<lambda>c. c \<noteq> CHR ''/'') (drop tpos topic))
                    in if tpos' = tlen \<and> spos + 1 = slen then (MOSQ_ERR_SUCCESS, True)
                       else match_loop r sub topic (spos + 1) tpos')
            else if char_at sub spos = CHR ''#'' then
              (if spos > 0 \<and> char_at sub (spos - 1) \<noteq> CHR ''/'' then (MOSQ_ERR_INVAL, False)
               else if spos + 1 \<noteq> slen then (MOSQ_ERR_INVAL, False)
               else (MOSQ_ERR_SUCCESS, True))
            else (MOSQ_ERR_SUCCESS, False))
         else (MOSQ_ERR_SUCCESS, if tpos < tlen \<or> spos < slen then False else r))"
  by pat_completeness auto
termination match_loop
  by (relation "measure (\<lambda>(r, sub, topic, spos, tpos). length sub - spos)") auto

declare match_loop.simps [simp del]

definition mosquitto_topic_matches_sub :: "bool \<Rightarrow> string \<Rightarrow> string \<Rightarrow> mosq_err \<times> bool" where
  "mosquitto_topic_matches_sub r sub topic =
     (if sub = [] \<or> topic = [] then (MOSQ_ERR_INVAL, False)
      else if char_at sub 0 = CHR ''$'' \<and> char_at topic 0 \<noteq> CHR ''$''
           \<or> char_at topic 0 = CHR ''$'' \<and> char_at sub 0 \<noteq> CHR ''$'' then (MOSQ_ERR_SUCCESS, False)
      else match_loop r sub topic 0 0)"

subsection \<open>Splitting into levels\<close>

text \<open>
  The tokeniser: it counts the levels, and then stores at the index of each level that is
  not empty a copy of it; the array is zeroed, so an empty level stays a NULL pointer.
\<close>

definition hier_count :: "string \<Rightarrow> nat" where
  "hier_count s = 1 + length (filter (\<lambda>c. c = CHR ''/'') s)"

fun tokenise_loop :: "string \<Rightarrow> nat \<Rightarrow> nat \<Rightarrow> nat \<Rightarrow> nat \<Rightarrow> string option list \<Rightarrow> string option list" where
  "tokenise_loop s i 0 start hier topics = topics"
| "tokenise_loop s i (Suc n) start hier topics =
     (if char_at s i = CHR ''/'' \<or> char_at s i = CHR 0x00
      then tokenise_loop s (i + 1) n (i + 1) (hier + 1)
             (if start \<noteq> i then topics[hier := Some (take (i - start) (drop start s))] else topics)
      else tokenise_loop s (i + 1) n start hier topics)"

definition mosquitto_sub_topic_tokenise :: "string \<Rightarrow> string option list" where
  "mosquitto_sub_topic_tokenise s =
     tokenise_loop s 0 (length s + 1) 0 0 (replicate (hier_count s) None)"

subsection \<open>The protocol\<close>

text \<open>
  The levels of a topic are what stands between its slashes. A subscription matches level by
  level; \<^verbatim>\<open>+\<close> stands for any one level and a final \<^verbatim>\<open>#\<close> for the rest, the parent level
  included. Topics that begin with a dollar sign are only matched by subscriptions that do.
\<close>

fun levels :: "string \<Rightarrow> string list" where
  "levels [] = [[]]"
| "levels (c # cs) =
     (if c = CHR ''/'' then [] # levels cs
      else (c # hd (levels cs)) # tl (levels cs))"

fun level_match :: "string list \<Rightarrow> string list \<Rightarrow> bool" where
  "level_match [] ts = (ts = [])"
| "level_match (s # ss) ts =
     (s # ss = [''#''] \<or> (case ts of [] \<Rightarrow> False
                          | t # ts' \<Rightarrow> (s = ''+'' \<or> s = t) \<and> level_match ss ts'))"

definition mqtt_match :: "string \<Rightarrow> string \<Rightarrow> bool" where
  "mqtt_match sub topic \<longleftrightarrow>
     (hd sub = CHR ''$'' \<longleftrightarrow> hd topic = CHR ''$'') \<and> level_match (levels sub) (levels topic)"

text \<open>The one case in which the library differs: the parent level of a \<^verbatim>\<open>#\<close> that stands behind a \<^verbatim>\<open>+\<close>.\<close>

definition plus_parent :: "string \<Rightarrow> string \<Rightarrow> bool" where
  "plus_parent sub topic \<longleftrightarrow>
     suffix [''+'', ''#''] (levels sub) \<and> length (levels sub) = length (levels topic) + 1"

subsection \<open>The match on the unread parts\<close>

text \<open>
  The loop as a recursion over what is left of the two strings, behind the character \<open>p\<close> of
  the subscription (NUL at the start).
\<close>

fun match_rest :: "bool \<Rightarrow> char \<Rightarrow> string \<Rightarrow> string \<Rightarrow> mosq_err \<times> bool" where
  "match_rest r p [] t = (MOSQ_ERR_SUCCESS, if t \<noteq> [] then False else r)"
| "match_rest r p (c # s) t =
     (if t \<noteq> [] \<and> hd t = c then
        (if tl t = [] \<and> s = ''/#'' then (MOSQ_ERR_SUCCESS, True)
         else if tl t = [] \<and> s = [] then (MOSQ_ERR_SUCCESS, True)
         else if tl t = [] \<and> s = ''+'' then
           (if c \<noteq> CHR ''/'' then (MOSQ_ERR_INVAL, False) else (MOSQ_ERR_SUCCESS, True))
         else match_rest r c s (tl t))
      else if c = CHR ''+'' then
        (if p \<noteq> CHR 0x00 \<and> p \<noteq> CHR ''/'' then (MOSQ_ERR_INVAL, False)
         else if s \<noteq> [] \<and> hd s \<noteq> CHR ''/'' then (MOSQ_ERR_INVAL, False)
         else if dropWhile (\<lambda>c. c \<noteq> CHR ''/'') t = [] \<and> s = [] then (MOSQ_ERR_SUCCESS, True)
         else match_rest r c s (dropWhile (\<lambda>c. c \<noteq> CHR ''/'') t))
      else if c = CHR ''#'' then
        (if p \<noteq> CHR 0x00 \<and> p \<noteq> CHR ''/'' then (MOSQ_ERR_INVAL, False)
         else if s \<noteq> [] then (MOSQ_ERR_INVAL, False) else (MOSQ_ERR_SUCCESS, True))
      else (MOSQ_ERR_SUCCESS, False))"

definition char_before :: "string \<Rightarrow> nat \<Rightarrow> char" where
  "char_before s i = (if i = 0 then CHR 0x00 else char_at s (i - 1))"

lemma drop_at: "i < length s \<Longrightarrow> drop i s = char_at s i # drop (Suc i) s"
  by (simp add: char_at_def Cons_nth_drop_Suc)

lemma char_at_nul: "CHR 0x00 \<notin> set s \<Longrightarrow> char_at s i = CHR 0x00 \<longleftrightarrow> length s \<le> i"
  by (auto simp: char_at_def not_less dest: nth_mem split: if_splits)

lemma drop_eq_two:
  "drop (Suc i) s = [a, b] \<longleftrightarrow> i + 3 = length s \<and> char_at s (i + 1) = a \<and> char_at s (i + 2) = b"
proof
  assume h: "drop (Suc i) s = [a, b]"
  then have "length (drop (Suc i) s) = 2" by simp
  then have l: "i + 3 = length s" by simp
  with h show "i + 3 = length s \<and> char_at s (i + 1) = a \<and> char_at s (i + 2) = b"
    using drop_at[of "Suc i" s] drop_at[of "Suc (Suc i)" s] by simp
next
  assume h: "i + 3 = length s \<and> char_at s (i + 1) = a \<and> char_at s (i + 2) = b"
  then show "drop (Suc i) s = [a, b]"
    using drop_at[of "Suc i" s] drop_at[of "Suc (Suc i)" s] by simp
qed

lemma drop_eq_one: "drop (Suc i) s = [a] \<longleftrightarrow> i + 2 = length s \<and> char_at s (i + 1) = a"
proof
  assume h: "drop (Suc i) s = [a]"
  then have "length (drop (Suc i) s) = 1" by simp
  then have "i + 2 = length s" by simp
  with h show "i + 2 = length s \<and> char_at s (i + 1) = a"
    using drop_at[of "Suc i" s] by simp
next
  assume "i + 2 = length s \<and> char_at s (i + 1) = a"
  then show "drop (Suc i) s = [a]" using drop_at[of "Suc i" s] by simp
qed

lemma match_loop_rest:
  assumes "CHR 0x00 \<notin> set sub" "CHR 0x00 \<notin> set topic" "tpos \<le> length topic"
  shows "match_loop r sub topic spos tpos = match_rest r (char_before sub spos) (drop spos sub) (drop tpos topic)"
  using assms
proof (induction r sub topic spos tpos rule: match_loop.induct)
  case (1 r sub topic spos tpos)
  show ?case
  proof (cases "spos < length sub")
    case False
    then show ?thesis using 1(5) by (subst match_loop.simps) simp
  next
    case True
    note s = drop_at[OF True]
    have nz: "char_at sub spos \<noteq> CHR 0x00" using char_at_nul[OF 1(3)] True by simp
    show ?thesis
    proof (cases "char_at sub spos = char_at topic tpos")
      case eq: True
      then have t: "tpos < length topic" using nz char_at_nul[OF 1(4), of tpos] by auto
      have c1: "(drop (Suc tpos) topic = []) = (tpos + 1 = length topic)" using t by auto
      have c2: "(drop (Suc spos) sub = []) = (spos + 1 = length sub)" using True by auto
      have c3: "(spos + 1 = length sub - 1) = (spos + 2 = length sub)" using True by auto
      have before: "char_before sub (spos + 1) = char_at sub spos" by (simp add: char_before_def)
      note ih = 1(1)[OF refl refl conjI[OF True 1(5)] eq _ _ _ 1(3,4)]
      have ih': "match_loop r sub topic (spos + 1) (tpos + 1)
          = match_rest r (char_at sub spos) (drop (Suc spos) sub) (drop (Suc tpos) topic)"
        if "\<not> (tpos + 1 = length topic \<and> drop (Suc spos) sub = ''/#'')"
          "\<not> (tpos + 1 = length topic \<and> drop (Suc spos) sub = [])"
          "\<not> (tpos + 1 = length topic \<and> drop (Suc spos) sub = ''+'')"
        using ih that t unfolding before drop_eq_two drop_eq_one c2 c3 by simp blast
      show ?thesis
        unfolding s drop_at[OF t] match_rest.simps list.sel match_loop.simps[of r sub topic spos tpos] Let_def
        using True eq 1(5) ih' c1 c2 c3 drop_eq_two[of spos sub "CHR ''/''" "CHR ''#''"] drop_eq_one[of spos sub "CHR ''+''"]
        by (simp split del: if_split cong: if_cong) argo
    next
      case ne: False
      then have hd: "\<not> (drop tpos topic \<noteq> [] \<and> hd (drop tpos topic) = char_at sub spos)"
        by (auto simp: char_at_def hd_drop_conv_nth)
      let ?k = "length (takeWhile (\<lambda>c. c \<noteq> CHR ''/'') (drop tpos topic))"
      have dw: "dropWhile (\<lambda>c. c \<noteq> CHR ''/'') (drop tpos topic) = drop (tpos + ?k) topic"
        by (simp add: dropWhile_eq_drop add.commute)
      have k: "tpos + ?k \<le> length topic"
        using length_takeWhile_le[of "\<lambda>c. c \<noteq> CHR ''/''" "drop tpos topic"] 1(5) by simp
      have pre: "(char_before sub spos \<noteq> CHR 0x00 \<and> char_before sub spos \<noteq> CHR ''/'')
          = (spos > 0 \<and> char_at sub (spos - 1) \<noteq> CHR ''/'')"
        using True char_at_nul[OF 1(3), of "spos - 1"] by (auto simp: char_before_def)
      have nx: "(drop (Suc spos) sub \<noteq> [] \<and> hd (drop (Suc spos) sub) \<noteq> CHR ''/'')
          = (spos < length sub - 1 \<and> char_at sub (spos + 1) \<noteq> CHR ''/'')"
        using True drop_at[of "Suc spos" sub] by (cases "Suc spos < length sub") (simp_all add: less_diff_conv)
      have before: "char_before sub (spos + 1) = char_at sub spos" by (simp add: char_before_def)
      have c1: "(drop (tpos + ?k) topic = []) = (tpos + ?k = length topic)" unfolding drop_eq_Nil using k by linarith
      have c2: "(drop (Suc spos) sub = []) = (spos + 1 = length sub)" using True by auto
      have ih: "match_loop r sub topic (spos + 1) (tpos + ?k)
          = match_rest r (char_at sub spos) (drop (Suc spos) sub) (drop (tpos + ?k) topic)"
        if "char_at sub spos = CHR ''+''" "\<not> (spos > 0 \<and> char_at sub (spos - 1) \<noteq> CHR ''/'')"
          "\<not> (spos < length sub - 1 \<and> char_at sub (spos + 1) \<noteq> CHR ''/'')"
          "\<not> (tpos + ?k = length topic \<and> spos + 1 = length sub)"
        using 1(2)[OF refl refl conjI[OF True 1(5)] ne that(1-3) refl that(4) 1(3,4) k] before by simp
      have loop: "spos < length sub \<and> tpos \<le> length topic" using True 1(5) by simp
      show ?thesis
        unfolding s match_rest.simps if_not_P[OF hd] pre nx[unfolded c2] dw c1 c2 match_loop.simps[of r sub topic spos tpos] Let_def
          if_P[OF loop] if_not_P[OF ne]
        by (intro if_cong refl) (rule ih)
    qed
  qed
qed

subsection \<open>The match on levels\<close>

fun library_match :: "string list \<Rightarrow> string list \<Rightarrow> bool" where
  "library_match [] ts = (ts = [])"
| "library_match (s # ss) ts =
     (s # ss = [''#''] \<or> (case ts of [] \<Rightarrow> False
        | t # ts' \<Rightarrow> (s = ''+'' \<and> (ss = [''#''] \<longrightarrow> ts' \<noteq> []) \<or> s = t) \<and> library_match ss ts'))"

lemma levels_nonempty [simp]: "levels s \<noteq> []"
  by (cases s) auto

lemma levels_char: "levels s = l # ls \<Longrightarrow> c \<noteq> CHR ''/'' \<Longrightarrow> levels (c # s) = (c # l) # ls"
  by simp

lemma levels_single: "levels s = [l] \<longleftrightarrow> s = l \<and> CHR ''/'' \<notin> set s"
proof (induction s arbitrary: l)
  case (Cons c s)
  then show ?case
    by (cases "levels s") (auto simp: Cons_eq_append_conv)
qed auto

lemma levels_split:
  "levels s = takeWhile (\<lambda>c. c \<noteq> CHR ''/'') s #
     (case dropWhile (\<lambda>c. c \<noteq> CHR ''/'') s of [] \<Rightarrow> [] | _ # r \<Rightarrow> levels r)"
  by (induction s) auto

lemma sub_check_Cons:
  assumes "sub_check p n (c # s) = MOSQ_ERR_SUCCESS" "CHR 0x00 \<notin> set s"
  shows "sub_check c (n + 1) s = MOSQ_ERR_SUCCESS"
    "c = CHR ''+'' \<Longrightarrow> (p = CHR 0x00 \<or> p = CHR ''/'') \<and> (s = [] \<or> hd s = CHR ''/'')"
    "c = CHR ''#'' \<Longrightarrow> (p = CHR 0x00 \<or> p = CHR ''/'') \<and> s = []"
  using assms by (cases s; auto simp: char_at_def split: if_splits)+

text \<open>Inside a level a valid subscription has no wildcard.\<close>

lemma sub_check_inside:
  assumes "sub_check p n s = MOSQ_ERR_SUCCESS" "CHR 0x00 \<notin> set s" "p \<noteq> CHR 0x00" "p \<noteq> CHR ''/''"
  shows "hd (levels s) \<noteq> ''+''" "hd (levels s) \<noteq> ''#''"
  using assms sub_check_Cons[of p n "hd s" "tl s"] by (cases s; auto)+

text \<open>One character of a literal level, on both sides.\<close>

lemma library_match_inside:
  assumes "sub_check c n s = MOSQ_ERR_SUCCESS" "CHR 0x00 \<notin> set s" "c \<noteq> CHR 0x00"
    "c \<noteq> CHR ''/''" "c \<noteq> CHR ''+''" "c \<noteq> CHR ''#''"
  shows "library_match (levels (c # s)) (levels (c # t)) = library_match (levels s) (levels t)"
    "t = [] \<or> hd t \<noteq> c \<Longrightarrow> \<not> library_match (levels (c # s)) (levels t)"
proof -
  obtain l ls where l: "levels s = l # ls" by (cases "levels s") auto
  obtain k ks where k: "levels t = k # ks" by (cases "levels t") auto
  show "library_match (levels (c # s)) (levels (c # t)) = library_match (levels s) (levels t)"
    using sub_check_inside[OF assms(1-4)] assms(4-6) by (simp add: l k)
  show "\<not> library_match (levels (c # s)) (levels t)" if h: "t = [] \<or> hd t \<noteq> c"
  proof -
    have "hd (levels t) = [] \<or> hd (hd (levels t)) \<noteq> c" using h by (cases t) auto
    then show ?thesis using assms(4-6) by (auto simp: l k)
  qed
qed

lemma library_match_slash:
  "library_match (levels (CHR ''/'' # s)) (levels (CHR ''/'' # t)) = library_match (levels s) (levels t)"
  "s \<noteq> ''#'' \<Longrightarrow> \<not> library_match (levels (CHR ''/'' # s)) (levels [])"
  "hd t \<noteq> CHR ''/'' \<Longrightarrow> t \<noteq> [] \<Longrightarrow> \<not> library_match (levels (CHR ''/'' # s)) (levels t)"
proof -
  show "s \<noteq> ''#'' \<Longrightarrow> \<not> library_match (levels (CHR ''/'' # s)) (levels [])"
    using levels_single[of s "''#''"] by (cases "levels s") auto
  show "hd t \<noteq> CHR ''/'' \<Longrightarrow> t \<noteq> [] \<Longrightarrow> \<not> library_match (levels (CHR ''/'' # s)) (levels t)"
    by (cases t) auto
qed simp

lemma library_match_plus:
  assumes "s = [] \<or> hd s = CHR ''/''" "CHR ''+'' \<notin> set t"
  shows "library_match (levels (CHR ''+'' # s)) (levels t) =
    (case dropWhile (\<lambda>c. c \<noteq> CHR ''/'') t of [] \<Rightarrow> s = [] | _ # t' \<Rightarrow> s \<noteq> [] \<and> library_match (levels (tl s)) (levels t'))"
proof (cases s)
  case Nil
  then show ?thesis by (subst levels_split[of t]) (auto split: list.splits simp del: dropWhile_eq_Nil_conv)
next
  case (Cons c s')
  then have "levels (CHR ''+'' # s) = ''+'' # levels s'" using assms(1) by simp
  moreover have "library_match (levels s') [] \<longleftrightarrow> levels s' = [''#'']" by (cases "levels s'") auto
  moreover have "takeWhile (\<lambda>c. c \<noteq> CHR ''/'') t \<noteq> ''+''"
    using assms(2) set_takeWhileD[of "CHR ''+''" "\<lambda>c. c \<noteq> CHR ''/''" t] by auto
  ultimately show ?thesis using Cons by (subst levels_split[of t]) (auto split: list.splits simp del: dropWhile_eq_Nil_conv)
qed

lemma match_rest_levels:
  assumes "sub_check p n s = MOSQ_ERR_SUCCESS" "CHR 0x00 \<notin> set s" "CHR ''+'' \<notin> set t" "CHR ''#'' \<notin> set t"
    "s \<noteq> [] \<or> t \<noteq> []" "t = [] \<Longrightarrow> s \<noteq> ''/#''"
  shows "match_rest r p s t = (MOSQ_ERR_SUCCESS, library_match (levels s) (levels t))"
  using assms
proof (induction s arbitrary: p n t)
  case Nil
  then show ?case by (cases t) auto
next
  case (Cons c s)
  have nz: "c \<noteq> CHR 0x00" "CHR 0x00 \<notin> set s" using Cons.prems(2) by auto
  note sc = sub_check_Cons[OF Cons.prems(1) nz(2)]
  have neq: "t = [] \<or> hd t \<noteq> c" if "c = CHR ''+'' \<or> c = CHR ''#''"
    using Cons.prems(3,4) that by (cases t) auto
  have same: "match_rest r p (c # s) t = (MOSQ_ERR_SUCCESS, library_match (levels s) (levels (tl t)))"
    if t: "t \<noteq> []" "hd t = c" and c: "c \<noteq> CHR ''+''" "s = ''+'' \<longrightarrow> c = CHR ''/''"
  proof -
    have w: "CHR ''+'' \<notin> set (tl t)" "CHR ''#'' \<notin> set (tl t)" using Cons.prems(3,4) by (auto dest: list.set_sel(2)[rotated] simp: t(1))
    note ih = Cons.IH[OF sc(1) nz(2) w]
    show ?thesis using t c ih by auto
  qed
  show ?case
  proof (cases "c = CHR ''+'' \<or> c = CHR ''#''")
    case True
    note ne = neq[OF True]
    let ?t = "dropWhile (\<lambda>c. c \<noteq> CHR ''/'') t"
    have w: "CHR ''+'' \<notin> set ?t" "CHR ''#'' \<notin> set ?t" using Cons.prems(3,4) by (auto dest: set_dropWhileD)
    note ih = Cons.IH[OF sc(1) nz(2) w]
    show ?thesis
    proof (cases "c = CHR ''#''")
      case True
      then show ?thesis using sc(3) ne by auto
    next
      case False
      with True have c: "c = CHR ''+''" by simp
      note p = sc(2)[OF c]
      have ne': "\<not> (t \<noteq> [] \<and> hd t = c)" "\<not> (p \<noteq> CHR 0x00 \<and> p \<noteq> CHR ''/'')" "\<not> (s \<noteq> [] \<and> hd s \<noteq> CHR ''/'')"
        using ne p by blast+
      have step: "match_rest r p (c # s) t = (if ?t = [] \<and> s = [] then (MOSQ_ERR_SUCCESS, True) else match_rest r c s ?t)"
        unfolding match_rest.simps if_not_P[OF ne'(1)] if_P[OF c] if_not_P[OF ne'(2)] if_not_P[OF ne'(3)] by (rule refl)
      note lib = library_match_plus[OF conjunct2[OF p] Cons.prems(3), folded c]
      show ?thesis
      proof (cases ?t)
        case Nil
        then show ?thesis unfolding step lib using p by (cases s) (simp_all del: dropWhile_eq_Nil_conv)
      next
        case (Cons x t')
        then have x: "x = CHR ''/''" by (simp add: dropWhile_eq_Cons_conv)
        have "match_rest r c s ?t = (MOSQ_ERR_SUCCESS, library_match (levels s) (levels ?t))"
          by (rule ih) (simp_all add: Cons)
        then show ?thesis unfolding step lib using p by (cases s) (simp_all add: Cons x)
      qed
    qed
  next
    case False
    have ck: "library_match (levels (c # s)) (levels t) \<longleftrightarrow>
        t \<noteq> [] \<and> hd t = c \<and> library_match (levels s) (levels (tl t))"
    proof (cases "c = CHR ''/''")
      case True
      then show ?thesis using library_match_slash(1)[of s "tl t"] library_match_slash(2)[of s] library_match_slash(3)[of t s] Cons.prems(6)
        by (cases t) (auto simp del: levels.simps)
    next
      case c: False
      show ?thesis using library_match_inside(1)[OF sc(1) nz(2,1) c, of "tl t"] library_match_inside(2)[OF sc(1) nz(2,1) c, of t] False
        by (cases t) (auto simp del: levels.simps)
    qed
    have "s = ''+'' \<longrightarrow> c = CHR ''/''" using sc(1) nz(1) by (auto simp: char_at_def split: if_splits)
    with False same ck show ?thesis by (cases "t \<noteq> [] \<and> hd t = c") (auto simp del: levels.simps)
  qed
qed

lemma suffix_pair_Cons: "suffix [a, b] (x # xs) \<longleftrightarrow> x # xs = [a, b] \<or> suffix [a, b] xs"
  by (auto simp: suffix_Cons)

lemma library_match_level:
  assumes "''+'' \<notin> set ts"
  shows "library_match ss ts \<longleftrightarrow>
    level_match ss ts \<and> \<not> (suffix [''+'', ''#''] ss \<and> length ss = length ts + 1)"
  using assms
proof (induction ss arbitrary: ts)
  case (Cons s ss)
  show ?case
  proof (cases "s # ss = [''#'']")
    case True
    then show ?thesis by (auto simp: suffix_Cons)
  next
    case False
    then show ?thesis
    proof (cases ts)
      case (Cons t ts')
      then have "''+'' \<notin> set ts'" "t \<noteq> ''+''" using Cons.prems by auto
      with Cons False Cons.IH[of ts'] show ?thesis
        by (auto simp: suffix_pair_Cons)
    qed auto
  qed
qed simp

lemma levels_chars: "l \<in> set (levels s) \<Longrightarrow> set l \<subseteq> set s"
proof (induction s arbitrary: l)
  case (Cons c s)
  then show ?case by (cases "levels s") (fastforce split: if_splits)+
qed auto

lemma pub_check_chars: "pub_check n s = MOSQ_ERR_SUCCESS \<Longrightarrow> CHR ''+'' \<notin> set s \<and> CHR ''#'' \<notin> set s"
  by (induction n s rule: pub_check.induct) (auto split: if_splits)

text \<open>
  C10. For every subscription and topic that pass their checks the match returns success and
  stores what the protocol defines, except that a subscription that ends with \<^verbatim>\<open>+/#\<close> does not
  match the parent level. What the caller had in the result does not matter.
\<close>

theorem topic_matches_spec:
  assumes "mosquitto_sub_topic_check sub = MOSQ_ERR_SUCCESS" "sub \<noteq> []" "CHR 0x00 \<notin> set sub"
    "mosquitto_pub_topic_check topic = MOSQ_ERR_SUCCESS" "topic \<noteq> []" "CHR 0x00 \<notin> set topic"
  shows "mosquitto_topic_matches_sub r sub topic
    = (MOSQ_ERR_SUCCESS, mqtt_match sub topic \<and> \<not> plus_parent sub topic)"
proof -
  have w: "CHR ''+'' \<notin> set topic" "CHR ''#'' \<notin> set topic"
    using pub_check_chars[of 0 topic] assms(4) by (simp_all add: mosquitto_pub_topic_check_def)
  have "match_loop r sub topic 0 0 = match_rest r (CHR 0x00) sub topic"
    using match_loop_rest[OF assms(3,6), of 0 r 0] by (simp add: char_before_def)
  also have "\<dots> = (MOSQ_ERR_SUCCESS, library_match (levels sub) (levels topic))"
    using match_rest_levels[OF _ assms(3) w] assms by (simp add: mosquitto_sub_topic_check_def)
  finally have "match_loop r sub topic 0 0
      = (MOSQ_ERR_SUCCESS, level_match (levels sub) (levels topic) \<and> \<not> plus_parent sub topic)"
    using library_match_level[of "levels topic" "levels sub"] levels_chars[of "''+''" topic] w
    by (auto simp: plus_parent_def)
  then show ?thesis
    using assms by (auto simp: mosquitto_topic_matches_sub_def mqtt_match_def char_at_def hd_conv_nth)
qed

theorem topic_matches_spec_witness:
  "mosquitto_topic_matches_sub True ''+/q/#'' ''a/q'' = (MOSQ_ERR_SUCCESS, True)
   \<and> mosquitto_topic_matches_sub True ''+/#'' ''a'' = (MOSQ_ERR_SUCCESS, False)"
proof -
  have "mosquitto_topic_matches_sub True ''+/q/#'' ''a/q''
      = (MOSQ_ERR_SUCCESS, mqtt_match ''+/q/#'' ''a/q'' \<and> \<not> plus_parent ''+/q/#'' ''a/q'')"
    by (rule topic_matches_spec) (simp_all add: mosquitto_sub_topic_check_def mosquitto_pub_topic_check_def char_at_def)
  moreover have "mosquitto_topic_matches_sub True ''+/#'' ''a''
      = (MOSQ_ERR_SUCCESS, mqtt_match ''+/#'' ''a'' \<and> \<not> plus_parent ''+/#'' ''a'')"
    by (rule topic_matches_spec) (simp_all add: mosquitto_sub_topic_check_def mosquitto_pub_topic_check_def char_at_def)
  ultimately show ?thesis
    by (simp add: mqtt_match_def plus_parent_def suffix_Cons)
qed

subsection \<open>The tokeniser finds the levels\<close>

definition token_of :: "string \<Rightarrow> string option" where
  "token_of l = (if l = [] then None else Some l)"

lemma hier_count_levels: "hier_count s = length (levels s)"
  by (induction s) (auto simp: hier_count_def)

lemma levels_partial:
  assumes "CHR ''/'' \<notin> set (take k s)" "k \<le> length s"
  shows "levels s = (take k s @ hd (levels (drop k s))) # tl (levels (drop k s))"
  using assms by (induction k arbitrary: s) (simp, case_tac s, auto)

lemma tokenise_loop_levels:
  assumes "CHR 0x00 \<notin> set s" "i + n = length s + 1" "start \<le> i" "i \<le> length s \<Longrightarrow> CHR ''/'' \<notin> set (take (i - start) (drop start s))"
    "n = 0 \<Longrightarrow> start = i"
    "topics = done @ replicate (if n = 0 then 0 else length (levels (drop start s))) None" "hier = length done"
  shows "tokenise_loop s i n start hier topics = done @ (if n = 0 then [] else map token_of (levels (drop start s)))"
  using assms
proof (induction n arbitrary: i start hier topics "done")
  case (Suc n)
  let ?cur = "take (i - start) (drop start s)"
  have i: "i \<le> length s" using Suc.prems(2) by simp
  have d: "drop (i - start) (drop start s) = drop i s" using Suc.prems(3) by simp
  have lv: "levels (drop start s) = (?cur @ hd (levels (drop i s))) # tl (levels (drop i s))"
    using levels_partial[of "i - start" "drop start s"] Suc.prems(3,4) i by (simp add: d)
  have "replicate (length (levels (drop start s))) None = (None :: string option) # replicate (length (levels (drop start s)) - 1) None"
    by (cases "levels (drop start s)") auto
  then have "topics = done @ None # replicate (length (levels (drop start s)) - 1) None"
    using Suc.prems(6) by simp
  then have tok: "(if start \<noteq> i then topics[hier := Some ?cur] else topics)
      = done @ token_of ?cur # replicate (length (levels (drop start s)) - 1) None"
    using Suc.prems(3,7) i by (auto simp: token_of_def)
  show ?case
  proof (cases "i = length s")
    case True
    then have "n = 0" "char_at s i = CHR 0x00" using Suc.prems(2) by (auto simp: char_at_def)
    then show ?thesis using tok lv True by (simp split: if_splits)
  next
    case False
    then have il: "i < length s" using i by simp
    note di = drop_at[OF il]
    have n: "n \<noteq> 0" using Suc.prems(2) il by auto
    have nul: "char_at s i \<noteq> CHR 0x00" using char_at_nul[OF Suc.prems(1), of i] il by simp
    show ?thesis
    proof (cases "char_at s i = CHR ''/''")
      case True
      have lv': "levels (drop start s) = ?cur # levels (drop (Suc i) s)" using lv di True by simp
      have "tokenise_loop s (i + 1) n (i + 1) (hier + 1) (if start \<noteq> i then topics[hier := Some ?cur] else topics)
          = (done @ [token_of ?cur]) @ (if n = 0 then [] else map token_of (levels (drop (i + 1) s)))"
        by (rule Suc.IH) (use Suc.prems n tok lv' in auto)
      then show ?thesis using True n lv' by simp
    next
      case False
      have "take (i + 1 - start) (drop start s) = ?cur @ [char_at s i]"
        using Suc.prems(3) il by (simp add: Suc_diff_le take_Suc_conv_app_nth char_at_def)
      then have "tokenise_loop s (i + 1) n start hier topics
          = done @ (if n = 0 then [] else map token_of (levels (drop start s)))"
        by (intro Suc.IH) (use Suc.prems n False i in auto)
      then show ?thesis using False nul n by simp
    qed
  qed
qed simp

theorem tokenise_levels:
  assumes "CHR 0x00 \<notin> set s"
  shows "mosquitto_sub_topic_tokenise s = map token_of (levels s)"
  using tokenise_loop_levels[OF assms, of 0 "length s + 1" 0 _ "[]" 0]
  by (simp add: mosquitto_sub_topic_tokenise_def hier_count_levels)

end
