(* ===== verification/Mqtt_Packet.thy ===== *)
theory Mqtt_Packet
  imports Mqtt_Topic "HOL-Library.Monad_Syntax"
begin

text \<open>
  The packets of the MQTT client library (\<^verbatim>\<open>src/src/mosquitto/lib\<close>): the fixed header that
  \<^verbatim>\<open>util_mosq.c\<close> allocates, the primitives of \<^verbatim>\<open>net_mosq.c\<close> that write and read a packet, and
  the packets that \<^verbatim>\<open>send_mosq.c\<close> and \<^verbatim>\<open>send_client_mosq.c\<close> build. Allocations succeed; the
  bytes of a fresh buffer are the argument \<open>junk\<close>. A failed assertion is the outcome \<open>None\<close>.
  The lengths are natural numbers; a length that the code stores in 32 or 16 bits is reduced
  where it is stored.
\<close>

datatype mqtt_protocol = mosq_p_invalid | mosq_p_mqtt31 | mosq_p_mqtt311 | mosq_p_mqtts

record mosq_message =
  msg_mid :: u16
  msg_topic :: string
  msg_payload :: "u8 list"
  msg_qos :: nat
  msg_retain :: bool

record mqtt_packet =
  payload :: "u8 list"
  remaining_mult :: nat
  remaining_length :: nat
  packet_length :: nat
  to_process :: nat
  pos :: nat
  packet_mid :: u16
  command :: u8
  remaining_count :: int

definition calloc_packet :: mqtt_packet where
  "calloc_packet = \<lparr>payload = [], remaining_mult = 0, remaining_length = 0, packet_length = 0,
     to_process = 0, pos = 0, packet_mid = 0, command = 0, remaining_count = 0\<rparr>"

definition packet_cleanup :: "mqtt_packet \<Rightarrow> mqtt_packet" where
  "packet_cleanup p = p\<lparr>command := 0, remaining_count := 0, remaining_mult := 1, remaining_length := 0,
     payload := [], to_process := 0, pos := 0\<rparr>"

subsection \<open>The fixed header\<close>

text \<open>The remaining length in groups of seven bits, at most \<open>k\<close> of them.\<close>

fun remaining_bytes :: "nat \<Rightarrow> nat \<Rightarrow> u8 list" where
  "remaining_bytes 0 n = []"
| "remaining_bytes (Suc k) n =
     (let byte = word_of_nat (n mod 128); n' = n div 128
      in (if n' > 0 then byte OR 0x80 else byte) # (if n' > 0 then remaining_bytes k n' else []))"

definition packet_alloc :: "u8 \<Rightarrow> mqtt_packet \<Rightarrow> mosq_err \<times> mqtt_packet" where
  "packet_alloc junk p =
     (let rb = remaining_bytes 5 (remaining_length p)
      in if length rb = 5
         then (MOSQ_ERR_PAYLOAD_SIZE, p\<lparr>payload := [], remaining_count := 5\<rparr>)
         else (MOSQ_ERR_SUCCESS,
               p\<lparr>remaining_count := int (length rb),
                 packet_length := (remaining_length p + 1 + length rb) mod 2 ^ 32,
                 payload := command p # rb @ replicate (remaining_length p) junk,
                 pos := 1 + length rb\<rparr>))"

subsection \<open>Writing\<close>

definition write_byte :: "u8 \<Rightarrow> mqtt_packet \<Rightarrow> mqtt_packet option" where
  "write_byte b p =
     (if pos p + 1 \<le> packet_length p
      then Some (p\<lparr>payload := (payload p)[pos p := b], pos := pos p + 1\<rparr>) else None)"

definition write_bytes :: "u8 list \<Rightarrow> mqtt_packet \<Rightarrow> mqtt_packet option" where
  "write_bytes bs p =
     (if pos p + length bs \<le> packet_length p
      then Some (p\<lparr>payload := take (pos p) (payload p) @ bs @ drop (pos p + length bs) (payload p),
                   pos := pos p + length bs\<rparr>)
      else None)"

definition MOSQ_MSB :: "u16 \<Rightarrow> u8" where
  "MOSQ_MSB w = ucast (drop_bit 8 (w AND 0xFF00))"

definition MOSQ_LSB :: "u16 \<Rightarrow> u8" where
  "MOSQ_LSB w = ucast (w AND 0x00FF)"

definition write_uint16 :: "u16 \<Rightarrow> mqtt_packet \<Rightarrow> mqtt_packet option" where
  "write_uint16 w p = Option.bind (write_byte (MOSQ_MSB w) p) (write_byte (MOSQ_LSB w))"

text \<open>The length is passed as 16 bits, so of a longer text only its beginning is written.\<close>

definition write_string :: "u8 list \<Rightarrow> mqtt_packet \<Rightarrow> mqtt_packet option" where
  "write_string s p =
     (let len = word_of_nat (length s) :: u16
      in Option.bind (write_uint16 len p) (write_bytes (take (unat len) s)))"

subsection \<open>Reading\<close>

definition read_byte :: "mqtt_packet \<Rightarrow> mosq_err + u8 \<times> mqtt_packet" where
  "read_byte p =
     (if pos p + 1 > remaining_length p then Inl MOSQ_ERR_PROTOCOL
      else Inr (payload p ! pos p, p\<lparr>pos := pos p + 1\<rparr>))"

definition read_bytes :: "nat \<Rightarrow> mqtt_packet \<Rightarrow> mosq_err + u8 list \<times> mqtt_packet" where
  "read_bytes n p =
     (if pos p + n > remaining_length p then Inl MOSQ_ERR_PROTOCOL
      else Inr (take n (drop (pos p) (payload p)), p\<lparr>pos := pos p + n\<rparr>))"

definition read_uint16 :: "mqtt_packet \<Rightarrow> mosq_err + u16 \<times> mqtt_packet" where
  "read_uint16 p =
     (if pos p + 2 > remaining_length p then Inl MOSQ_ERR_PROTOCOL
      else Inr (push_bit 8 (ucast (payload p ! pos p)) + ucast (payload p ! (pos p + 1)), p\<lparr>pos := pos p + 2\<rparr>))"

definition read_string :: "mqtt_packet \<Rightarrow> mosq_err + string \<times> mqtt_packet" where
  "read_string p =
     (case read_uint16 p of
        Inl e \<Rightarrow> Inl e
      | Inr (len, p1) \<Rightarrow>
          if pos p1 + unat len > remaining_length p1 then Inl MOSQ_ERR_PROTOCOL
          else Inr (string_of_bytes (take (unat len) (drop (pos p1) (payload p1))), p1\<lparr>pos := pos p1 + unat len\<rparr>))"

subsection \<open>The packets\<close>

text \<open>
  The packets as they are handed to the queue: an error of the allocation, or the packet. A
  text is the list of its bytes.
\<close>

definition PUBLISH :: u8 where "PUBLISH = 0x30"
definition PUBACK :: u8 where "PUBACK = 0x40"
definition PUBREC :: u8 where "PUBREC = 0x50"
definition PUBREL :: u8 where "PUBREL = 0x60"
definition PUBCOMP :: u8 where "PUBCOMP = 0x70"

definition with_alloc :: "u8 \<Rightarrow> mqtt_packet \<Rightarrow> (mqtt_packet \<Rightarrow> mqtt_packet option)
    \<Rightarrow> (mosq_err + mqtt_packet) option" where
  "with_alloc junk p body =
     (let (rc, p1) = packet_alloc junk p
      in if rc \<noteq> MOSQ_ERR_SUCCESS then Some (Inl rc) else map_option Inr (body p1))"

definition publish_packet ::
    "u8 \<Rightarrow> u16 \<Rightarrow> string \<Rightarrow> u8 list \<Rightarrow> nat \<Rightarrow> bool \<Rightarrow> bool \<Rightarrow> (mosq_err + mqtt_packet) option" where
  "publish_packet junk mid topic body qos retain dup =
     with_alloc junk
       (calloc_packet\<lparr>packet_mid := mid,
          command := PUBLISH OR push_bit 3 (of_bool dup) OR push_bit 1 (word_of_nat qos) OR of_bool retain,
          remaining_length := (2 + length topic + length body + (if qos > 0 then 2 else 0)) mod 2 ^ 32\<rparr>)
       (\<lambda>p. do {
          p1 \<leftarrow> write_string (bytes_of_string topic) p;
          p2 \<leftarrow> (if qos > 0 then write_uint16 mid p1 else Some p1);
          if body \<noteq> [] then write_bytes body p2 else Some p2
        })"

definition command_with_mid_packet :: "u8 \<Rightarrow> u8 \<Rightarrow> u16 \<Rightarrow> bool \<Rightarrow> (mosq_err + mqtt_packet) option" where
  "command_with_mid_packet junk cmd mid dup =
     with_alloc junk (calloc_packet\<lparr>command := (if dup then cmd OR 8 else cmd), remaining_length := 2\<rparr>)
       (\<lambda>p. Some (p\<lparr>payload := (payload p)[pos p := MOSQ_MSB mid, pos p + 1 := MOSQ_LSB mid]\<rparr>))"

definition simple_command_packet :: "u8 \<Rightarrow> u8 \<Rightarrow> (mosq_err + mqtt_packet) option" where
  "simple_command_packet junk cmd = with_alloc junk (calloc_packet\<lparr>command := cmd\<rparr>) Some"

definition subscribe_packet :: "u8 \<Rightarrow> u16 \<Rightarrow> string \<Rightarrow> u8 \<Rightarrow> (mosq_err + mqtt_packet) option" where
  "subscribe_packet junk mid topic topic_qos =
     with_alloc junk (calloc_packet\<lparr>command := 0x80 OR 2, remaining_length := (2 + 2 + length topic + 1) mod 2 ^ 32\<rparr>)
       (\<lambda>p. do {
          p1 \<leftarrow> write_uint16 mid p;
          p2 \<leftarrow> write_string (bytes_of_string topic) p1;
          write_byte topic_qos p2
        })"

definition unsubscribe_packet :: "u8 \<Rightarrow> u16 \<Rightarrow> string \<Rightarrow> (mosq_err + mqtt_packet) option" where
  "unsubscribe_packet junk mid topic =
     with_alloc junk (calloc_packet\<lparr>command := 0xA0 OR 2, remaining_length := (2 + 2 + length topic) mod 2 ^ 32\<rparr>)
       (\<lambda>p. do {
          p1 \<leftarrow> write_uint16 mid p;
          write_string (bytes_of_string topic) p1
        })"

definition connect_flags :: "bool \<Rightarrow> mosq_message option \<Rightarrow> string option \<Rightarrow> string option \<Rightarrow> u8" where
  "connect_flags clean_session will username password =
     push_bit 1 (of_bool clean_session)
     OR (case will of None \<Rightarrow> 0
         | Some w \<Rightarrow> push_bit 5 (of_bool (msg_retain w)) OR push_bit 3 (word_of_nat (msg_qos w) AND 3) OR push_bit 2 1)
     OR (if username \<noteq> None then 0x80 OR (if password \<noteq> None then 0x40 else 0) else 0)"

definition write_optional :: "u8 list option \<Rightarrow> mqtt_packet \<Rightarrow> mqtt_packet option" where
  "write_optional t p = (case t of None \<Rightarrow> Some p | Some s \<Rightarrow> write_string s p)"

definition connect_packet :: "u8 \<Rightarrow> mqtt_protocol \<Rightarrow> u16 \<Rightarrow> bool \<Rightarrow> string \<Rightarrow> mosq_message option
    \<Rightarrow> string option \<Rightarrow> string option \<Rightarrow> (mosq_err + mqtt_packet) option" where
  "connect_packet junk protocol keepalive clean_session clientid will username password =
     (if protocol \<noteq> mosq_p_mqtt31 \<and> protocol \<noteq> mosq_p_mqtt311 then Some (Inl MOSQ_ERR_INVAL)
      else
        let version = (if protocol = mosq_p_mqtt31 then 3 else 4) :: u8;
            headerlen = (if protocol = mosq_p_mqtt31 then 12 else 10) :: nat;
            payloadlen = 2 + length clientid
              + (case will of None \<Rightarrow> 0 | Some w \<Rightarrow> 2 + length (msg_topic w) + 2 + length (msg_payload w))
              + (case username of None \<Rightarrow> 0
                 | Some u \<Rightarrow> 2 + length u + (case password of None \<Rightarrow> 0 | Some pw \<Rightarrow> 2 + length pw))
        in with_alloc junk (calloc_packet\<lparr>command := 0x10, remaining_length := (headerlen + payloadlen) mod 2 ^ 32\<rparr>)
             (\<lambda>p. do {
                p1 \<leftarrow> write_string (bytes_of_string (if version = 3 then ''MQIsdp'' else ''MQTT'')) p;
                p2 \<leftarrow> write_byte version p1;
                p3 \<leftarrow> write_byte (connect_flags clean_session will username password) p2;
                p4 \<leftarrow> write_uint16 keepalive p3;
                p5 \<leftarrow> write_string (bytes_of_string clientid) p4;
                p6 \<leftarrow> write_optional (map_option (\<lambda>w. bytes_of_string (msg_topic w)) will) p5;
                p7 \<leftarrow> write_optional (map_option msg_payload will) p6;
                p8 \<leftarrow> write_optional (map_option bytes_of_string username) p7;
                write_optional (if username = None then None else map_option bytes_of_string password) p8
              }))"

subsection \<open>Packets that are being written\<close>

text \<open>The packet \<open>p\<close> with the bytes \<open>d\<close> written and \<open>k\<close> bytes to come.\<close>

definition fill :: "u8 list \<Rightarrow> nat \<Rightarrow> u8 \<Rightarrow> mqtt_packet \<Rightarrow> mqtt_packet" where
  "fill d k junk p = p\<lparr>payload := d @ replicate k junk, pos := length d, packet_length := length d + k\<rparr>"

text \<open>How a number and a text stand in a packet.\<close>

definition enc16 :: "u16 \<Rightarrow> u8 list" where
  "enc16 w = [MOSQ_MSB w, MOSQ_LSB w]"

definition enc_text :: "u8 list \<Rightarrow> u8 list" where
  "enc_text s = (let len = word_of_nat (length s) :: u16 in enc16 len @ take (unat len) s)"

named_theorems fill_simps \<open>writing into a packet\<close>

lemma fill_fields [simp]:
  "command (fill d k j p) = command p" "packet_mid (fill d k j p) = packet_mid p"
  "remaining_length (fill d k j p) = remaining_length p" "payload (fill d k j p) = d @ replicate k j"
  "packet_length (fill d k j p) = length d + k" "pos (fill d k j p) = length d"
  by (simp_all add: fill_def)

lemma write_byte_fill [fill_simps]: "0 < k \<Longrightarrow> write_byte b (fill d k j p) = Some (fill (d @ [b]) (k - 1) j p)"
  by (cases k) (simp_all add: write_byte_def fill_def)

lemma write_bytes_fill [fill_simps]:
  "length bs \<le> k \<Longrightarrow> write_bytes bs (fill d k j p) = Some (fill (d @ bs) (k - length bs) j p)"
  by (simp add: write_bytes_def fill_def)

lemma write_uint16_fill [fill_simps]:
  "2 \<le> k \<Longrightarrow> write_uint16 w (fill d k j p) = Some (fill (d @ enc16 w) (k - 2) j p)"
  by (simp add: write_uint16_def write_byte_fill enc16_def numeral_2_eq_2)

lemma enc_text_length: "length (enc_text s) = 2 + length s mod 2 ^ 16"
  by (simp add: enc_text_def enc16_def Let_def unat_of_nat min_def)

lemma write_string_fill [fill_simps]:
  assumes "2 + length s mod 2 ^ 16 \<le> k"
  shows "write_string s (fill d k j p) = Some (fill (d @ enc_text s) (k - length (enc_text s)) j p)"
proof -
  have "unat (word_of_nat (length s) :: u16) = length s mod 2 ^ 16" by (simp add: unat_of_nat)
  moreover have "length s mod 2 ^ 16 \<le> length s" by simp
  ultimately show ?thesis
    using assms by (simp add: write_string_def Let_def write_uint16_fill write_bytes_fill enc_text_length)
      (simp add: enc_text_def)
qed

lemma enc_text_small: "length s < 2 ^ 16 \<Longrightarrow> enc_text s = enc16 (word_of_nat (length s)) @ s"
  by (simp add: enc_text_def Let_def unat_of_nat)

subsection \<open>The remaining length\<close>

lemma remaining_bytes_length:
  "n < 128 ^ k \<Longrightarrow> 0 < k \<Longrightarrow> k \<le> i \<Longrightarrow> length (remaining_bytes i n) \<le> k"
proof (induction i n arbitrary: k rule: remaining_bytes.induct)
  case (2 i n)
  show ?case
  proof (cases "n div 128 > 0")
    case True
    then obtain l where k: "k = Suc l" "0 < l" using 2(2,3) by (cases k; cases "k - 1") auto
    have "n div 128 < 128 ^ l" using 2(2) k by (simp add: less_mult_imp_div_less mult.commute)
    then show ?thesis using 2(1)[OF refl refl True, of l] 2(4) k True by (simp add: Let_def)
  next
    case False
    then show ?thesis using 2(3) by (simp add: Let_def)
  qed
qed simp

lemma remaining_bytes_ge: "128 ^ k \<le> n \<Longrightarrow> k < i \<Longrightarrow> k < length (remaining_bytes i n)"
proof (induction k arbitrary: i n)
  case 0
  then show ?case by (cases i) (simp_all add: Let_def)
next
  case (Suc k)
  obtain j where i: "i = Suc j" using Suc.prems(2) by (cases i) auto
  have "128 ^ k \<le> n div 128" using Suc.prems(1) by (simp add: less_eq_div_iff_mult_less_eq mult.commute)
  moreover from this have "0 < n div 128" by (rule less_le_trans[rotated]) simp
  ultimately show ?case using Suc.IH[of "n div 128" j] Suc.prems(2) i by (simp add: Let_def)
qed

lemma packet_alloc_fill:
  assumes "remaining_length p < 128 ^ 4"
  shows "packet_alloc j p = (MOSQ_ERR_SUCCESS,
    fill (command p # remaining_bytes 5 (remaining_length p)) (remaining_length p) j
      (p\<lparr>remaining_count := int (length (remaining_bytes 5 (remaining_length p)))\<rparr>))"
proof -
  have l: "length (remaining_bytes 5 (remaining_length p)) \<le> 4"
    using remaining_bytes_length[of "remaining_length p" 4 5] assms by simp
  then have "remaining_length p + 1 + length (remaining_bytes 5 (remaining_length p)) < 2 ^ 32"
    using assms by simp
  then show ?thesis using l by (simp add: packet_alloc_def Let_def fill_def del: remaining_bytes.simps)
qed

lemma packet_alloc_large:
  assumes "128 ^ 4 \<le> remaining_length p"
  shows "fst (packet_alloc j p) = MOSQ_ERR_PAYLOAD_SIZE"
proof -
  have "length (remaining_bytes 5 n) \<le> 5" for n
  proof -
    have "length (remaining_bytes i n) \<le> i" for i by (induction i n rule: remaining_bytes.induct) (simp_all add: Let_def)
    then show ?thesis .
  qed
  moreover have "4 < length (remaining_bytes 5 (remaining_length p))"
    using remaining_bytes_ge[of 4 "remaining_length p" 5] assms by simp
  ultimately have "length (remaining_bytes 5 (remaining_length p)) = 5" by (simp add: le_antisym del: remaining_bytes.simps)
  then show ?thesis by (simp add: packet_alloc_def Let_def del: remaining_bytes.simps)
qed

subsection \<open>The packets that are built\<close>

lemma with_alloc_large:
  "128 ^ 4 \<le> remaining_length p \<Longrightarrow> with_alloc j p body = Some (Inl MOSQ_ERR_PAYLOAD_SIZE)"
  using packet_alloc_large[of p j] by (auto simp: with_alloc_def split_beta)

lemma with_alloc_fill:
  assumes "remaining_length p < 128 ^ 4"
  shows "with_alloc j p body = map_option Inr (body (fill (command p # remaining_bytes 5 (remaining_length p))
    (remaining_length p) j (p\<lparr>remaining_count := int (length (remaining_bytes 5 (remaining_length p)))\<rparr>)))"
  by (simp add: with_alloc_def packet_alloc_fill[OF assms] del: remaining_bytes.simps)

definition publish_length :: "string \<Rightarrow> u8 list \<Rightarrow> nat \<Rightarrow> nat" where
  "publish_length t body q = 2 + length t + length body + (if q > 0 then 2 else 0)"

definition publish_command :: "nat \<Rightarrow> bool \<Rightarrow> bool \<Rightarrow> u8" where
  "publish_command q r d = PUBLISH OR push_bit 3 (of_bool d) OR push_bit 1 (word_of_nat q) OR of_bool r"

definition publish_rest :: "u16 \<Rightarrow> string \<Rightarrow> u8 list \<Rightarrow> nat \<Rightarrow> u8 list" where
  "publish_rest mid t body q = enc_text (bytes_of_string t) @ (if q > 0 then enc16 mid else []) @ body"

lemma publish_rest_length: "length t < 2 ^ 16 \<Longrightarrow> length (publish_rest mid t body q) = publish_length t body q"
  by (simp add: publish_rest_def publish_length_def enc_text_length enc16_def)

lemma publish_packet_bytes:
  assumes "length t < 2 ^ 16" "publish_length t body q < 128 ^ 4"
  shows "\<exists>p. publish_packet j mid t body q r d = Some (Inr p)
    \<and> payload p = publish_command q r d # remaining_bytes 5 (publish_length t body q) @ publish_rest mid t body q
    \<and> packet_length p = length (payload p) \<and> command p = publish_command q r d \<and> packet_mid p = mid"
proof -
  have n: "(2 + length t + length body + (if q > 0 then 2 else 0)) mod 2 ^ 32 = publish_length t body q"
    using assms(2) by (simp add: publish_length_def)
  have t: "length (enc_text (bytes_of_string t)) = 2 + length t" using assms(1) by (simp add: enc_text_length)
  show ?thesis
    unfolding publish_packet_def n
    by (subst with_alloc_fill)
      (use assms t in \<open>simp_all add: fill_simps publish_length_def publish_command_def publish_rest_def enc16_def
         del: remaining_bytes.simps\<close>)
qed

lemma publish_packet_large:
  assumes "128 ^ 4 \<le> publish_length t body q" "publish_length t body q < 2 ^ 32"
  shows "publish_packet j mid t body q r d = Some (Inl MOSQ_ERR_PAYLOAD_SIZE)"
proof -
  have n: "(2 + length t + length body + (if q > 0 then 2 else 0)) mod 2 ^ 32 = publish_length t body q"
    using assms(2) by (simp add: publish_length_def)
  show ?thesis
    unfolding publish_packet_def n by (rule with_alloc_large) (use assms in simp)
qed

text \<open>A packet is built without a failed assertion, and its buffer has the stated length.\<close>

definition built_ok :: "(mosq_err + mqtt_packet) option \<Rightarrow> bool" where
  "built_ok b \<longleftrightarrow> b \<noteq> None \<and> (\<forall>p. b = Some (Inr p) \<longrightarrow> length (payload p) = packet_length p)"

lemma built_ok_fill: "b = Some (Inr (fill d k j p)) \<Longrightarrow> built_ok b"
  by (simp add: built_ok_def)

lemma built_ok_with_alloc:
  assumes "\<And>d p'. \<exists>d' k'. body (fill d (remaining_length p) j p') = Some (fill d' k' j p')"
  shows "built_ok (with_alloc j p body)"
proof (cases "remaining_length p < 128 ^ 4")
  case True
  obtain d' k' where "body (fill (command p # remaining_bytes 5 (remaining_length p)) (remaining_length p) j
      (p\<lparr>remaining_count := int (length (remaining_bytes 5 (remaining_length p)))\<rparr>))
    = Some (fill d' k' j (p\<lparr>remaining_count := int (length (remaining_bytes 5 (remaining_length p)))\<rparr>))"
    using assms by blast
  then show ?thesis using with_alloc_fill[OF True, of j body] by (simp add: built_ok_def)
next
  case False
  then show ?thesis using with_alloc_large[of p j body] by (simp add: built_ok_def)
qed

lemma publish_built:
  assumes "length t < 2 ^ 16" "length body \<le> 2 ^ 28"
  shows "built_ok (publish_packet j mid t body q r d)"
proof (cases "publish_length t body q < 128 ^ 4")
  case True
  then show ?thesis using publish_packet_bytes[OF assms(1), of body q j mid r d] by (auto simp: built_ok_def)
next
  case False
  then show ?thesis
    using publish_packet_large[of t body q j mid r d] assms by (auto simp: built_ok_def publish_length_def)
qed

lemma command_with_mid_built: "built_ok (command_with_mid_packet j c mid d)"
  by (simp add: command_with_mid_packet_def with_alloc_fill calloc_packet_def built_ok_def fill_def Let_def)

lemma simple_command_built: "built_ok (simple_command_packet j c)"
  by (simp add: simple_command_packet_def with_alloc_fill calloc_packet_def built_ok_def fill_def Let_def)

lemma subscribe_built:
  assumes "length t < 2 ^ 16"
  shows "built_ok (subscribe_packet j mid t q)"
  unfolding subscribe_packet_def
  by (rule built_ok_with_alloc) (use assms in \<open>simp add: fill_simps enc_text_length enc16_def del: remaining_bytes.simps\<close>, blast)

lemma unsubscribe_built:
  assumes "length t < 2 ^ 16"
  shows "built_ok (unsubscribe_packet j mid t)"
  unfolding unsubscribe_packet_def
  by (rule built_ok_with_alloc) (use assms in \<open>simp add: fill_simps enc_text_length enc16_def del: remaining_bytes.simps\<close>, blast)

text \<open>The parts of a CONNECT packet may be longer than 16 bits tell; then less is written than there is room for.\<close>

definition opt_len :: "u8 list option \<Rightarrow> nat" where
  "opt_len t = (case t of None \<Rightarrow> 0 | Some s \<Rightarrow> 2 + length s)"

lemma write_optional_room:
  assumes "opt_len t + r \<le> k"
  shows "\<exists>d' k'. write_optional t (fill d k j p) = Some (fill d' k' j p) \<and> r \<le> k'"
proof (cases t)
  case (Some s)
  have "length s mod 2 ^ 16 \<le> length s" by simp
  then have "2 + length s mod 2 ^ 16 \<le> k" "r \<le> k - length (enc_text s)"
    using assms Some by (simp_all add: opt_len_def enc_text_length)
  then show ?thesis using Some by (auto simp: write_optional_def write_string_fill)
qed (use assms in \<open>auto simp: write_optional_def opt_len_def\<close>)

lemma write_string_room:
  assumes "2 + length s + r \<le> k"
  shows "\<exists>d' k'. write_string s (fill d k j p) = Some (fill d' k' j p) \<and> r \<le> k'"
  using write_optional_room[of "Some s" r k d j p] assms by (simp add: write_optional_def opt_len_def)

lemma connect_body_room:
  assumes "length n + 6 + (2 + length c) + opt_len w1 + opt_len w2 + opt_len u + opt_len pw \<le> k"
  shows "\<exists>d' k'. do {
      p1 \<leftarrow> write_string n (fill d k j p); p2 \<leftarrow> write_byte v p1; p3 \<leftarrow> write_byte fl p2;
      p4 \<leftarrow> write_uint16 ka p3; p5 \<leftarrow> write_string c p4; p6 \<leftarrow> write_optional w1 p5;
      p7 \<leftarrow> write_optional w2 p6; p8 \<leftarrow> write_optional u p7; write_optional pw p8 }
    = Some (fill d' k' j p)"
proof -
  obtain d1 k1 where 1: "write_string n (fill d k j p) = Some (fill d1 k1 j p)"
    "4 + (2 + length c) + opt_len w1 + opt_len w2 + opt_len u + opt_len pw \<le> k1"
    using write_string_room[of n "4 + (2 + length c) + opt_len w1 + opt_len w2 + opt_len u + opt_len pw" k d j p] assms by auto
  have k1: "2 + length c + (opt_len w1 + opt_len w2 + opt_len u + opt_len pw) \<le> k1 - 4" using 1(2) by linarith
  obtain d5 k5 where 5: "write_string c (fill ((d1 @ [v, fl]) @ enc16 ka) (k1 - 4) j p) = Some (fill d5 k5 j p)"
    "opt_len w1 + opt_len w2 + opt_len u + opt_len pw \<le> k5"
    using write_string_room[OF k1] by blast
  obtain d6 k6 where 6: "write_optional w1 (fill d5 k5 j p) = Some (fill d6 k6 j p)" "opt_len w2 + opt_len u + opt_len pw \<le> k6"
    using write_optional_room[of w1 "opt_len w2 + opt_len u + opt_len pw" k5 d5 j p] 5(2) by auto
  obtain d7 k7 where 7: "write_optional w2 (fill d6 k6 j p) = Some (fill d7 k7 j p)" "opt_len u + opt_len pw \<le> k7"
    using write_optional_room[of w2 "opt_len u + opt_len pw" k6 d6 j p] 6(2) by auto
  obtain d8 k8 where 8: "write_optional u (fill d7 k7 j p) = Some (fill d8 k8 j p)" "opt_len pw \<le> k8"
    using write_optional_room[of u "opt_len pw" k7 d7 j p] 7(2) by auto
  obtain d9 k9 where 9: "write_optional pw (fill d8 k8 j p) = Some (fill d9 k9 j p)"
    using write_optional_room[of pw 0 k8 d8 j p] 8(2) by auto
  have "k1 - 1 - 1 - 2 = k1 - 4" by simp
  then show ?thesis using 1 5(1) 6(1) 7(1) 8(1) 9
    by (simp add: write_byte_fill write_uint16_fill numeral_eq_Suc) blast
qed

lemma connect_built:
  assumes "length c \<le> 2 ^ 28" "\<And>m. w = Some m \<Longrightarrow> length (msg_topic m) \<le> 2 ^ 28 \<and> length (msg_payload m) \<le> 2 ^ 28"
    "\<And>s. u = Some s \<Longrightarrow> length s \<le> 2 ^ 28" "\<And>s. pw = Some s \<Longrightarrow> length s \<le> 2 ^ 28"
  shows "built_ok (connect_packet j pr ka cl c w u pw)"
proof (cases "pr = mosq_p_mqtt31 \<or> pr = mosq_p_mqtt311")
  case True
  let ?w1 = "map_option (\<lambda>m. bytes_of_string (msg_topic m)) w" and ?w2 = "map_option msg_payload w"
    and ?u = "map_option bytes_of_string u" and ?p = "if u = None then None else map_option bytes_of_string pw"
  let ?h = "if pr = mosq_p_mqtt31 then 12 else 10 :: nat"
  let ?n = "bytes_of_string (if (if pr = mosq_p_mqtt31 then 3 else 4 :: u8) = 3 then ''MQIsdp'' else ''MQTT'')"
  let ?l = "2 + length c + (case w of None \<Rightarrow> 0 | Some m \<Rightarrow> 2 + length (msg_topic m) + 2 + length (msg_payload m))
    + (case u of None \<Rightarrow> 0 | Some a \<Rightarrow> 2 + length a + (case pw of None \<Rightarrow> 0 | Some b \<Rightarrow> 2 + length b))"
  have l: "2 + length c + opt_len ?w1 + opt_len ?w2 + opt_len ?u + opt_len ?p = ?l"
    by (simp add: opt_len_def split: option.splits)
  have "?h + ?l < 2 ^ 32" using assms by (fastforce split: option.splits)
  then have m: "(?h + ?l) mod 2 ^ 32 = ?h + ?l" by simp
  have n: "length ?n + 6 = ?h" by simp
  have np: "\<not> (pr \<noteq> mosq_p_mqtt31 \<and> pr \<noteq> mosq_p_mqtt311)" using True by blast
  show ?thesis
    unfolding connect_packet_def Let_def m if_not_P[OF np]
    by (rule built_ok_with_alloc, rule connect_body_room) (use l n in simp)
qed (simp add: connect_packet_def built_ok_def)

text \<open>Of a text of 65536 bytes only the length is written, and it is zero: the room keeps its old content.\<close>

lemma long_text_leaves_junk:
  assumes "length s = 2 ^ 16"
  shows "write_string s (fill d (2 + 2 ^ 16) j p) = Some (fill (d @ [0, 0]) (2 ^ 16) j p)"
proof -
  have "(word_of_nat (length s) :: u16) = 0" using assms by (simp add: word_of_nat_eq_0_iff)
  then have "enc_text s = [0, 0]" by (simp add: enc_text_def enc16_def MOSQ_MSB_def MOSQ_LSB_def)
  then show ?thesis using assms by (simp add: write_string_fill)
qed

end
