(* ===== verification/Mqtt_Client.thy ===== *)
theory Mqtt_Client
  imports Mqtt_Packet
begin

text \<open>
  The client of the MQTT library (\<^verbatim>\<open>src/src/mosquitto/lib\<close>): the state of
  \<^verbatim>\<open>struct mosquitto\<close>, the queues of packets and of messages, the handlers of incoming
  packets, and the operations of the interface. It is the library as the repository
  configures it: without TLS, SRV and SOCKS, in a program with one thread, so that taking a
  mutex has no effect.

  The linked lists with a pointer to the last element are lists. The record also holds what
  the system does: the outcomes of the coming reads, writes, connects and selects, the bytes
  sent so far, the clock, errno, the content of fresh buffers, and the calls of the callbacks
  so far. A callback does not call the library. When the outcomes of an operation are used
  up, reading would block and writing accepts everything. A failed assertion or a NULL
  dereference is the outcome \<open>None\<close>.
\<close>

datatype mosq_cs = mosq_cs_new | mosq_cs_connected | mosq_cs_disconnecting | mosq_cs_connect_async
  | mosq_cs_connect_pending | mosq_cs_connect_srv | mosq_cs_disconnect_ws | mosq_cs_disconnected
  | mosq_cs_socks5_new | mosq_cs_socks5_start | mosq_cs_socks5_request | mosq_cs_socks5_reply
  | mosq_cs_socks5_auth_ok | mosq_cs_socks5_userpass_reply | mosq_cs_socks5_send_userpass
  | mosq_cs_expiring

datatype mosq_ms = mosq_ms_invalid | mosq_ms_publish_qos0 | mosq_ms_publish_qos1
  | mosq_ms_wait_for_puback | mosq_ms_publish_qos2 | mosq_ms_wait_for_pubrec | mosq_ms_resend_pubrel
  | mosq_ms_wait_for_pubrel | mosq_ms_resend_pubcomp | mosq_ms_wait_for_pubcomp
  | mosq_ms_send_pubrec | mosq_ms_queued

datatype errno = E_none | EAGAIN | ECONNRESET | E_other

datatype read_event = Data "u8 list" | Read_fails errno
datatype write_event = Accepts nat | Write_fails errno
datatype connect_event = Connects int "read_event list" "write_event list" | Connect_fails mosq_err
datatype select_event = Ready bool bool bool | Interrupted | Select_fails

datatype mosq_call = On_connect u8 | On_disconnect mosq_err | On_publish u16 | On_message mosq_message
  | On_subscribe u16 "u8 list" | On_unsubscribe u16

record mosq_message_all =
  timestamp :: int
  mstate :: mosq_ms
  dup :: bool
  msg :: mosq_message

record mosquitto =
  sock :: int
  sockpairR :: int
  protocol :: mqtt_protocol
  client_id :: string
  username :: "string option"
  password :: "string option"
  keepalive :: u16
  last_mid :: u16
  cstate :: mosq_cs
  last_msg_in :: int
  next_msg_out :: int
  ping_t :: int
  in_packet :: mqtt_packet
  current_out_packet :: "mqtt_packet option"
  out_packet :: "mqtt_packet list"
  will :: "mosq_message option"
  clean_session :: bool
  in_callback :: bool
  message_retry :: int
  last_retry_check :: int
  in_messages :: "mosq_message_all list"
  out_messages :: "mosq_message_all list"
  on_connect :: bool
  on_disconnect :: bool
  on_publish :: bool
  on_message :: bool
  on_subscribe :: bool
  on_unsubscribe :: bool
  host :: "string option"
  port :: int
  in_queue_len :: int
  out_queue_len :: int
  threaded :: bool
  inflight_messages :: int
  max_inflight_messages :: int
  reads :: "read_event list"
  writes :: "write_event list"
  connects :: "connect_event list"
  selects :: "select_event list"
  pair_fd :: int
  sent :: "u8 list"
  now :: int
  errno :: errno
  junk :: u8
  calls :: "mosq_call list"

definition callback :: "(mosquitto \<Rightarrow> bool) \<Rightarrow> mosq_call \<Rightarrow> mosquitto \<Rightarrow> mosquitto" where
  "callback present c m = (if present m then m\<lparr>calls := calls m @ [c]\<rparr> else m)"

definition socket_close :: "mosquitto \<Rightarrow> mosquitto" where
  "socket_close m = (if sock m \<ge> 0 then m\<lparr>sock := -1\<rparr> else m)"

definition mid_generate :: "mosquitto \<Rightarrow> u16 \<times> mosquitto" where
  "mid_generate m =
     (let m1 = last_mid m + 1; m2 = (if m1 = 0 then m1 + 1 else m1) in (m2, m\<lparr>last_mid := m2\<rparr>))"

subsection \<open>Reading and writing the socket\<close>

text \<open>
  A read returns at most the bytes asked for; what is left of them comes next. No bytes at
  all is the end of the stream. Both functions clear errno first.
\<close>

definition net_read :: "nat \<Rightarrow> mosquitto \<Rightarrow> u8 list option \<times> mosquitto" where
  "net_read count m =
     (case reads m of
        [] \<Rightarrow> (None, m\<lparr>errno := EAGAIN\<rparr>)
      | Read_fails e # es \<Rightarrow> (None, m\<lparr>errno := e, reads := es\<rparr>)
      | Data bs # es \<Rightarrow>
          (Some (take count bs),
           m\<lparr>errno := E_none, reads := (if length bs \<le> count then es else Data (drop count bs) # es)\<rparr>))"

definition net_write :: "u8 list \<Rightarrow> mosquitto \<Rightarrow> nat option \<times> mosquitto" where
  "net_write bs m =
     (case writes m of
        [] \<Rightarrow> (Some (length bs), m\<lparr>errno := E_none, sent := sent m @ bs\<rparr>)
      | Write_fails e # es \<Rightarrow> (None, m\<lparr>errno := e, writes := es\<rparr>)
      | Accepts n # es \<Rightarrow>
          (Some (length (take n bs)), m\<lparr>errno := E_none, sent := sent m @ take n bs, writes := es\<rparr>))"

definition errno_rc :: "errno \<Rightarrow> mosq_err" where
  "errno_rc e = (if e = ECONNRESET then MOSQ_ERR_CONN_LOST else MOSQ_ERR_ERRNO)"

text \<open>
  The loop that writes one packet: the packet is finished, or the value to return. A write
  that accepts nothing leaves errno cleared, so it counts as an error.
\<close>

function (sequential) write_packet_loop :: "mqtt_packet \<Rightarrow> mosquitto \<Rightarrow> mosq_err option \<times> mqtt_packet \<times> mosquitto" where
  "write_packet_loop p m =
     (if to_process p > 0 then
        (let (r, m1) = net_write (take (to_process p) (drop (pos p) (payload p))) m
         in case r of
              Some n \<Rightarrow>
                if n > 0 then write_packet_loop (p\<lparr>to_process := to_process p - n, pos := pos p + n\<rparr>) m1
                else (Some (errno_rc (errno m1)), p, m1)
            | None \<Rightarrow>
                (Some (if errno m1 = EAGAIN then MOSQ_ERR_SUCCESS else errno_rc (errno m1)), p, m1))
      else (None, p, m))"
  by pat_completeness auto
termination write_packet_loop
  by (relation "measure (\<lambda>(p, m). to_process p)") auto

declare write_packet_loop.simps [simp del]

text \<open>Takes the next packet of the queue as the current one.\<close>

definition next_packet :: "mosquitto \<Rightarrow> mosquitto" where
  "next_packet m =
     (case out_packet m of
        [] \<Rightarrow> m\<lparr>current_out_packet := None\<rparr>
      | p # ps \<Rightarrow> m\<lparr>current_out_packet := Some p, out_packet := ps\<rparr>)"

fun packet_write_loop :: "nat \<Rightarrow> mosquitto \<Rightarrow> mosq_err \<times> mosquitto" where
  "packet_write_loop 0 m = (MOSQ_ERR_SUCCESS, m)"
| "packet_write_loop (Suc n) m =
     (case current_out_packet m of
        None \<Rightarrow> (MOSQ_ERR_SUCCESS, m)
      | Some p \<Rightarrow>
          let (r, p1, m1) = write_packet_loop p m
          in case r of
               Some rc \<Rightarrow> (rc, m1\<lparr>current_out_packet := Some p1\<rparr>)
             | None \<Rightarrow>
                 if command p AND 0xF6 = PUBLISH then
                   let m2 = callback on_publish (On_publish (packet_mid p)) m1
                   in packet_write_loop n ((next_packet m2)\<lparr>next_msg_out := now m + uint (keepalive m)\<rparr>)
                 else if command p AND 0xF0 = 0xE0 then
                   let m2 = (next_packet (socket_close m1))\<lparr>next_msg_out := now m + uint (keepalive m)\<rparr>
                   in (MOSQ_ERR_SUCCESS, callback on_disconnect (On_disconnect MOSQ_ERR_SUCCESS) m2)
                 else packet_write_loop n ((next_packet m1)\<lparr>next_msg_out := now m + uint (keepalive m)\<rparr>))"

text \<open>
  Every round of the loop takes a packet, so as many rounds as there are packets are all
  that the loop can have.
\<close>

definition packet_write :: "mosquitto \<Rightarrow> mosq_err \<times> mosquitto" where
  "packet_write m =
     (if sock m = -1 then (MOSQ_ERR_NO_CONN, m)
      else
        let m1 = (if out_packet m \<noteq> [] \<and> current_out_packet m = None then next_packet m else m)
        in if cstate m1 = mosq_cs_connect_pending then (MOSQ_ERR_SUCCESS, m1)
           else packet_write_loop (length (out_packet m1) + 2) m1)"

definition packet_queue :: "mqtt_packet \<Rightarrow> mosquitto \<Rightarrow> mosq_err \<times> mosquitto" where
  "packet_queue p m =
     (let m1 = m\<lparr>out_packet := out_packet m @ [p\<lparr>pos := 0, to_process := packet_length p\<rparr>]\<rparr>
      in if \<not> in_callback m1 \<and> \<not> threaded m1 then packet_write m1 else (MOSQ_ERR_SUCCESS, m1))"

definition queue_built :: "(mosq_err + mqtt_packet) option \<Rightarrow> mosquitto \<Rightarrow> (mosq_err \<times> mosquitto) option" where
  "queue_built b m = map_option (\<lambda>r. case r of Inl rc \<Rightarrow> (rc, m) | Inr p \<Rightarrow> packet_queue p m) b"

subsection \<open>Sending\<close>

definition send_command_with_mid :: "u8 \<Rightarrow> u16 \<Rightarrow> mosquitto \<Rightarrow> (mosq_err \<times> mosquitto) option" where
  "send_command_with_mid cmd mid m = queue_built (command_with_mid_packet (junk m) cmd mid False) m"

definition send_simple_command :: "u8 \<Rightarrow> mosquitto \<Rightarrow> (mosq_err \<times> mosquitto) option" where
  "send_simple_command cmd m = queue_built (simple_command_packet (junk m) cmd) m"

definition send_puback :: "u16 \<Rightarrow> mosquitto \<Rightarrow> (mosq_err \<times> mosquitto) option" where
  "send_puback mid m = send_command_with_mid PUBACK mid m"

definition send_pubrec :: "u16 \<Rightarrow> mosquitto \<Rightarrow> (mosq_err \<times> mosquitto) option" where
  "send_pubrec mid m = send_command_with_mid PUBREC mid m"

definition send_pubrel :: "u16 \<Rightarrow> mosquitto \<Rightarrow> (mosq_err \<times> mosquitto) option" where
  "send_pubrel mid m = send_command_with_mid (PUBREL OR 2) mid m"

definition send_pubcomp :: "u16 \<Rightarrow> mosquitto \<Rightarrow> (mosq_err \<times> mosquitto) option" where
  "send_pubcomp mid m = send_command_with_mid PUBCOMP mid m"

definition send_pingreq :: "mosquitto \<Rightarrow> (mosq_err \<times> mosquitto) option" where
  "send_pingreq m =
     map_option (\<lambda>(rc, m1). (rc, if rc = MOSQ_ERR_SUCCESS then m1\<lparr>ping_t := now m1\<rparr> else m1))
       (send_simple_command 0xC0 m)"

definition send_pingresp :: "mosquitto \<Rightarrow> (mosq_err \<times> mosquitto) option" where
  "send_pingresp m = send_simple_command 0xD0 m"

definition send_disconnect :: "mosquitto \<Rightarrow> (mosq_err \<times> mosquitto) option" where
  "send_disconnect m = send_simple_command 0xE0 m"

definition send_publish :: "mosq_message \<Rightarrow> bool \<Rightarrow> mosquitto \<Rightarrow> (mosq_err \<times> mosquitto) option" where
  "send_publish g d m =
     (if sock m = -1 then Some (MOSQ_ERR_NO_CONN, m)
      else queue_built (publish_packet (junk m) (msg_mid g) (msg_topic g) (msg_payload g) (msg_qos g) (msg_retain g) d) m)"

text \<open>The packet is allocated before the identifier is taken, so a failure leaves it.\<close>

definition send_subscribe :: "string \<Rightarrow> u8 \<Rightarrow> mosquitto \<Rightarrow> (mosq_err \<times> mosquitto) option" where
  "send_subscribe sub topic_qos m =
     (let (mid, m1) = mid_generate m
      in map_option (\<lambda>r. case r of Inl rc \<Rightarrow> (rc, m) | Inr p \<Rightarrow> packet_queue p m1)
           (subscribe_packet (junk m) mid sub topic_qos))"

definition send_unsubscribe :: "string \<Rightarrow> mosquitto \<Rightarrow> (mosq_err \<times> mosquitto) option" where
  "send_unsubscribe sub m =
     (let (mid, m1) = mid_generate m
      in map_option (\<lambda>r. case r of Inl rc \<Rightarrow> (rc, m) | Inr p \<Rightarrow> packet_queue p m1)
           (unsubscribe_packet (junk m) mid sub))"

definition send_connect :: "u16 \<Rightarrow> bool \<Rightarrow> mosquitto \<Rightarrow> (mosq_err \<times> mosquitto) option" where
  "send_connect ka clean m =
     map_option (\<lambda>r. case r of Inl rc \<Rightarrow> (rc, m) | Inr p \<Rightarrow> packet_queue p (m\<lparr>keepalive := ka\<rparr>))
       (connect_packet (junk m) (protocol m) ka clean (client_id m) (will m) (username m) (password m))"

subsection \<open>The queues of messages\<close>

definition out_state :: "nat \<Rightarrow> mosq_ms \<Rightarrow> mosq_ms" where
  "out_state q s = (if q = 1 then mosq_ms_wait_for_puback else if q = 2 then mosq_ms_wait_for_pubrec else s)"

definition may_send :: "mosquitto \<Rightarrow> bool" where
  "may_send m \<longleftrightarrow> max_inflight_messages m = 0 \<or> inflight_messages m < max_inflight_messages m"

definition message_queue_out :: "mosq_message_all \<Rightarrow> mosquitto \<Rightarrow> bool \<times> mosquitto" where
  "message_queue_out g m =
     (let m1 = m\<lparr>out_queue_len := out_queue_len m + 1, out_messages := out_messages m @ [g]\<rparr>
      in if msg_qos (msg g) > 0 then
           (if may_send m1 then (True, m1\<lparr>inflight_messages := inflight_messages m1 + 1\<rparr>) else (False, m1))
         else (True, m1))"

definition message_queue_in :: "mosq_message_all \<Rightarrow> mosquitto \<Rightarrow> mosquitto" where
  "message_queue_in g m = m\<lparr>in_queue_len := in_queue_len m + 1, in_messages := in_messages m @ [g]\<rparr>"

text \<open>
  After a message has left the queue, the ones that wait for a place are sent; the first
  error is returned.
\<close>

fun release_loop :: "mosq_message_all list \<Rightarrow> mosquitto
    \<Rightarrow> (mosq_err \<times> mosq_message_all list \<times> mosquitto) option" where
  "release_loop [] m = Some (MOSQ_ERR_SUCCESS, [], m)"
| "release_loop (g # gs) m =
     (if may_send m then
        (if msg_qos (msg g) > 0 \<and> mstate g = mosq_ms_invalid then
           do {
             let g1 = g\<lparr>mstate := out_state (msg_qos (msg g)) (mstate g)\<rparr>;
             (rc, m1) \<leftarrow> send_publish (msg g) (dup g) (m\<lparr>inflight_messages := inflight_messages m + 1\<rparr>);
             if rc \<noteq> MOSQ_ERR_SUCCESS then Some (rc, g1 # gs, m1)
             else do {
               (rc2, gs2, m2) \<leftarrow> release_loop gs m1;
               Some (rc2, g1 # gs2, m2)
             }
           }
         else map_option (\<lambda>(rc2, gs2, m2). (rc2, g # gs2, m2)) (release_loop gs m))
      else Some (MOSQ_ERR_SUCCESS, g # gs, m))"

fun take_message :: "u16 \<Rightarrow> mosq_message_all list \<Rightarrow> (mosq_message_all \<times> mosq_message_all list) option" where
  "take_message mid [] = None"
| "take_message mid (g # gs) =
     (if msg_mid (msg g) = mid then Some (g, gs)
      else map_option (\<lambda>(x, xs). (x, g # xs)) (take_message mid gs))"

definition message_remove_out :: "u16 \<Rightarrow> mosquitto \<Rightarrow> (mosq_err \<times> mosquitto) option" where
  "message_remove_out mid m =
     (case take_message mid (out_messages m) of
        None \<Rightarrow> Some (MOSQ_ERR_NOT_FOUND, m)
      | Some (g, gs) \<Rightarrow>
          do {
            let m1 = m\<lparr>out_queue_len := out_queue_len m - 1,
                       inflight_messages := (if msg_qos (msg g) > 0 then inflight_messages m - 1 else inflight_messages m)\<rparr>;
            (rc, gs2, m2) \<leftarrow> release_loop gs m1;
            Some (rc, m2\<lparr>out_messages := gs2\<rparr>)
          })"

definition message_remove_in :: "u16 \<Rightarrow> mosquitto \<Rightarrow> mosq_message_all option \<times> mosquitto" where
  "message_remove_in mid m =
     (case take_message mid (in_messages m) of
        None \<Rightarrow> (None, m)
      | Some (g, gs) \<Rightarrow> (Some g, m\<lparr>in_queue_len := in_queue_len m - 1, in_messages := gs\<rparr>))"

definition message_delete_out :: "u16 \<Rightarrow> mosquitto \<Rightarrow> (mosq_err \<times> mosquitto) option" where
  "message_delete_out mid m = message_remove_out mid m"

fun update_first :: "u16 \<Rightarrow> mosq_ms \<Rightarrow> int \<Rightarrow> mosq_message_all list \<Rightarrow> mosq_message_all list option" where
  "update_first mid s t [] = None"
| "update_first mid s t (g # gs) =
     (if msg_mid (msg g) = mid then Some (g\<lparr>mstate := s, timestamp := t\<rparr> # gs)
      else map_option ((#) g) (update_first mid s t gs))"

definition message_out_update :: "u16 \<Rightarrow> mosq_ms \<Rightarrow> mosquitto \<Rightarrow> mosq_err \<times> mosquitto" where
  "message_out_update mid s m =
     (case update_first mid s (now m) (out_messages m) of
        None \<Rightarrow> (MOSQ_ERR_NOT_FOUND, m)
      | Some gs \<Rightarrow> (MOSQ_ERR_SUCCESS, m\<lparr>out_messages := gs\<rparr>))"

text \<open>The check for messages that are to be sent again; it does not look at the results.\<close>

fun retry_loop :: "mosq_message_all list \<Rightarrow> mosquitto \<Rightarrow> (mosq_message_all list \<times> mosquitto) option" where
  "retry_loop [] m = Some ([], m)"
| "retry_loop (g # gs) m =
     do {
       let g1 = g\<lparr>timestamp := now m, dup := True\<rparr>;
       (g2, m1) \<leftarrow>
         (if timestamp g + message_retry m < now m then
            (case mstate g of
               mosq_ms_wait_for_puback \<Rightarrow> map_option (\<lambda>(rc, m'). (g1, m')) (send_publish (msg g) True m)
             | mosq_ms_wait_for_pubrec \<Rightarrow> map_option (\<lambda>(rc, m'). (g1, m')) (send_publish (msg g) True m)
             | mosq_ms_wait_for_pubrel \<Rightarrow> map_option (\<lambda>(rc, m'). (g1, m')) (send_pubrec (msg_mid (msg g)) m)
             | mosq_ms_wait_for_pubcomp \<Rightarrow> map_option (\<lambda>(rc, m'). (g1, m')) (send_pubrel (msg_mid (msg g)) m)
             | _ \<Rightarrow> Some (g, m))
          else Some (g, m));
       (gs2, m2) \<leftarrow> retry_loop gs m1;
       Some (g2 # gs2, m2)
     }"

definition message_retry_check :: "mosquitto \<Rightarrow> mosquitto option" where
  "message_retry_check m =
     do {
       (os, m1) \<leftarrow> retry_loop (out_messages m) m;
       let m2 = m1\<lparr>out_messages := os\<rparr>;
       (is, m3) \<leftarrow> retry_loop (in_messages m2) m2;
       Some (m3\<lparr>in_messages := is\<rparr>)
     }"

text \<open>
  After a reconnect. The loop over the received messages, where \<open>prev\<close> says whether a message
  has been kept already: it returns the kept messages and the number it has counted. When
  the first message is dropped the next one becomes the previous one without a check, and if
  there is none the loop dereferences a NULL pointer.
\<close>

fun in_reset_loop :: "bool \<Rightarrow> mosq_message_all list \<Rightarrow> (mosq_message_all list \<times> int) option" where
  "in_reset_loop prev [] = Some ([], 0)"
| "in_reset_loop prev [g] =
     (if msg_qos (msg g) \<noteq> 2 then (if prev then Some ([], 1) else None) else Some ([g\<lparr>timestamp := 0\<rparr>], 1))"
| "in_reset_loop prev (g # h # gs) =
     (if msg_qos (msg g) \<noteq> 2 then
        (if prev then map_option (\<lambda>(xs, n). (xs, n + 1)) (in_reset_loop True (h # gs))
         else map_option (\<lambda>(xs, n). (h # xs, n + 1)) (in_reset_loop True gs))
      else map_option (\<lambda>(xs, n). (g\<lparr>timestamp := 0\<rparr> # xs, n + 1)) (in_reset_loop True (h # gs)))"

fun out_reset_loop :: "int \<Rightarrow> int \<Rightarrow> mosq_message_all list \<Rightarrow> int \<times> mosq_message_all list" where
  "out_reset_loop max_inflight inflight [] = (inflight, [])"
| "out_reset_loop max_inflight inflight (g # gs) =
     (if max_inflight = 0 \<or> inflight < max_inflight then
        let q = msg_qos (msg g);
            (n, gs2) = out_reset_loop max_inflight (if q > 0 then inflight + 1 else inflight) gs
        in (n, g\<lparr>timestamp := 0, mstate := (if q = 1 then mosq_ms_wait_for_puback else mstate g)\<rparr> # gs2)
      else
        let (n, gs2) = out_reset_loop max_inflight inflight gs
        in (n, g\<lparr>timestamp := 0, mstate := mosq_ms_invalid\<rparr> # gs2))"

definition messages_reconnect_reset :: "mosquitto \<Rightarrow> mosquitto option" where
  "messages_reconnect_reset m =
     map_option (\<lambda>(is, n).
       let (k, os) = out_reset_loop (max_inflight_messages m) 0 (out_messages m)
       in m\<lparr>in_messages := is, in_queue_len := n, inflight_messages := k, out_messages := os,
            out_queue_len := int (length os)\<rparr>) (in_reset_loop False (in_messages m))"

subsection \<open>Handling packets\<close>

definition handle_pingresp :: "mosquitto \<Rightarrow> mosq_err \<times> mosquitto" where
  "handle_pingresp m = (MOSQ_ERR_SUCCESS, m\<lparr>ping_t := 0\<rparr>)"

definition handle_pubackcomp :: "mosquitto \<Rightarrow> (mosq_err \<times> mosquitto) option" where
  "handle_pubackcomp m =
     (case read_uint16 (in_packet m) of
        Inl rc \<Rightarrow> Some (rc, m)
      | Inr (mid, p) \<Rightarrow>
          map_option (\<lambda>(rc, m1). (MOSQ_ERR_SUCCESS,
              if rc = MOSQ_ERR_SUCCESS then callback on_publish (On_publish mid) m1 else m1))
            (message_delete_out mid (m\<lparr>in_packet := p\<rparr>)))"

definition handle_pubrec :: "mosquitto \<Rightarrow> (mosq_err \<times> mosquitto) option" where
  "handle_pubrec m =
     (case read_uint16 (in_packet m) of
        Inl rc \<Rightarrow> Some (rc, m)
      | Inr (mid, p) \<Rightarrow>
          let (rc, m1) = message_out_update mid mosq_ms_wait_for_pubcomp (m\<lparr>in_packet := p\<rparr>)
          in if rc \<noteq> MOSQ_ERR_NOT_FOUND \<and> rc \<noteq> MOSQ_ERR_SUCCESS then Some (rc, m1)
             else send_pubrel mid m1)"

definition handle_pubrel :: "mosquitto \<Rightarrow> (mosq_err \<times> mosquitto) option" where
  "handle_pubrel m =
     (if protocol m = mosq_p_mqtt311 \<and> command (in_packet m) AND 0x0F \<noteq> 2 then Some (MOSQ_ERR_PROTOCOL, m)
      else
        case read_uint16 (in_packet m) of
          Inl rc \<Rightarrow> Some (rc, m)
        | Inr (mid, p) \<Rightarrow>
            let (r, m1) = message_remove_in mid (m\<lparr>in_packet := p\<rparr>);
                m2 = (case r of None \<Rightarrow> m1 | Some g \<Rightarrow> callback on_message (On_message (msg g)) m1)
            in send_pubcomp mid m2)"

definition handle_suback :: "mosquitto \<Rightarrow> mosq_err \<times> mosquitto" where
  "handle_suback m =
     (case read_uint16 (in_packet m) of
        Inl rc \<Rightarrow> (rc, m)
      | Inr (mid, p) \<Rightarrow>
          let granted = drop (pos p) (take (remaining_length p) (payload p))
          in (MOSQ_ERR_SUCCESS, callback on_subscribe (On_subscribe mid granted)
                (m\<lparr>in_packet := p\<lparr>pos := max (pos p) (remaining_length p)\<rparr>\<rparr>)))"

definition handle_unsuback :: "mosquitto \<Rightarrow> mosq_err \<times> mosquitto" where
  "handle_unsuback m =
     (case read_uint16 (in_packet m) of
        Inl rc \<Rightarrow> (rc, m)
      | Inr (mid, p) \<Rightarrow> (MOSQ_ERR_SUCCESS, callback on_unsubscribe (On_unsubscribe mid) (m\<lparr>in_packet := p\<rparr>)))"

definition handle_connack :: "mosquitto \<Rightarrow> mosq_err \<times> mosquitto" where
  "handle_connack m =
     (case read_byte (in_packet m) of
        Inl rc \<Rightarrow> (rc, m)
      | Inr (_, p) \<Rightarrow>
          (case read_byte p of
             Inl rc \<Rightarrow> (rc, m\<lparr>in_packet := p\<rparr>)
           | Inr (result, p2) \<Rightarrow>
               let m1 = callback on_connect (On_connect result) (m\<lparr>in_packet := p2\<rparr>)
               in if result = 0 then
                    (MOSQ_ERR_SUCCESS, if cstate m1 \<noteq> mosq_cs_disconnecting then m1\<lparr>cstate := mosq_cs_connected\<rparr> else m1)
                  else if result \<le> 5 then (MOSQ_ERR_CONN_REFUSED, m1)
                  else (MOSQ_ERR_PROTOCOL, m1)))"

text \<open>The parts of a PUBLISH packet: flags, topic, identifier and payload.\<close>

definition parse_publish :: "mqtt_packet \<Rightarrow> mosq_err + (bool \<times> mosq_message) \<times> mqtt_packet" where
  "parse_publish p =
     (let header = command p;
          d = header AND 0x08 \<noteq> 0;
          q = unat (drop_bit 1 (header AND 0x06));
          r = header AND 0x01 \<noteq> 0
      in case read_string p of
           Inl rc \<Rightarrow> Inl rc
         | Inr (t, p1) \<Rightarrow>
             if cstr t = [] then Inl MOSQ_ERR_PROTOCOL
             else
               (case (if q > 0 then read_uint16 p1 else Inr (0, p1)) of
                  Inl rc \<Rightarrow> Inl rc
                | Inr (mid, p2) \<Rightarrow>
                    (case read_bytes (remaining_length p2 - pos p2) p2 of
                       Inl rc \<Rightarrow> Inl rc
                     | Inr (body, p3) \<Rightarrow>
                         Inr ((d, \<lparr>msg_mid = mid, msg_topic = cstr t, msg_payload = body, msg_qos = q, msg_retain = r\<rparr>), p3))))"

definition handle_publish :: "mosquitto \<Rightarrow> (mosq_err \<times> mosquitto) option" where
  "handle_publish m =
     (case parse_publish (in_packet m) of
        Inl rc \<Rightarrow> Some (rc, m)
      | Inr ((d, g), p) \<Rightarrow>
          let m1 = m\<lparr>in_packet := p\<rparr>
          in if msg_qos g = 0 then Some (MOSQ_ERR_SUCCESS, callback on_message (On_message g) m1)
             else if msg_qos g = 1 then
               map_option (\<lambda>(rc, m2). (rc, callback on_message (On_message g) m2)) (send_puback (msg_mid g) m1)
             else if msg_qos g = 2 then
               map_option (\<lambda>(rc, m2). (rc, message_queue_in
                   \<lparr>timestamp = now m, mstate = mosq_ms_wait_for_pubrel, dup = d, msg = g\<rparr> m2))
                 (send_pubrec (msg_mid g) m1)
             else Some (MOSQ_ERR_PROTOCOL, m1))"

definition packet_handle :: "mosquitto \<Rightarrow> (mosq_err \<times> mosquitto) option" where
  "packet_handle m =
     (let c = command (in_packet m) AND 0xF0
      in if c = 0xC0 then send_pingresp m
         else if c = 0xD0 then Some (handle_pingresp m)
         else if c = PUBACK then handle_pubackcomp m
         else if c = PUBCOMP then handle_pubackcomp m
         else if c = PUBLISH then handle_publish m
         else if c = PUBREC then handle_pubrec m
         else if c = PUBREL then handle_pubrel m
         else if c = 0x20 then Some (handle_connack m)
         else if c = 0x90 then Some (handle_suback m)
         else if c = 0xB0 then Some (handle_unsuback m)
         else Some (MOSQ_ERR_PROTOCOL, m))"

subsection \<open>Receiving packets\<close>

text \<open>What a read that brought no byte makes the function return.\<close>

definition read_rc :: "bool \<Rightarrow> errno \<Rightarrow> mosq_err" where
  "read_rc eof e = (if eof then MOSQ_ERR_CONN_LOST else if e = EAGAIN then MOSQ_ERR_SUCCESS else errno_rc e)"

definition read_command :: "mosquitto \<Rightarrow> mosq_err option \<times> mosquitto" where
  "read_command m =
     (if command (in_packet m) \<noteq> 0 then (None, m)
      else case net_read 1 m of
             (Some [b], m1) \<Rightarrow> (None, m1\<lparr>in_packet := (in_packet m1)\<lparr>command := b\<rparr>\<rparr>)
           | (r, m1) \<Rightarrow> (Some (read_rc (r \<noteq> None) (errno m1)), m1))"

text \<open>
  The bytes of the remaining length; the counter is negative while they are read, and a
  fifth one is a protocol error, so five rounds are all that the loop can have.
\<close>

fun read_length_loop :: "nat \<Rightarrow> mosquitto \<Rightarrow> mosq_err option \<times> mosquitto" where
  "read_length_loop 0 m = (Some MOSQ_ERR_PROTOCOL, m)"
| "read_length_loop (Suc n) m =
     (case net_read 1 m of
        (Some [b], m1) \<Rightarrow>
          let p = in_packet m1; p1 = p\<lparr>remaining_count := remaining_count p - 1\<rparr>
          in if remaining_count p1 < -4 then (Some MOSQ_ERR_PROTOCOL, m1\<lparr>in_packet := p1\<rparr>)
             else let p2 = p1\<lparr>remaining_length := (remaining_length p1 + unat (b AND 127) * remaining_mult p1) mod 2 ^ 32,
                              remaining_mult := (remaining_mult p1 * 128) mod 2 ^ 32\<rparr>
                  in if b AND 128 \<noteq> 0 then read_length_loop n (m1\<lparr>in_packet := p2\<rparr>)
                     else (None, m1\<lparr>in_packet := p2\<rparr>)
      | (r, m1) \<Rightarrow> (Some (read_rc (r \<noteq> None) (errno m1)), m1))"

definition read_remaining_length :: "mosquitto \<Rightarrow> mosq_err option \<times> mosquitto" where
  "read_remaining_length m =
     (if remaining_count (in_packet m) > 0 then (None, m)
      else
        let (r, m1) = read_length_loop 5 m
        in if r \<noteq> None then (r, m1)
           else let p = in_packet m1; p1 = p\<lparr>remaining_count := - remaining_count p\<rparr>
                in (None, m1\<lparr>in_packet := (if remaining_length p1 > 0
                      then p1\<lparr>payload := replicate (remaining_length p1) (junk m1), to_process := remaining_length p1\<rparr>
                      else p1)\<rparr>))"

text \<open>The loop over the rest of the packet; every read that brings bytes shortens it.\<close>

function (sequential) read_payload_loop :: "mosquitto \<Rightarrow> mosq_err option \<times> mosquitto" where
  "read_payload_loop m =
     (let p = in_packet m
      in if to_process p > 0 then
           (case net_read (to_process p) m of
              (Some (b # bs), m1) \<Rightarrow>
                read_payload_loop (m1\<lparr>in_packet := p\<lparr>
                  payload := take (pos p) (payload p) @ (b # bs) @ drop (pos p + Suc (length bs)) (payload p),
                  to_process := to_process p - Suc (length bs), pos := pos p + Suc (length bs)\<rparr>\<rparr>)
            | (r, m1) \<Rightarrow>
                if errno m1 = EAGAIN then
                  (Some MOSQ_ERR_SUCCESS, if to_process p > 1000 then m1\<lparr>last_msg_in := now m1\<rparr> else m1)
                else (Some (errno_rc (errno m1)), m1))
         else (None, m))"
  by pat_completeness auto
termination read_payload_loop
  by (relation "measure (\<lambda>m. to_process (in_packet m))") auto

declare read_payload_loop.simps [simp del]

text \<open>The three phases together: the value to return, or a packet that is complete.\<close>

definition receive_packet :: "mosquitto \<Rightarrow> mosq_err option \<times> mosquitto" where
  "receive_packet m =
     (case read_command m of
        (Some rc, m1) \<Rightarrow> (Some rc, m1)
      | (None, m1) \<Rightarrow>
          (case read_remaining_length m1 of
             (Some rc, m2) \<Rightarrow> (Some rc, m2)
           | (None, m2) \<Rightarrow> read_payload_loop m2))"

definition packet_read :: "mosquitto \<Rightarrow> (mosq_err \<times> mosquitto) option" where
  "packet_read m =
     (if sock m = -1 then Some (MOSQ_ERR_NO_CONN, m)
      else if cstate m = mosq_cs_connect_pending then Some (MOSQ_ERR_SUCCESS, m)
      else
        case receive_packet m of
          (Some rc, m1) \<Rightarrow> Some (rc, m1)
        | (None, m1) \<Rightarrow>
            map_option (\<lambda>(rc, m2). (rc, m2\<lparr>in_packet := packet_cleanup (in_packet m2), last_msg_in := now m2\<rparr>))
              (packet_handle (m1\<lparr>in_packet := (in_packet m1)\<lparr>pos := 0\<rparr>\<rparr>)))"

subsection \<open>The interface\<close>

definition MQTT_MAX_PAYLOAD :: nat where "MQTT_MAX_PAYLOAD = 268435455"

text \<open>
  A new client with the identifier \<open>cid\<close> in the world of \<open>m\<close>; \<open>None\<close> is the NULL pointer.
\<close>

definition mosquitto_new :: "string \<Rightarrow> bool \<Rightarrow> mosquitto \<Rightarrow> mosquitto option" where
  "mosquitto_new cid clean m =
     (if cid = [] then None
      else Some (m\<lparr>sock := -1, sockpairR := -1, protocol := mosq_p_mqtt31, client_id := cid, username := None,
        password := None, keepalive := 60, last_mid := 0, cstate := mosq_cs_new, last_msg_in := now m,
        next_msg_out := now m + 60, ping_t := 0, in_packet := packet_cleanup calloc_packet,
        current_out_packet := None, out_packet := [], will := None, clean_session := clean,
        in_callback := False, message_retry := 20, last_retry_check := 0, in_messages := [],
        out_messages := [], on_connect := False, on_disconnect := False, on_publish := False,
        on_message := False, on_subscribe := False, on_unsubscribe := False, host := None, port := 1883,
        in_queue_len := 0, out_queue_len := 0, threaded := False, inflight_messages := 0,
        max_inflight_messages := 20\<rparr>))"

definition mosquitto_username_pw_set :: "string option \<Rightarrow> string option \<Rightarrow> mosquitto \<Rightarrow> mosq_err \<times> mosquitto" where
  "mosquitto_username_pw_set u pw m =
     (MOSQ_ERR_SUCCESS, m\<lparr>username := u, password := (if u = None then None else pw)\<rparr>)"

definition mosquitto_will_set :: "string \<Rightarrow> u8 list \<Rightarrow> nat \<Rightarrow> bool \<Rightarrow> mosquitto \<Rightarrow> mosq_err \<times> mosquitto" where
  "mosquitto_will_set t body q r m =
     (if length body > MQTT_MAX_PAYLOAD then (MOSQ_ERR_PAYLOAD_SIZE, m)
      else if mosquitto_pub_topic_check t \<noteq> MOSQ_ERR_SUCCESS then (MOSQ_ERR_INVAL, m)
      else (MOSQ_ERR_SUCCESS, m\<lparr>will := Some \<lparr>msg_mid = 0, msg_topic = t, msg_payload = body, msg_qos = q, msg_retain = r\<rparr>\<rparr>))"

definition mosquitto_will_clear :: "mosquitto \<Rightarrow> mosq_err \<times> mosquitto" where
  "mosquitto_will_clear m = (MOSQ_ERR_SUCCESS, m\<lparr>will := None\<rparr>)"

definition mosquitto_max_inflight_messages_set :: "int \<Rightarrow> mosquitto \<Rightarrow> mosq_err \<times> mosquitto" where
  "mosquitto_max_inflight_messages_set n m = (MOSQ_ERR_SUCCESS, m\<lparr>max_inflight_messages := n\<rparr>)"

definition mosquitto_message_retry_set :: "nat \<Rightarrow> mosquitto \<Rightarrow> mosquitto" where
  "mosquitto_message_retry_set n m = m\<lparr>message_retry := int n\<rparr>"

definition mosquitto_opts_set :: "int \<Rightarrow> mosquitto \<Rightarrow> mosq_err \<times> mosquitto" where
  "mosquitto_opts_set version m =
     (if version = 3 then (MOSQ_ERR_SUCCESS, m\<lparr>protocol := mosq_p_mqtt31\<rparr>)
      else if version = 4 then (MOSQ_ERR_SUCCESS, m\<lparr>protocol := mosq_p_mqtt311\<rparr>)
      else (MOSQ_ERR_INVAL, m))"

text \<open>A callback is registered or removed.\<close>

definition mosquitto_connect_callback_set :: "bool \<Rightarrow> mosquitto \<Rightarrow> mosquitto" where
  "mosquitto_connect_callback_set f m = m\<lparr>on_connect := f\<rparr>"

definition mosquitto_disconnect_callback_set :: "bool \<Rightarrow> mosquitto \<Rightarrow> mosquitto" where
  "mosquitto_disconnect_callback_set f m = m\<lparr>on_disconnect := f\<rparr>"

definition mosquitto_publish_callback_set :: "bool \<Rightarrow> mosquitto \<Rightarrow> mosquitto" where
  "mosquitto_publish_callback_set f m = m\<lparr>on_publish := f\<rparr>"

definition mosquitto_message_callback_set :: "bool \<Rightarrow> mosquitto \<Rightarrow> mosquitto" where
  "mosquitto_message_callback_set f m = m\<lparr>on_message := f\<rparr>"

definition mosquitto_subscribe_callback_set :: "bool \<Rightarrow> mosquitto \<Rightarrow> mosquitto" where
  "mosquitto_subscribe_callback_set f m = m\<lparr>on_subscribe := f\<rparr>"

definition mosquitto_unsubscribe_callback_set :: "bool \<Rightarrow> mosquitto \<Rightarrow> mosquitto" where
  "mosquitto_unsubscribe_callback_set f m = m\<lparr>on_unsubscribe := f\<rparr>"

definition socket_connect :: "mosquitto \<Rightarrow> mosq_err \<times> mosquitto" where
  "socket_connect m =
     (if port m mod 2 ^ 16 = 0 then (MOSQ_ERR_INVAL, m)
      else case connects m of
             [] \<Rightarrow> (MOSQ_ERR_ERRNO, m)
           | Connect_fails rc # cs \<Rightarrow> (if rc = MOSQ_ERR_SUCCESS then MOSQ_ERR_ERRNO else rc, m\<lparr>connects := cs\<rparr>)
           | Connects fd rs ws # cs \<Rightarrow> (MOSQ_ERR_SUCCESS, m\<lparr>connects := cs, sock := fd, reads := rs, writes := ws\<rparr>))"

definition mosquitto_reconnect :: "mosquitto \<Rightarrow> (mosq_err \<times> mosquitto) option" where
  "mosquitto_reconnect m =
     (if host m = None \<or> port m \<le> 0 then Some (MOSQ_ERR_INVAL, m)
      else do {
        m1 \<leftarrow> messages_reconnect_reset
                (m\<lparr>cstate := mosq_cs_new, last_msg_in := now m, next_msg_out := now m + uint (keepalive m),
                   ping_t := 0, in_packet := packet_cleanup (in_packet m), current_out_packet := None, out_packet := []\<rparr>);
        let (rc, m2) = socket_connect m1;
        if rc \<noteq> MOSQ_ERR_SUCCESS then Some (rc, m2) else send_connect (keepalive m2) (clean_session m2) m2
      })"

definition connect_init :: "string \<Rightarrow> int \<Rightarrow> int \<Rightarrow> mosquitto \<Rightarrow> mosq_err \<times> mosquitto" where
  "connect_init h pt ka m =
     (if pt \<le> 0 then (MOSQ_ERR_INVAL, m)
      else (MOSQ_ERR_SUCCESS, m\<lparr>host := Some h, port := pt, keepalive := word_of_int ka, sockpairR := pair_fd m\<rparr>))"

definition mosquitto_connect :: "string \<Rightarrow> int \<Rightarrow> int \<Rightarrow> mosquitto \<Rightarrow> (mosq_err \<times> mosquitto) option" where
  "mosquitto_connect h pt ka m =
     (let (rc, m1) = connect_init h pt ka m
      in if rc \<noteq> MOSQ_ERR_SUCCESS then Some (rc, m1) else mosquitto_reconnect (m1\<lparr>cstate := mosq_cs_new\<rparr>))"

definition mosquitto_disconnect :: "mosquitto \<Rightarrow> (mosq_err \<times> mosquitto) option" where
  "mosquitto_disconnect m =
     (let m1 = m\<lparr>cstate := mosq_cs_disconnecting\<rparr>
      in if sock m1 = -1 then Some (MOSQ_ERR_NO_CONN, m1) else send_disconnect m1)"

definition mosquitto_publish :: "string \<Rightarrow> u8 list \<Rightarrow> int \<Rightarrow> bool \<Rightarrow> mosquitto \<Rightarrow> (mosq_err \<times> mosquitto) option" where
  "mosquitto_publish t body q r m =
     (if q < 0 \<or> q > 2 then Some (MOSQ_ERR_INVAL, m)
      else if t = [] then Some (MOSQ_ERR_INVAL, m)
      else if length body > MQTT_MAX_PAYLOAD then Some (MOSQ_ERR_PAYLOAD_SIZE, m)
      else if mosquitto_pub_topic_check t \<noteq> MOSQ_ERR_SUCCESS then Some (MOSQ_ERR_INVAL, m)
      else
        let (mid, m1) = mid_generate m;
            g = \<lparr>msg_mid = mid, msg_topic = t, msg_payload = body, msg_qos = nat q, msg_retain = r\<rparr>
        in if q = 0 then send_publish g False m1
           else
             let a = \<lparr>timestamp = now m1, mstate = mosq_ms_invalid, dup = False, msg = g\<rparr>;
                 (ok, m2) = message_queue_out a m1
             in if ok then send_publish g False (m2\<lparr>out_messages := out_messages m1 @ [a\<lparr>mstate := out_state (nat q) mosq_ms_invalid\<rparr>]\<rparr>)
                else Some (MOSQ_ERR_SUCCESS, m2))"

definition mosquitto_subscribe :: "string \<Rightarrow> u8 \<Rightarrow> mosquitto \<Rightarrow> (mosq_err \<times> mosquitto) option" where
  "mosquitto_subscribe sub q m =
     (if sock m = -1 then Some (MOSQ_ERR_NO_CONN, m)
      else if mosquitto_sub_topic_check sub \<noteq> MOSQ_ERR_SUCCESS then Some (MOSQ_ERR_INVAL, m)
      else send_subscribe sub q m)"

definition mosquitto_unsubscribe :: "string \<Rightarrow> mosquitto \<Rightarrow> (mosq_err \<times> mosquitto) option" where
  "mosquitto_unsubscribe sub m =
     (if sock m = -1 then Some (MOSQ_ERR_NO_CONN, m)
      else if mosquitto_sub_topic_check sub \<noteq> MOSQ_ERR_SUCCESS then Some (MOSQ_ERR_INVAL, m)
      else send_unsubscribe sub m)"

subsection \<open>The network loop\<close>

text \<open>The callback gets the number 1, the value of \<^verbatim>\<open>MOSQ_ERR_NOMEM\<close>, when the connection is given up.\<close>

definition give_up :: "mosquitto \<Rightarrow> mosquitto" where
  "give_up m =
     (let m1 = socket_close m
      in callback on_disconnect
           (On_disconnect (if cstate m1 = mosq_cs_disconnecting then MOSQ_ERR_SUCCESS else MOSQ_ERR_NOMEM)) m1)"

definition check_keepalive :: "mosquitto \<Rightarrow> mosquitto option" where
  "check_keepalive m =
     (if keepalive m \<noteq> 0 \<and> sock m \<noteq> -1
         \<and> (now m \<ge> next_msg_out m \<or> now m - last_msg_in m \<ge> uint (keepalive m)) then
        (if cstate m = mosq_cs_connected \<and> ping_t m = 0 then
           map_option (\<lambda>(rc, m1). m1\<lparr>last_msg_in := now m, next_msg_out := now m + uint (keepalive m1)\<rparr>) (send_pingreq m)
         else Some (give_up m))
      else Some m)"

definition mosquitto_loop_misc :: "mosquitto \<Rightarrow> (mosq_err \<times> mosquitto) option" where
  "mosquitto_loop_misc m =
     (if sock m = -1 then Some (MOSQ_ERR_NO_CONN, m)
      else do {
        m1 \<leftarrow> check_keepalive m;
        m2 \<leftarrow> (if last_retry_check m1 + 1 < now m1
               then map_option (\<lambda>m'. m'\<lparr>last_retry_check := now m'\<rparr>) (message_retry_check m1) else Some m1);
        Some (if ping_t m2 \<noteq> 0 \<and> now m2 - ping_t m2 \<ge> uint (keepalive m2)
              then (MOSQ_ERR_CONN_LOST, give_up m2) else (MOSQ_ERR_SUCCESS, m2))
      })"

definition loop_rc_handle :: "mosq_err \<Rightarrow> mosquitto \<Rightarrow> mosq_err \<times> mosquitto" where
  "loop_rc_handle rc m =
     (if rc \<noteq> MOSQ_ERR_SUCCESS then
        let m1 = socket_close m;
            rc1 = (if cstate m1 = mosq_cs_disconnecting then MOSQ_ERR_SUCCESS else rc)
        in (rc1, callback on_disconnect (On_disconnect rc1) m1)
      else (rc, m))"

definition loop_rounds :: "mosquitto \<Rightarrow> nat" where
  "loop_rounds m = nat (max 1 (out_queue_len m + in_queue_len m))"

fun loop_read_rounds :: "nat \<Rightarrow> mosquitto \<Rightarrow> (mosq_err \<times> mosquitto) option" where
  "loop_read_rounds 0 m = Some (MOSQ_ERR_SUCCESS, m)"
| "loop_read_rounds (Suc n) m =
     Option.bind (packet_read m) (\<lambda>(rc, m1).
       if rc \<noteq> MOSQ_ERR_SUCCESS \<or> errno m1 = EAGAIN then Some (loop_rc_handle rc m1)
       else loop_read_rounds n m1)"

definition mosquitto_loop_read :: "int \<Rightarrow> mosquitto \<Rightarrow> (mosq_err \<times> mosquitto) option" where
  "mosquitto_loop_read max_packets m =
     (if max_packets < 1 then Some (MOSQ_ERR_INVAL, m) else loop_read_rounds (loop_rounds m) m)"

fun loop_write_rounds :: "nat \<Rightarrow> mosquitto \<Rightarrow> mosq_err \<times> mosquitto" where
  "loop_write_rounds 0 m = (MOSQ_ERR_SUCCESS, m)"
| "loop_write_rounds (Suc n) m =
     (let (rc, m1) = packet_write m
      in if rc \<noteq> MOSQ_ERR_SUCCESS \<or> errno m1 = EAGAIN then loop_rc_handle rc m1 else loop_write_rounds n m1)"

definition mosquitto_loop_write :: "int \<Rightarrow> mosquitto \<Rightarrow> mosq_err \<times> mosquitto" where
  "mosquitto_loop_write max_packets m =
     (if max_packets < 1 then (MOSQ_ERR_INVAL, m) else loop_write_rounds (loop_rounds m) m)"

definition mosquitto_want_write :: "mosquitto \<Rightarrow> bool" where
  "mosquitto_want_write m \<longleftrightarrow> out_packet m \<noteq> [] \<or> current_out_packet m \<noteq> None"

text \<open>
  One round of the loop. The outcome of select says whether the socket is readable, whether
  the socket pair is, and whether the socket is writable, which is only asked for when there
  is something to write. The timeout only concerns how long select waits.
\<close>

definition next_select :: "mosquitto \<Rightarrow> select_event \<times> mosquitto" where
  "next_select m = (case selects m of [] \<Rightarrow> (Ready False False False, m) | e # es \<Rightarrow> (e, m\<lparr>selects := es\<rparr>))"

definition mosquitto_loop :: "int \<Rightarrow> mosquitto \<Rightarrow> (mosq_err \<times> mosquitto) option" where
  "mosquitto_loop max_packets m =
     (if max_packets < 1 then Some (MOSQ_ERR_INVAL, m)
      else if sock m \<ge> 1024 \<or> sockpairR m \<ge> 1024 then Some (MOSQ_ERR_INVAL, m)
      else if sock m = -1 then Some (MOSQ_ERR_NO_CONN, m)
      else
        case next_select m of
          (Interrupted, m1) \<Rightarrow> Some (MOSQ_ERR_SUCCESS, m1\<lparr>errno := E_other\<rparr>)
        | (Select_fails, m1) \<Rightarrow> Some (MOSQ_ERR_ERRNO, m1\<lparr>errno := E_other\<rparr>)
        | (Ready r pr w, m1) \<Rightarrow>
            do {
              (rc1, m2) \<leftarrow> (if r then mosquitto_loop_read max_packets m1 else Some (MOSQ_ERR_SUCCESS, m1));
              if r \<and> (rc1 \<noteq> MOSQ_ERR_SUCCESS \<or> sock m2 = -1) then Some (rc1, m2)
              else
                let write = (pr \<and> sockpairR m2 \<noteq> -1) \<or> (w \<and> mosquitto_want_write m);
                    (rc2, m3) = (if write then mosquitto_loop_write max_packets m2 else (MOSQ_ERR_SUCCESS, m2))
                in if write \<and> (rc2 \<noteq> MOSQ_ERR_SUCCESS \<or> sock m3 = -1) then Some (rc2, m3)
                   else mosquitto_loop_misc m3
            })"

end
