(* ===== verification/Mqtt_Safety.thy ===== *)
theory Mqtt_Safety
  imports Mqtt_Client
begin

text \<open>
  The MQTT client keeps its state well-formed. Every operation of the interface returns
  without a failed assertion or a NULL dereference, keeps the invariant \<open>client_ok\<close>, and
  treats the messages that wait for an acknowledgement as a reliable outbox does: publishing
  appends, a complete acknowledgement removes, a reconnect keeps them.
\<close>

subsection \<open>What sending changes\<close>

text \<open>
  Sending touches the queue of packets, the socket and the log of the callbacks; everything
  else is the core of the state.
\<close>

definition core :: "mosquitto \<Rightarrow> mosquitto" where
  "core m = m\<lparr>current_out_packet := None, out_packet := [], next_msg_out := 0, sock := 0, writes := [],
     sent := [], errno := E_none, calls := []\<rparr>"

lemma core_fields:
  assumes "core m' = core m"
  shows "in_messages m' = in_messages m" "out_messages m' = out_messages m" "in_queue_len m' = in_queue_len m"
    "out_queue_len m' = out_queue_len m" "inflight_messages m' = inflight_messages m"
    "max_inflight_messages m' = max_inflight_messages m" "in_packet m' = in_packet m" "last_mid m' = last_mid m"
    "client_id m' = client_id m" "username m' = username m" "password m' = password m" "will m' = will m"
    "junk m' = junk m" "now m' = now m" "keepalive m' = keepalive m" "reads m' = reads m" "cstate m' = cstate m"
    "protocol m' = protocol m" "message_retry m' = message_retry m" "ping_t m' = ping_t m" "on_message m' = on_message m"
    "on_publish m' = on_publish m"
  using arg_cong[OF assms, of in_messages] arg_cong[OF assms, of out_messages] arg_cong[OF assms, of in_queue_len] arg_cong[OF assms, of out_queue_len] arg_cong[OF assms, of inflight_messages] arg_cong[OF assms, of max_inflight_messages] arg_cong[OF assms, of in_packet] arg_cong[OF assms, of last_mid] arg_cong[OF assms, of client_id] arg_cong[OF assms, of username] arg_cong[OF assms, of password] arg_cong[OF assms, of will] arg_cong[OF assms, of junk] arg_cong[OF assms, of now] arg_cong[OF assms, of keepalive] arg_cong[OF assms, of reads] arg_cong[OF assms, of cstate] arg_cong[OF assms, of protocol] arg_cong[OF assms, of message_retry] arg_cong[OF assms, of ping_t] arg_cong[OF assms, of on_message] arg_cong[OF assms, of on_publish]
  by (simp_all add: core_def)

lemma core_updates [simp]:
  "core (m\<lparr>current_out_packet := c\<rparr>) = core m" "core (m\<lparr>out_packet := q\<rparr>) = core m"
  "core (m\<lparr>next_msg_out := n\<rparr>) = core m" "core (m\<lparr>sock := s\<rparr>) = core m" "core (m\<lparr>writes := w\<rparr>) = core m"
  "core (m\<lparr>sent := t\<rparr>) = core m" "core (m\<lparr>errno := e\<rparr>) = core m" "core (m\<lparr>calls := l\<rparr>) = core m"
  by (simp_all add: core_def)

lemma core_inflight [simp]: "core (m\<lparr>inflight_messages := n\<rparr>) = (core m)\<lparr>inflight_messages := n\<rparr>"
  by (cases m) (simp add: core_def)

lemma core_steps [simp]:
  "core (callback f c m) = core m" "core (socket_close m) = core m" "core (next_packet m) = core m"
  "core (snd (net_write bs m)) = core m"
  by (auto simp: callback_def socket_close_def next_packet_def net_write_def split: list.splits write_event.splits)

text \<open>A packet of the queue knows which of its bytes are still to be sent.\<close>

definition out_ok :: "mqtt_packet \<Rightarrow> bool" where
  "out_ok p \<longleftrightarrow> pos p + to_process p = length (payload p)"

definition packets_ok :: "mosquitto \<Rightarrow> bool" where
  "packets_ok m \<longleftrightarrow> (\<forall>p \<in> set (out_packet m) \<union> set_option (current_out_packet m). out_ok p)"

lemma net_write_result:
  assumes "net_write bs m = (r, m')"
  shows "core m' = core m" "out_packet m' = out_packet m" "current_out_packet m' = current_out_packet m"
    "r = Some n \<Longrightarrow> n \<le> length bs \<and> sent m' = sent m @ take n bs" "r = None \<Longrightarrow> sent m' = sent m"
  using assms by (auto simp: net_write_def min_def split: list.splits write_event.splits)

lemma write_packet_loop_result:
  assumes "write_packet_loop p m = (r, p', m')"
  shows "core m' = core m \<and> out_packet m' = out_packet m \<and> (out_ok p \<longrightarrow> out_ok p')"
  using assms
proof (induction p m arbitrary: r p' m' rule: write_packet_loop.induct)
  case (1 p m)
  obtain x m1 where w: "net_write (take (to_process p) (drop (pos p) (payload p))) m = (x, m1)" by (meson surj_pair)
  note w1 = net_write_result[OF w]
  show ?case
  proof (cases "to_process p > 0 \<and> x \<noteq> None \<and> the x > 0")
    case True
    then obtain n where n: "x = Some n" "0 < n" by (cases x) simp_all
    let ?p = "p\<lparr>to_process := to_process p - n, pos := pos p + n\<rparr>"
    have "write_packet_loop ?p m1 = (r, p', m')"
      using 1(2)[unfolded write_packet_loop.simps[of p m] w] True n by simp
    note ih = 1(1)[OF _ w[symmetric] refl n this]
    have "out_ok p \<longrightarrow> out_ok ?p" using w1(4)[OF n(1)] by (auto simp: out_ok_def)
    with ih w1 True show ?thesis by simp
  next
    case False
    then show ?thesis using 1(2)[unfolded write_packet_loop.simps[of p m] w] w1 by (auto split: if_splits option.splits)
  qed
qed

lemma packets_ok_next:
  assumes "\<forall>p \<in> set (out_packet m). out_ok p"
  shows "packets_ok ((next_packet m)\<lparr>next_msg_out := n\<rparr>)"
  using assms by (auto simp: packets_ok_def next_packet_def split: list.splits)

lemma out_packet_steps [simp]:
  "out_packet (callback f c m) = out_packet m" "out_packet (socket_close m) = out_packet m"
  by (simp_all add: callback_def socket_close_def)

lemma packets_ok_steps [simp]:
  "packets_ok (callback f c m) = packets_ok m" "packets_ok (socket_close m) = packets_ok m"
  by (simp_all add: callback_def socket_close_def packets_ok_def)

lemma packet_write_loop_result:
  assumes "packet_write_loop n m = (rc, m')"
  shows "core m' = core m \<and> (packets_ok m \<longrightarrow> packets_ok m')"
  using assms
proof (induction n arbitrary: m)
  case (Suc n)
  show ?case
  proof (cases "current_out_packet m")
    case None
    then show ?thesis using Suc.prems by simp
  next
    case (Some p)
    obtain r p1 m1 where w: "write_packet_loop p m = (r, p1, m1)" by (metis prod_cases3)
    note w1 = write_packet_loop_result[OF w]
    let ?k = "now m + uint (keepalive m)"
    show ?thesis
    proof (cases r)
      case None
      have ok: "packets_ok ((next_packet x)\<lparr>next_msg_out := ?k\<rparr>)" if "packets_ok m" "out_packet x = out_packet m1" for x
        using that w1 by (intro packets_ok_next) (simp add: packets_ok_def)
      consider "packet_write_loop n ((next_packet (callback on_publish (On_publish (packet_mid p)) m1))\<lparr>next_msg_out := ?k\<rparr>) = (rc, m')"
        | "packet_write_loop n ((next_packet m1)\<lparr>next_msg_out := ?k\<rparr>) = (rc, m')"
        | "m' = callback on_disconnect (On_disconnect MOSQ_ERR_SUCCESS) ((next_packet (socket_close m1))\<lparr>next_msg_out := ?k\<rparr>)"
        using Suc.prems Some None w by (auto simp: Let_def split: if_splits)
      then show ?thesis
      proof cases
        case 1
        then show ?thesis using Suc.IH[OF 1] ok w1 by simp
      next
        case 2
        then show ?thesis using Suc.IH[OF 2] ok w1 by simp
      next
        case 3
        then show ?thesis using ok w1 by simp
      qed
    next
      case (Some y)
      then show ?thesis using Suc.prems \<open>current_out_packet m = Some p\<close> w w1 by (auto simp: packets_ok_def)
    qed
  qed
qed simp

lemma packet_write_result:
  assumes "packet_write m = (rc, m')"
  shows "core m' = core m \<and> (packets_ok m \<longrightarrow> packets_ok m')"
proof -
  let ?n = "if out_packet m \<noteq> [] \<and> current_out_packet m = None then next_packet m else m"
  have n: "core ?n = core m \<and> (packets_ok m \<longrightarrow> packets_ok ?n)"
    by (auto simp: packets_ok_def next_packet_def split: list.splits)
  show ?thesis
    using assms n packet_write_loop_result[of "length (out_packet ?n) + 2" ?n rc m']
    by (auto simp: packet_write_def Let_def simp del: packet_write_loop.simps split: if_splits)
qed

lemma packet_queue_result:
  assumes "packet_queue p m = (rc, m')"
  shows "core m' = core m \<and> (packets_ok m \<and> length (payload p) = packet_length p \<longrightarrow> packets_ok m')"
proof -
  let ?m = "m\<lparr>out_packet := out_packet m @ [p\<lparr>pos := 0, to_process := packet_length p\<rparr>]\<rparr>"
  have "packets_ok m \<and> length (payload p) = packet_length p \<longrightarrow> packets_ok ?m"
    by (auto simp: packets_ok_def out_ok_def)
  then show ?thesis
    using assms packet_write_result[of ?m rc m'] by (auto simp: packet_queue_def Let_def split: if_splits)
qed

text \<open>The rounds that the model gives the loop are enough.\<close>

definition pending :: "mosquitto \<Rightarrow> nat" where
  "pending m = length (out_packet m) + (case current_out_packet m of None \<Rightarrow> 0 | Some _ \<Rightarrow> 1)"

lemma pending_next [simp]: "pending ((next_packet m)\<lparr>next_msg_out := k\<rparr>) = length (out_packet m)"
  by (cases "out_packet m") (simp_all add: pending_def next_packet_def)

lemma packet_write_loop_enough: "pending m < n \<Longrightarrow> packet_write_loop (n + k) m = packet_write_loop n m"
proof (induction n arbitrary: m)
  case (Suc n)
  show ?case
  proof (cases "current_out_packet m")
    case (Some p)
    obtain r p1 m1 where w: "write_packet_loop p m = (r, p1, m1)" by (metis prod_cases3)
    have "length (out_packet m1) < n" using Suc.prems Some write_packet_loop_result[OF w] by (simp add: pending_def)
    then show ?thesis using Suc.IH Some w by (cases r) (simp_all add: Let_def)
  qed simp
qed simp

text \<open>Operations that only send: they return, and keep the core and the order of the packets.\<close>

definition only_sends :: "(mosquitto \<Rightarrow> (mosq_err \<times> mosquitto) option) \<Rightarrow> mosquitto \<Rightarrow> bool" where
  "only_sends f m \<longleftrightarrow> (\<exists>rc m'. f m = Some (rc, m') \<and> core m' = core m \<and> (packets_ok m \<longrightarrow> packets_ok m'))"

lemma only_sends_queue: "built_ok (b m) \<Longrightarrow> only_sends (\<lambda>m. queue_built (b m) m) m"
proof -
  assume b: "built_ok (b m)"
  then obtain x where x: "b m = Some x" by (auto simp: built_ok_def)
  show ?thesis
  proof (cases x)
    case (Inl rc)
    then show ?thesis using x by (simp add: only_sends_def queue_built_def)
  next
    case (Inr p)
    obtain rc m' where q: "packet_queue p m = (rc, m')" by (meson surj_pair)
    then show ?thesis using x Inr b packet_queue_result[OF q] by (simp add: only_sends_def queue_built_def built_ok_def)
  qed
qed

lemma only_sends_mid: "only_sends (send_command_with_mid c mid) m"
  using only_sends_queue[of "\<lambda>m. command_with_mid_packet (junk m) c mid False" m] command_with_mid_built
  by (simp add: send_command_with_mid_def[abs_def])

lemma only_sends_simple: "only_sends (send_simple_command c) m"
  using only_sends_queue[of "\<lambda>m. simple_command_packet (junk m) c" m] simple_command_built
  by (simp add: send_simple_command_def[abs_def])

lemma only_sends_acks:
  "only_sends (send_puback mid) m" "only_sends (send_pubrec mid) m" "only_sends (send_pubrel mid) m" "only_sends (send_pubcomp mid) m"
  "only_sends send_pingresp m" "only_sends send_disconnect m"
  using only_sends_mid only_sends_simple
  by (simp_all add: send_puback_def[abs_def] send_pubrec_def[abs_def] send_pubrel_def[abs_def] send_pubcomp_def[abs_def]
      send_pingresp_def[abs_def] send_disconnect_def[abs_def])

definition msg_ok :: "mosq_message \<Rightarrow> bool" where
  "msg_ok g \<longleftrightarrow> length (msg_topic g) < 2 ^ 16 \<and> length (msg_payload g) \<le> 2 ^ 28"

lemma only_sends_publish: "msg_ok g \<Longrightarrow> only_sends (send_publish g d) m"
proof (cases "sock m = -1")
  case False
  assume "msg_ok g"
  then have "built_ok (publish_packet (junk m) (msg_mid g) (msg_topic g) (msg_payload g) (msg_qos g) (msg_retain g) d)"
    by (simp add: msg_ok_def publish_built)
  from only_sends_queue[of "\<lambda>m. publish_packet (junk m) (msg_mid g) (msg_topic g) (msg_payload g) (msg_qos g) (msg_retain g) d", OF this] False
  show ?thesis by (simp add: only_sends_def send_publish_def)
qed (simp add: only_sends_def send_publish_def)

subsection \<open>Well-formed clients\<close>

text \<open>
  The messages that wait for their acknowledgement, as the application sees them. A client is
  well-formed if its packets are, the received messages that it keeps all have quality 2 and
  wait for their release, the sent ones quality 1 or 2 and a size that fits a packet, the counters count, and the texts
  of the configuration are shorter than \<open>2\<^sup>2\<^sup>8\<close> bytes. Between two reads the packet that is being
  received has a buffer of the announced length, so that no read or write leaves it.
\<close>

definition outstanding :: "mosquitto \<Rightarrow> mosq_message list" where
  "outstanding m = map msg (out_messages m)"

definition messages_ok :: "mosquitto \<Rightarrow> bool" where
  "messages_ok m \<longleftrightarrow> (\<forall>g \<in> set (in_messages m). msg_qos (msg g) = 2 \<and> mstate g = mosq_ms_wait_for_pubrel)
     \<and> (\<forall>g \<in> set (outstanding m). msg_ok g \<and> (msg_qos g = 1 \<or> msg_qos g = 2))
     \<and> in_queue_len m = int (length (in_messages m)) \<and> out_queue_len m = int (length (outstanding m))"

definition settings_ok :: "mosquitto \<Rightarrow> bool" where
  "settings_ok m \<longleftrightarrow> length (client_id m) \<le> 2 ^ 28
     \<and> (\<forall>w \<in> set_option (will m). length (msg_topic w) \<le> 2 ^ 28 \<and> length (msg_payload w) \<le> 2 ^ 28)
     \<and> (\<forall>s \<in> set_option (username m). length s \<le> 2 ^ 28) \<and> (\<forall>s \<in> set_option (password m). length s \<le> 2 ^ 28)"

definition in_ok :: "mqtt_packet \<Rightarrow> bool" where
  "in_ok p \<longleftrightarrow> (if remaining_count p > 0
      then length (payload p) = remaining_length p \<and> pos p + to_process p = remaining_length p
      else payload p = [] \<and> pos p = 0 \<and> to_process p = 0)"

definition body_ok :: "mosquitto \<Rightarrow> bool" where
  "body_ok m \<longleftrightarrow> packets_ok m \<and> messages_ok m \<and> settings_ok m"

definition client_ok :: "mosquitto \<Rightarrow> bool" where
  "client_ok m \<longleftrightarrow> body_ok m \<and> in_ok (in_packet m)"

text \<open>An operation that returns and keeps a client well-formed, the packet being received aside.\<close>

definition keeps_body :: "(mosquitto \<Rightarrow> (mosq_err \<times> mosquitto) option) \<Rightarrow> mosquitto \<Rightarrow> bool" where
  "keeps_body f m \<longleftrightarrow>
     (\<exists>rc m'. f m = Some (rc, m') \<and> body_ok m' \<and> outstanding m' = outstanding m \<and> in_packet m' = in_packet m)"

text \<open>The first message with an identifier leaves the list.\<close>

fun drop_mid :: "u16 \<Rightarrow> mosq_message list \<Rightarrow> mosq_message list" where
  "drop_mid mid [] = []"
| "drop_mid mid (g # gs) = (if msg_mid g = mid then gs else g # drop_mid mid gs)"

text \<open>A handler of a packet does so too; \<open>f\<close> is what it does to the outstanding messages.\<close>

definition handles :: "(mosquitto \<Rightarrow> (mosq_err \<times> mosquitto) option) \<Rightarrow> (mosq_message list \<Rightarrow> mosq_message list)
    \<Rightarrow> mosquitto \<Rightarrow> bool" where
  "handles h f m \<longleftrightarrow> (\<exists>rc m'. h m = Some (rc, m') \<and> body_ok m' \<and> outstanding m' = f (outstanding m))"

lemma core_ok:
  assumes "core m' = core m"
  shows "messages_ok m' = messages_ok m" "settings_ok m' = settings_ok m" "outstanding m' = outstanding m"
  using core_fields[OF assms] by (simp_all add: messages_ok_def settings_ok_def outstanding_def)

text \<open>What a client has received and not yet handled, and what it has to deliver.\<close>

definition inbox :: "mosquitto \<Rightarrow> read_event list \<times> connect_event list \<times> mqtt_packet" where
  "inbox m = (reads m, connects m, in_packet m)"

definition client_store :: "mosquitto \<Rightarrow> (read_event list \<times> connect_event list \<times> mqtt_packet) \<times> mosq_message list" where
  "client_store m = (inbox m, outstanding m)"

lemma store_core:
  assumes "core m' = core m"
  shows "client_store m' = client_store m"
  using core_fields(7,16)[OF assms] core_ok(3)[OF assms] arg_cong[OF assms, of connects]
  by (simp add: client_store_def inbox_def core_def)

lemma store_parts: "client_store m' = client_store m \<Longrightarrow> inbox m' = inbox m" "client_store m' = client_store m \<Longrightarrow> outstanding m' = outstanding m"
  by (simp_all add: client_store_def)

lemma store_steps [simp]:
  "client_store (callback f c m) = client_store m" "client_store (socket_close m) = client_store m" "client_store (m\<lparr>last_msg_in := t\<rparr>) = client_store m"
  "client_store (m\<lparr>next_msg_out := t\<rparr>) = client_store m" "client_store (m\<lparr>last_retry_check := t\<rparr>) = client_store m" "client_store (m\<lparr>ping_t := t\<rparr>) = client_store m"
  "client_store (m\<lparr>errno := e\<rparr>) = client_store m" "client_store (m\<lparr>selects := es\<rparr>) = client_store m"
  by (simp_all add: client_store_def inbox_def outstanding_def callback_def socket_close_def)

lemma only_sends_keeps:
  assumes "only_sends f m" "body_ok m"
  shows "keeps_body f m"
proof -
  from assms(1) obtain rc m' where f: "f m = Some (rc, m')" "core m' = core m" "packets_ok m \<longrightarrow> packets_ok m'"
    unfolding only_sends_def by blast
  show ?thesis
    unfolding keeps_body_def using f(1,3) core_ok[OF f(2)] core_fields(7)[OF f(2)] assms(2) by (simp add: body_ok_def)
qed

lemma body_ok_steps [simp]:
  "body_ok (callback f c m) = body_ok m" "body_ok (socket_close m) = body_ok m" "body_ok (m\<lparr>in_packet := p\<rparr>) = body_ok m"
  "body_ok (m\<lparr>last_msg_in := t\<rparr>) = body_ok m" "body_ok (m\<lparr>next_msg_out := t\<rparr>) = body_ok m" "body_ok (m\<lparr>ping_t := t\<rparr>) = body_ok m"
  "body_ok (m\<lparr>errno := e\<rparr>) = body_ok m" "body_ok (m\<lparr>reads := r\<rparr>) = body_ok m" "body_ok (m\<lparr>cstate := s\<rparr>) = body_ok m"
  "body_ok (m\<lparr>last_mid := i\<rparr>) = body_ok m" "body_ok (m\<lparr>keepalive := k\<rparr>) = body_ok m" "body_ok (m\<lparr>last_retry_check := t\<rparr>) = body_ok m"
  "body_ok (m\<lparr>selects := es\<rparr>) = body_ok m" "body_ok (m\<lparr>inflight_messages := n\<rparr>) = body_ok m"
  by (simp_all add: body_ok_def packets_ok_def messages_ok_def settings_ok_def outstanding_def callback_def socket_close_def)

lemma in_packet_steps [simp]: "in_packet (callback f c m) = in_packet m" "in_packet (socket_close m) = in_packet m"
  by (simp_all add: callback_def socket_close_def)

lemma take_message_split:
  "take_message mid gs = Some (g, hs) \<Longrightarrow> \<exists>as bs. gs = as @ g # bs \<and> hs = as @ bs \<and> msg_mid (msg g) = mid"
proof (induction gs arbitrary: hs)
  case (Cons x gs)
  show ?case
  proof (cases "msg_mid (msg x) = mid")
    case True
    then show ?thesis using Cons.prems by (intro exI[of _ "[]"] exI[of _ gs]) simp
  next
    case False
    then obtain hs' where h: "take_message mid gs = Some (g, hs')" "hs = x # hs'" using Cons.prems by auto
    from Cons.IH[OF h(1)] h(2) show ?thesis by (metis append_Cons)
  qed
qed simp

lemma release_loop_result:
  assumes "\<forall>g \<in> set gs. msg_ok (msg g)"
  shows "\<exists>rc gs' m'. release_loop gs m = Some (rc, gs', m') \<and> map msg gs' = map msg gs
    \<and> core (m'\<lparr>inflight_messages := 0\<rparr>) = core (m\<lparr>inflight_messages := 0\<rparr>) \<and> (packets_ok m \<longrightarrow> packets_ok m')"
  using assms
proof (induction gs arbitrary: m)
  case (Cons g gs)
  note ih = Cons.IH
  show ?case
  proof (cases "may_send m \<and> msg_qos (msg g) > 0 \<and> mstate g = mosq_ms_invalid")
    case True
    let ?m = "m\<lparr>inflight_messages := inflight_messages m + 1\<rparr>"
    obtain rc m1 where p: "send_publish (msg g) (dup g) ?m = Some (rc, m1)" "core m1 = core ?m" "packets_ok ?m \<longrightarrow> packets_ok m1"
      using only_sends_publish[of "msg g" "dup g" ?m] Cons.prems unfolding only_sends_def by (meson list.set_intros(1))
    have c: "core (m1\<lparr>inflight_messages := 0\<rparr>) = core (m\<lparr>inflight_messages := 0\<rparr>)"
      by (simp add: p(2))
    have k: "packets_ok ?m = packets_ok m" by (simp add: packets_ok_def)
    from ih[of m1] Cons.prems obtain rc2 gs2 m2 where r: "release_loop gs m1 = Some (rc2, gs2, m2)" "map msg gs2 = map msg gs"
      "core (m2\<lparr>inflight_messages := 0\<rparr>) = core (m1\<lparr>inflight_messages := 0\<rparr>)" "packets_ok m1 \<longrightarrow> packets_ok m2"
      by (meson list.set_intros(2))
    show ?thesis using True p(1,3) c k r by (cases "rc = MOSQ_ERR_SUCCESS") (simp_all add: Let_def)
  next
    case False
    from ih[of m] Cons.prems obtain rc2 gs2 m2 where "release_loop gs m = Some (rc2, gs2, m2)" "map msg gs2 = map msg gs"
      "core (m2\<lparr>inflight_messages := 0\<rparr>) = core (m\<lparr>inflight_messages := 0\<rparr>)" "packets_ok m \<longrightarrow> packets_ok m2"
      by (meson list.set_intros(2))
    then show ?thesis
      using False by (cases "may_send m"; cases "mstate g = mosq_ms_invalid") simp_all
  qed
qed simp

lemma outstanding_steps [simp]:
  "outstanding (callback f c m) = outstanding m" "outstanding (socket_close m) = outstanding m"
  "outstanding (m\<lparr>in_packet := p\<rparr>) = outstanding m" "outstanding (m\<lparr>last_msg_in := t\<rparr>) = outstanding m"
  "outstanding (m\<lparr>ping_t := t\<rparr>) = outstanding m" "outstanding (m\<lparr>cstate := s\<rparr>) = outstanding m"
  by (simp_all add: outstanding_def callback_def socket_close_def)

lemma drop_mid_take:
  "take_message mid gs = Some (g, hs) \<Longrightarrow> drop_mid mid (map msg gs) = map msg hs"
  "take_message mid gs = None \<Longrightarrow> drop_mid mid (map msg gs) = map msg gs"
proof -
  show "take_message mid gs = Some (g, hs) \<Longrightarrow> drop_mid mid (map msg gs) = map msg hs"
    by (induction gs arbitrary: hs) (fastforce split: if_splits)+
  show n: "take_message mid gs = None \<Longrightarrow> drop_mid mid (map msg gs) = map msg gs"
    by (induction gs) (simp_all split: if_splits)
qed

lemma message_remove_out_handles:
  assumes "body_ok m"
  shows "handles (message_remove_out mid) (drop_mid mid) m"
proof (cases "take_message mid (out_messages m)")
  case None
  then show ?thesis using assms drop_mid_take(2)[OF None] by (simp add: handles_def message_remove_out_def outstanding_def)
next
  case (Some x)
  obtain g gs where x: "x = (g, gs)" by (meson surj_pair)
  let ?m = "m\<lparr>out_queue_len := out_queue_len m - 1,
    inflight_messages := (if msg_qos (msg g) > 0 then inflight_messages m - 1 else inflight_messages m)\<rparr>"
  obtain as bs where ab: "out_messages m = as @ g # bs" "gs = as @ bs" using take_message_split[of mid "out_messages m" g gs] Some x by blast
  have ok: "\<forall>g \<in> set gs. msg_ok (msg g)" using assms ab by (simp add: body_ok_def messages_ok_def outstanding_def) blast
  obtain rc gs2 m2 where r: "release_loop gs ?m = Some (rc, gs2, m2)" "map msg gs2 = map msg gs"
    "core (m2\<lparr>inflight_messages := 0\<rparr>) = core (?m\<lparr>inflight_messages := 0\<rparr>)" "packets_ok ?m \<longrightarrow> packets_ok m2"
    using release_loop_result[OF ok, of ?m] by blast
  have p: "packets_ok ?m = packets_ok m" by (simp add: packets_ok_def)
  note c = core_fields[OF r(3), simplified]
  have out: "outstanding m = map msg as @ msg g # map msg bs" "outstanding (m2\<lparr>out_messages := gs2\<rparr>) = map msg as @ map msg bs"
    using r(2) ab by (simp_all add: outstanding_def)
  have "packets_ok (m2\<lparr>out_messages := gs2\<rparr>)" using r(4) p assms by (simp add: packets_ok_def body_ok_def)
  then have "body_ok (m2\<lparr>out_messages := gs2\<rparr>)"
    using assms c unfolding body_ok_def messages_ok_def settings_ok_def out by simp
  moreover have "outstanding (m2\<lparr>out_messages := gs2\<rparr>) = drop_mid mid (outstanding m)"
    using r(2) drop_mid_take(1)[of mid "out_messages m" g gs] Some x by (simp add: outstanding_def)
  ultimately show ?thesis
    using Some x r(1) by (simp add: handles_def message_remove_out_def Let_def)
qed

subsection \<open>The handlers\<close>

text \<open>What a received packet acknowledges.\<close>

definition acknowledge :: "mqtt_packet \<Rightarrow> mosq_message list \<Rightarrow> mosq_message list" where
  "acknowledge p gs =
     (if command p AND 0xF0 = PUBACK \<or> command p AND 0xF0 = PUBCOMP
      then (case read_uint16 p of Inl _ \<Rightarrow> gs | Inr (mid, _) \<Rightarrow> drop_mid mid gs) else gs)"

lemma handlesI: "h m = Some (rc, m') \<Longrightarrow> body_ok m' \<Longrightarrow> outstanding m' = f (outstanding m) \<Longrightarrow> handles h f m"
  by (simp add: handles_def)

lemma only_sends_handles:
  assumes "only_sends f m" "body_ok m"
  shows "handles f (\<lambda>gs. gs) m"
  using only_sends_keeps[OF assms] unfolding keeps_body_def handles_def by blast

lemma handle_pubackcomp_handles:
  assumes "body_ok m"
  shows "handles handle_pubackcomp (case read_uint16 (in_packet m) of Inl _ \<Rightarrow> (\<lambda>gs. gs) | Inr (mid, _) \<Rightarrow> drop_mid mid) m"
proof (cases "read_uint16 (in_packet m)")
  case (Inl e)
  then show ?thesis using assms by (simp add: handle_pubackcomp_def handles_def)
next
  case (Inr x)
  obtain mid p where x: "x = (mid, p)" by (meson surj_pair)
  obtain rc m' where r: "message_remove_out mid (m\<lparr>in_packet := p\<rparr>) = Some (rc, m')" "body_ok m'" "outstanding m' = drop_mid mid (outstanding m)"
    using message_remove_out_handles[of "m\<lparr>in_packet := p\<rparr>" mid] assms unfolding handles_def by simp blast
  then show ?thesis using Inr x by (simp add: handle_pubackcomp_def message_delete_out_def handles_def)
qed

lemma update_first_msgs: "update_first mid s t gs = Some hs \<Longrightarrow> map msg hs = map msg gs"
proof (induction gs arbitrary: hs)
  case (Cons g gs)
  show ?case
  proof (cases "msg_mid (msg g) = mid")
    case True
    then show ?thesis using Cons.prems by (auto simp del: mosq_message_all.simps(1))
  next
    case False
    then obtain hs' where "update_first mid s t gs = Some hs'" "hs = g # hs'" using Cons.prems by auto
    then show ?thesis using Cons.IH by simp
  qed
qed simp

lemma message_out_update_body:
  assumes "message_out_update mid s m = (rc, m')" "body_ok m"
  shows "body_ok m'" "outstanding m' = outstanding m" "rc = MOSQ_ERR_NOT_FOUND \<or> rc = MOSQ_ERR_SUCCESS"
proof -
  show o: "outstanding m' = outstanding m"
    using assms(1) update_first_msgs[of mid s "now m" "out_messages m"]
    by (auto simp: message_out_update_def outstanding_def split: option.splits)
  have "packets_ok m' = packets_ok m" "settings_ok m' = settings_ok m" "in_messages m' = in_messages m"
      "in_queue_len m' = in_queue_len m" "out_queue_len m' = out_queue_len m"
    using assms(1) by (auto simp: message_out_update_def packets_ok_def settings_ok_def split: option.splits)
  then show "body_ok m'" using assms(2) by (simp add: body_ok_def messages_ok_def o)
  show "rc = MOSQ_ERR_NOT_FOUND \<or> rc = MOSQ_ERR_SUCCESS"
    using assms(1) by (auto simp: message_out_update_def split: option.splits)
qed

lemma handle_pubrec_handles:
  assumes "body_ok m"
  shows "handles handle_pubrec (\<lambda>gs. gs) m"
proof (cases "read_uint16 (in_packet m)")
  case (Inl e)
  then show ?thesis using assms by (simp add: handle_pubrec_def handles_def)
next
  case (Inr x)
  obtain mid p where x: "x = (mid, p)" by (meson surj_pair)
  obtain rc m1 where u: "message_out_update mid mosq_ms_wait_for_pubcomp (m\<lparr>in_packet := p\<rparr>) = (rc, m1)" by (meson surj_pair)
  note u1 = message_out_update_body[OF u]
  have b: "body_ok m1" "outstanding m1 = outstanding m" using u1 assms by simp_all
  show ?thesis
    using only_sends_handles[OF only_sends_acks(3) b(1), of mid] b(2) Inr x u u1(3) assms
    by (simp add: handle_pubrec_def handles_def) blast
qed

lemma message_remove_in_body:
  assumes "message_remove_in mid m = (r, m')" "body_ok m"
  shows "body_ok m'" "outstanding m' = outstanding m"
proof -
  show o: "outstanding m' = outstanding m"
    using assms(1) by (auto simp: message_remove_in_def outstanding_def split: option.splits prod.splits)
  show "body_ok m'"
  proof (cases "take_message mid (in_messages m)")
    case None
    then show ?thesis using assms by (simp add: message_remove_in_def)
  next
    case (Some x)
    obtain g gs where x: "x = (g, gs)" by (meson surj_pair)
    obtain as bs where ab: "in_messages m = as @ g # bs" "gs = as @ bs"
      using take_message_split[of mid "in_messages m" g gs] Some x by blast
    have m': "m' = m\<lparr>in_queue_len := in_queue_len m - 1, in_messages := gs\<rparr>"
      using assms(1) Some x by (simp add: message_remove_in_def)
    show ?thesis
      using assms(2) ab unfolding m' by (simp add: body_ok_def messages_ok_def settings_ok_def packets_ok_def outstanding_def)
  qed
qed

lemma handle_pubrel_handles:
  assumes "body_ok m"
  shows "handles handle_pubrel (\<lambda>gs. gs) m"
proof (cases "(protocol m = mosq_p_mqtt311 \<and> command (in_packet m) AND 0x0F \<noteq> 2) \<or> (\<exists>e. read_uint16 (in_packet m) = Inl e)")
  case True
  then show ?thesis
    using assms by (cases "protocol m = mosq_p_mqtt311 \<and> command (in_packet m) AND 0x0F \<noteq> 2") (auto simp: handle_pubrel_def handles_def)
next
  case False
  then obtain mid p where x: "read_uint16 (in_packet m) = Inr (mid, p)" by (cases "read_uint16 (in_packet m)") auto
  obtain r m1 where u: "message_remove_in mid (m\<lparr>in_packet := p\<rparr>) = (r, m1)" by (meson surj_pair)
  note u1 = message_remove_in_body[OF u]
  let ?m2 = "case r of None \<Rightarrow> m1 | Some g \<Rightarrow> callback on_message (On_message (msg g)) m1"
  have b: "body_ok ?m2" "outstanding ?m2 = outstanding m" using u1 assms by (simp_all split: option.splits)
  have np: "\<not> (protocol m = mosq_p_mqtt311 \<and> command (in_packet m) AND 0x0F \<noteq> 2)" using False by blast
  have "handle_pubrel m = send_pubcomp mid ?m2" unfolding handle_pubrel_def if_not_P[OF np] by (simp add: x u)
  then show ?thesis
    using only_sends_handles[OF only_sends_acks(4) b(1), of mid] b(2) by (simp add: handles_def)
qed

lemma message_queue_in_body:
  "body_ok m \<Longrightarrow> msg_qos (msg g) = 2 \<Longrightarrow> mstate g = mosq_ms_wait_for_pubrel \<Longrightarrow> body_ok (message_queue_in g m)"
  "outstanding (message_queue_in g m) = outstanding m"
  by (simp_all add: message_queue_in_def body_ok_def messages_ok_def settings_ok_def packets_ok_def outstanding_def)

lemma handle_publish_handles:
  assumes "body_ok m"
  shows "handles handle_publish (\<lambda>gs. gs) m"
proof (cases "parse_publish (in_packet m)")
  case (Inl e)
  then show ?thesis using assms by (simp add: handle_publish_def handles_def)
next
  case (Inr x)
  obtain d g p where x: "x = ((d, g), p)" by (metis surj_pair)
  let ?m = "m\<lparr>in_packet := p\<rparr>"
  have b: "body_ok ?m" "outstanding ?m = outstanding m" using assms by simp_all
  obtain rc1 m1 where a: "send_puback (msg_mid g) ?m = Some (rc1, m1)" "body_ok m1" "outstanding m1 = outstanding m"
    using only_sends_handles[OF only_sends_acks(1) b(1), of "msg_mid g"] b(2) unfolding handles_def by metis
  obtain rc2 m2 where c: "send_pubrec (msg_mid g) ?m = Some (rc2, m2)" "body_ok m2" "outstanding m2 = outstanding m"
    using only_sends_handles[OF only_sends_acks(2) b(1), of "msg_mid g"] b(2) unfolding handles_def by metis
  show ?thesis
    using Inr x a b c message_queue_in_body
    by (simp add: handle_publish_def handles_def Let_def)
qed

lemma packet_handle_handles:
  assumes "body_ok m"
  shows "handles packet_handle (acknowledge (in_packet m)) m"
proof (cases "command (in_packet m) AND 0xF0 = PUBACK \<or> command (in_packet m) AND 0xF0 = PUBCOMP")
  case True
  then have "packet_handle m = handle_pubackcomp m" by (auto simp: packet_handle_def Let_def PUBACK_def PUBCOMP_def)
  then show ?thesis
    using handle_pubackcomp_handles[OF assms] True
    by (simp add: handles_def acknowledge_def split: sum.splits prod.splits)
next
  case False
  define P where "P r \<longleftrightarrow> (\<exists>rc m'. r = Some (rc, m') \<and> body_ok m' \<and> outstanding m' = outstanding m)"
    for r :: "(mosq_err \<times> mosquitto) option"
  have "P (send_pingresp m)" using only_sends_handles[OF only_sends_acks(5) assms] by (simp add: handles_def P_def)
  moreover have "P (handle_publish m)" "P (handle_pubrec m)" "P (handle_pubrel m)"
    using handle_publish_handles[OF assms] handle_pubrec_handles[OF assms] handle_pubrel_handles[OF assms] by (simp_all add: handles_def P_def)
  moreover have "P (Some (handle_pingresp m))" "P (Some (MOSQ_ERR_PROTOCOL, m))" using assms by (simp_all add: handle_pingresp_def P_def)
  moreover have "P (Some (handle_connack m))"
    using assms by (simp add: P_def handle_connack_def Let_def split: sum.splits prod.splits)
  moreover have "P (Some (handle_suback m))"
    using assms by (simp add: P_def handle_suback_def Let_def split: sum.splits prod.splits)
  moreover have "P (Some (handle_unsuback m))"
    using assms by (simp add: P_def handle_unsuback_def split: sum.splits prod.splits)
  ultimately have "P (packet_handle m)"
    using False unfolding packet_handle_def Let_def by simp
  then show ?thesis using False by (simp add: handles_def acknowledge_def P_def)
qed

subsection \<open>Receiving\<close>

text \<open>Reading touches the packet that is being received and the socket.\<close>

definition read_core :: "mosquitto \<Rightarrow> mosquitto" where
  "read_core m = m\<lparr>in_packet := calloc_packet, errno := E_none, reads := [], last_msg_in := 0\<rparr>"

lemma read_core_updates [simp]:
  "read_core (m\<lparr>in_packet := p\<rparr>) = read_core m" "read_core (m\<lparr>errno := e\<rparr>) = read_core m"
  "read_core (m\<lparr>reads := r\<rparr>) = read_core m" "read_core (m\<lparr>last_msg_in := t\<rparr>) = read_core m"
  by (simp_all add: read_core_def)

lemma read_core_ok:
  assumes "read_core m' = read_core m"
  shows "body_ok m' = body_ok m" "outstanding m' = outstanding m" "junk m' = junk m" "now m' = now m" "sock m' = sock m"
    "cstate m' = cstate m" "writes m' = writes m" "sent m' = sent m" "on_message m' = on_message m" "calls m' = calls m"
    "out_packet m' = out_packet m" "current_out_packet m' = current_out_packet m"
proof -
  have "body_ok (read_core m) = body_ok m" "outstanding (read_core m) = outstanding m" for m
    by (simp_all add: read_core_def outstanding_def)
  then show "body_ok m' = body_ok m" "outstanding m' = outstanding m" using assms by metis+
  show "junk m' = junk m" "now m' = now m" "sock m' = sock m"
    "cstate m' = cstate m" "writes m' = writes m" "sent m' = sent m" "on_message m' = on_message m" "calls m' = calls m"
    "out_packet m' = out_packet m" "current_out_packet m' = current_out_packet m"
    using arg_cong[OF assms, of junk] arg_cong[OF assms, of now] arg_cong[OF assms, of sock] arg_cong[OF assms, of cstate]
      arg_cong[OF assms, of writes] arg_cong[OF assms, of sent] arg_cong[OF assms, of on_message] arg_cong[OF assms, of calls]
      arg_cong[OF assms, of out_packet] arg_cong[OF assms, of current_out_packet]
    by (simp_all add: read_core_def outstanding_def)
qed

lemma net_read_result:
  assumes "net_read c m = (r, m')"
  shows "read_core m' = read_core m" "in_packet m' = in_packet m" "r = Some bs \<Longrightarrow> length bs \<le> c"
  using assms by (auto simp: net_read_def split: list.splits read_event.splits)

lemma read_command_result:
  assumes "read_command m = (r, m')" "in_ok (in_packet m)"
  shows "read_core m' = read_core m" "in_ok (in_packet m')"
proof -
  obtain x m1 where n: "net_read 1 m = (x, m1)" by (meson surj_pair)
  note n1 = net_read_result[OF n]
  show "read_core m' = read_core m" "in_ok (in_packet m')"
    using assms n n1 by (auto simp: read_command_def in_ok_def split: if_splits option.splits list.splits)
qed

lemma read_length_loop_result:
  assumes "read_length_loop k m = (r, m')" "remaining_count (in_packet m) \<le> 0"
  shows "read_core m' = read_core m \<and> payload (in_packet m') = payload (in_packet m) \<and> pos (in_packet m') = pos (in_packet m)
    \<and> to_process (in_packet m') = to_process (in_packet m) \<and> remaining_count (in_packet m') \<le> 0
    \<and> (r = None \<longrightarrow> remaining_count (in_packet m') < 0)"
  using assms
proof (induction k arbitrary: m)
  case (Suc k)
  obtain x m1 where n: "net_read 1 m = (x, m1)" by (meson surj_pair)
  note n1 = net_read_result[OF n]
  show ?case
  proof (cases "\<exists>b. x = Some [b]")
    case False
    then have "m' = m1 \<and> r \<noteq> None"
      using Suc.prems n by (cases x) (auto split: list.splits)
    then show ?thesis using n1 Suc.prems(2) by (cases r) simp_all
  next
    case True
    then obtain b where b: "x = Some [b]" by blast
    define p1 where "p1 = (in_packet m1)\<lparr>remaining_count := remaining_count (in_packet m1) - 1\<rparr>"
    define p2 where "p2 = p1\<lparr>remaining_length := (remaining_length p1 + unat (b AND 127) * remaining_mult p1) mod 2 ^ 32,
      remaining_mult := (remaining_mult p1 * 128) mod 2 ^ 32\<rparr>"
    have "read_length_loop (Suc k) m = (if remaining_count p1 < -4 then (Some MOSQ_ERR_PROTOCOL, m1\<lparr>in_packet := p1\<rparr>)
        else if b AND 128 \<noteq> 0 then read_length_loop k (m1\<lparr>in_packet := p2\<rparr>) else (None, m1\<lparr>in_packet := p2\<rparr>))"
      unfolding p2_def p1_def read_length_loop.simps n b prod.case option.case list.case Let_def by (rule refl)
    note eq = this[unfolded Suc.prems(1)]
    have p: "payload p2 = payload (in_packet m)" "pos p2 = pos (in_packet m)" "to_process p2 = to_process (in_packet m)"
      "remaining_count p2 < 0" "payload p1 = payload (in_packet m)" "pos p1 = pos (in_packet m)" "to_process p1 = to_process (in_packet m)"
      "remaining_count p1 < 0"
      using n1 Suc.prems(2) by (simp_all add: p1_def p2_def)
    show ?thesis
      using eq Suc.IH[of "m1\<lparr>in_packet := p2\<rparr>"] n1 p by (simp split: if_splits)
  qed
qed auto

lemma read_remaining_length_result:
  assumes "read_remaining_length m = (r, m')" "in_ok (in_packet m)"
  shows "read_core m' = read_core m" "in_ok (in_packet m')" "r = None \<Longrightarrow> remaining_count (in_packet m') > 0"
proof -
  have "read_core m' = read_core m \<and> in_ok (in_packet m') \<and> (r = None \<longrightarrow> remaining_count (in_packet m') > 0)"
  proof (cases "remaining_count (in_packet m) > 0")
    case True
    then show ?thesis using assms by (simp add: read_remaining_length_def)
  next
    case False
    obtain x m1 where n: "read_length_loop 5 m = (x, m1)" by (meson surj_pair)
    note n1 = read_length_loop_result[OF n]
    show ?thesis
      using assms False n n1 by (auto simp: read_remaining_length_def in_ok_def Let_def simp del: read_length_loop.simps split: if_splits)
  qed
  then show "read_core m' = read_core m" "in_ok (in_packet m')" "r = None \<Longrightarrow> remaining_count (in_packet m') > 0" by auto
qed

lemma read_payload_loop_result:
  assumes "read_payload_loop m = (r, m')" "in_ok (in_packet m)" "remaining_count (in_packet m) > 0"
  shows "read_core m' = read_core m \<and> in_ok (in_packet m') \<and> remaining_count (in_packet m') > 0
    \<and> (r = None \<longrightarrow> to_process (in_packet m') = 0)"
  using assms
proof (induction m rule: read_payload_loop.induct)
  case (1 m)
  let ?p = "in_packet m"
  obtain x m1 where n: "net_read (to_process ?p) m = (x, m1)" by (meson surj_pair)
  note n1 = net_read_result[OF n]
  note eq = "1.prems"(1)[unfolded read_payload_loop.simps[of m] Let_def n]
  show ?case
  proof (cases "to_process ?p > 0")
    case False
    then show ?thesis using eq "1.prems" by simp
  next
    case True
    show ?thesis
    proof (cases "\<exists>b bs. x = Some (b # bs)")
      case False
      then have "m' = (if errno m1 = EAGAIN \<and> to_process ?p > 1000 then m1\<lparr>last_msg_in := now m1\<rparr> else m1) \<and> r \<noteq> None"
        using eq True by (cases x) (auto split: list.splits if_splits)
      then show ?thesis using n1 "1.prems"(2,3) by (cases r) (simp_all split: if_splits)
    next
      case f: True
      then obtain b bs where b: "x = Some (b # bs)" by blast
      define p' where "p' = ?p\<lparr>payload := take (pos ?p) (payload ?p) @ (b # bs) @ drop (pos ?p + Suc (length bs)) (payload ?p),
        to_process := to_process ?p - Suc (length bs), pos := pos ?p + Suc (length bs)\<rparr>"
      have l: "Suc (length bs) \<le> to_process ?p" using n1(3)[OF b] by simp
      have ok: "in_ok p'" "remaining_count p' > 0" using "1.prems"(2,3) l by (simp_all add: in_ok_def p'_def)
      have "read_payload_loop (m1\<lparr>in_packet := p'\<rparr>) = (r, m')" using eq True b by (simp add: p'_def)
      from "1.IH"[OF refl True n[symmetric] b refl, folded p'_def, OF this] ok n1 show ?thesis by simp
    qed
  qed
qed

lemma receive_packet_result:
  assumes "receive_packet m = (r, m')" "in_ok (in_packet m)"
  shows "read_core m' = read_core m" "in_ok (in_packet m')"
    "r = None \<Longrightarrow> length (payload (in_packet m')) = remaining_length (in_packet m')"
proof -
  obtain r1 m1 where 1: "read_command m = (r1, m1)" by (meson surj_pair)
  obtain r2 m2 where 2: "read_remaining_length m1 = (r2, m2)" by (meson surj_pair)
  note c = read_command_result[OF 1 assms(2)]
  note l = read_remaining_length_result[OF 2 c(2)]
  have "read_core m' = read_core m \<and> in_ok (in_packet m')
      \<and> (r = None \<longrightarrow> length (payload (in_packet m')) = remaining_length (in_packet m'))"
  proof (cases "r1 = None \<and> r2 = None")
    case True
    then have "read_payload_loop m2 = (r, m')" using assms(1) 1 2 by (simp add: receive_packet_def)
    from read_payload_loop_result[OF this l(2)] True l c show ?thesis by (auto simp: in_ok_def)
  next
    case False
    then show ?thesis using assms(1) 1 2 c l by (auto simp: receive_packet_def split: option.splits)
  qed
  then show "read_core m' = read_core m" "in_ok (in_packet m')"
    "r = None \<Longrightarrow> length (payload (in_packet m')) = remaining_length (in_packet m')" by auto
qed

text \<open>What reading does to the outstanding messages.\<close>

definition acked_by :: "mosquitto \<Rightarrow> mosq_message list \<Rightarrow> mosq_message list" where
  "acked_by m gs =
     (if sock m = -1 \<or> cstate m = mosq_cs_connect_pending then gs
      else case receive_packet m of (Some _, _) \<Rightarrow> gs
           | (None, m1) \<Rightarrow> acknowledge ((in_packet m1)\<lparr>pos := 0\<rparr>) gs)"

lemma packet_read_ok:
  assumes "client_ok m"
  shows "\<exists>rc m'. packet_read m = Some (rc, m') \<and> client_ok m' \<and> outstanding m' = acked_by m (outstanding m)"
proof (cases "sock m = -1 \<or> cstate m = mosq_cs_connect_pending")
  case True
  then show ?thesis using assms by (auto simp: packet_read_def acked_by_def)
next
  case False
  obtain r m1 where r: "receive_packet m = (r, m1)" by (meson surj_pair)
  have "in_ok (in_packet m)" using assms by (simp add: client_ok_def)
  note r1 = receive_packet_result[OF r this]
  note b = read_core_ok[OF r1(1)]
  show ?thesis
  proof (cases r)
    case (Some rc)
    then show ?thesis using False r r1(2) b assms by (simp add: packet_read_def acked_by_def client_ok_def)
  next
    case None
    let ?m = "m1\<lparr>in_packet := (in_packet m1)\<lparr>pos := 0\<rparr>\<rparr>"
    have "body_ok ?m" using b assms by (simp add: client_ok_def)
    from packet_handle_handles[OF this] obtain rc m2 where h: "packet_handle ?m = Some (rc, m2)" "body_ok m2"
      "outstanding m2 = acknowledge (in_packet ?m) (outstanding ?m)" unfolding handles_def by blast
    have "in_ok (packet_cleanup p)" for p by (simp add: in_ok_def packet_cleanup_def)
    then show ?thesis using False None r h b by (simp add: packet_read_def acked_by_def client_ok_def)
  qed
qed

text \<open>The five rounds that the model gives the loop over the remaining length are enough.\<close>

lemma read_length_loop_enough:
  assumes "0 < n" "remaining_count (in_packet m) \<le> int n - 5"
  shows "read_length_loop (n + k) m = read_length_loop n m"
  using assms
proof (induction n arbitrary: m)
  case (Suc n)
  obtain x m1 where r: "net_read 1 m = (x, m1)" by (meson surj_pair)
  note r1 = net_read_result[OF r]
  show ?case
  proof (cases "n = 0")
    case True
    then show ?thesis using r r1 Suc.prems by (cases x) (auto simp: Let_def split: list.splits)
  next
    case False
    have "read_length_loop (n + k) (m1\<lparr>in_packet := p\<rparr>) = read_length_loop n (m1\<lparr>in_packet := p\<rparr>)"
      if "remaining_count p = remaining_count (in_packet m) - 1" for p
      using Suc.IH[of "m1\<lparr>in_packet := p\<rparr>"] False Suc.prems that by simp
    then show ?thesis using r r1 by (cases x) (auto simp: Let_def split: list.splits)
  qed
qed simp

subsection \<open>The other operations\<close>

definition view :: "mosq_message_all \<Rightarrow> mosq_message \<times> mosq_ms" where
  "view g = (msg g, mstate g)"

lemma view_same:
  assumes "map view gs' = map view gs"
  shows "map msg gs' = map msg gs" "length gs' = length gs"
    "\<forall>g \<in> set gs. P (msg g) (mstate g) \<Longrightarrow> \<forall>g \<in> set gs'. P (msg g) (mstate g)"
proof -
  have "map msg gs = map fst (map view gs)" for gs by (simp add: view_def)
  then show "map msg gs' = map msg gs" using assms by metis
  show "length gs' = length gs" using assms by (rule map_eq_imp_length_eq)
  have "view ` set gs' = view ` set gs" using arg_cong[OF assms, of set] by simp
  then have "\<exists>h \<in> set gs. view g = view h" if "g \<in> set gs'" for g using that by blast
  then show "\<forall>g \<in> set gs. P (msg g) (mstate g) \<Longrightarrow> \<forall>g \<in> set gs'. P (msg g) (mstate g)"
    unfolding view_def by force
qed

lemma retry_loop_result:
  assumes "\<forall>g \<in> set gs. msg_ok (msg g) \<or> mstate g = mosq_ms_wait_for_pubrel"
  shows "\<exists>gs' m'. retry_loop gs m = Some (gs', m') \<and> map view gs' = map view gs
    \<and> core m' = core m \<and> (packets_ok m \<longrightarrow> packets_ok m')"
  using assms
proof (induction gs arbitrary: m)
  case (Cons g gs)
  let ?g = "g\<lparr>timestamp := now m, dup := True\<rparr>"
  let ?r = "if timestamp g + message_retry m < now m then
      (case mstate g of
         mosq_ms_wait_for_puback \<Rightarrow> map_option (\<lambda>(rc, m'). (?g, m')) (send_publish (msg g) True m)
       | mosq_ms_wait_for_pubrec \<Rightarrow> map_option (\<lambda>(rc, m'). (?g, m')) (send_publish (msg g) True m)
       | mosq_ms_wait_for_pubrel \<Rightarrow> map_option (\<lambda>(rc, m'). (?g, m')) (send_pubrec (msg_mid (msg g)) m)
       | mosq_ms_wait_for_pubcomp \<Rightarrow> map_option (\<lambda>(rc, m'). (?g, m')) (send_pubrel (msg_mid (msg g)) m)
       | _ \<Rightarrow> Some (g, m))
    else Some (g, m)"
  have s: "\<exists>rc m'. send_pubrec (msg_mid (msg g)) m = Some (rc, m') \<and> core m' = core m \<and> (packets_ok m \<longrightarrow> packets_ok m')"
    "\<exists>rc m'. send_pubrel (msg_mid (msg g)) m = Some (rc, m') \<and> core m' = core m \<and> (packets_ok m \<longrightarrow> packets_ok m')"
    using only_sends_acks(2,3)[of "msg_mid (msg g)" m] unfolding only_sends_def by blast+
  have p: "\<exists>rc m'. send_publish (msg g) True m = Some (rc, m') \<and> core m' = core m \<and> (packets_ok m \<longrightarrow> packets_ok m')"
    if "mstate g \<noteq> mosq_ms_wait_for_pubrel"
    using only_sends_publish[of "msg g" True m] Cons.prems that unfolding only_sends_def by simp
  have "\<exists>g2 m1. ?r = Some (g2, m1) \<and> msg g2 = msg g \<and> mstate g2 = mstate g \<and> core m1 = core m \<and> (packets_ok m \<longrightarrow> packets_ok m1)"
    using s p by (cases "mstate g") (auto split: if_splits)
  then obtain g2 m1 where g: "?r = Some (g2, m1)" "msg g2 = msg g" "mstate g2 = mstate g" "core m1 = core m" "packets_ok m \<longrightarrow> packets_ok m1"
    by blast
  obtain gs2 m2 where r: "retry_loop gs m1 = Some (gs2, m2)" "map view gs2 = map view gs"
    "core m2 = core m1" "packets_ok m1 \<longrightarrow> packets_ok m2"
    using Cons.IH[of m1] Cons.prems by (meson list.set_intros(2))
  have "view g2 = view g" using g by (simp add: view_def)
  then show ?case using g r by (simp add: Let_def)
qed simp

definition keeps_client :: "(mosquitto \<Rightarrow> (mosq_err \<times> mosquitto) option) \<Rightarrow> mosquitto \<Rightarrow> bool" where
  "keeps_client f m \<longleftrightarrow> (\<exists>rc m'. f m = Some (rc, m') \<and> client_ok m')"

lemma client_ok_steps [simp]:
  "client_ok (callback f c m) = client_ok m" "client_ok (socket_close m) = client_ok m"
  "client_ok (m\<lparr>last_msg_in := t\<rparr>) = client_ok m" "client_ok (m\<lparr>next_msg_out := t\<rparr>) = client_ok m"
  "client_ok (m\<lparr>ping_t := t\<rparr>) = client_ok m" "client_ok (m\<lparr>errno := e\<rparr>) = client_ok m" "client_ok (m\<lparr>cstate := st\<rparr>) = client_ok m"
  "client_ok (m\<lparr>last_mid := i\<rparr>) = client_ok m" "client_ok (m\<lparr>keepalive := k\<rparr>) = client_ok m"
  "client_ok (m\<lparr>last_retry_check := t\<rparr>) = client_ok m" "client_ok (m\<lparr>selects := es\<rparr>) = client_ok m"
  "client_ok (m\<lparr>inflight_messages := n\<rparr>) = client_ok m"
  by (simp_all add: client_ok_def)

lemma only_sends_client:
  assumes "only_sends f m" "client_ok m"
  shows "keeps_client f m"
  using only_sends_keeps[of f m] assms unfolding keeps_client_def keeps_body_def client_ok_def by metis

lemma message_retry_check_ok:
  assumes "client_ok m"
  shows "\<exists>m'. message_retry_check m = Some m' \<and> client_ok m' \<and> client_store m' = client_store m"
proof -
  have b: "packets_ok m" "messages_ok m" "settings_ok m" "in_ok (in_packet m)" using assms by (simp_all add: client_ok_def body_ok_def)
  have "\<forall>g \<in> set (out_messages m). msg_ok (msg g) \<or> mstate g = mosq_ms_wait_for_pubrel"
    using b(2) by (simp add: messages_ok_def outstanding_def)
  from retry_loop_result[OF this, of m] obtain gs1 m1 where r1: "retry_loop (out_messages m) m = Some (gs1, m1)"
    "map view gs1 = map view (out_messages m)" "core m1 = core m" "packets_ok m1" using b(1) by blast
  note f1 = core_fields[OF r1(3)]
  let ?m = "m1\<lparr>out_messages := gs1\<rparr>"
  have "\<forall>g \<in> set (in_messages ?m). msg_ok (msg g) \<or> mstate g = mosq_ms_wait_for_pubrel"
    using b(2) f1 by (simp add: messages_ok_def)
  from retry_loop_result[OF this, of ?m] obtain gs2 m2 where r2: "retry_loop (in_messages ?m) ?m = Some (gs2, m2)"
    "map view gs2 = map view (in_messages ?m)" "core m2 = core ?m" "packets_ok ?m \<longrightarrow> packets_ok m2"
    by (elim exE conjE)
  note f2 = core_fields[OF r2(3)]
  note v2 = view_same[OF r2(2)]
  let ?m2 = "m2\<lparr>in_messages := gs2\<rparr>"
  have o2: "out_messages m2 = gs1" using f2(2) by simp
  have i2: "in_messages ?m = in_messages m" using f1(1) by simp
  have out: "outstanding ?m2 = outstanding m" by (simp add: outstanding_def o2 view_same(1)[OF r1(2)])
  have "\<forall>g \<in> set gs2. msg_qos (msg g) = 2 \<and> mstate g = mosq_ms_wait_for_pubrel"
    by (rule v2(3)[of "\<lambda>g s. msg_qos g = 2 \<and> s = mosq_ms_wait_for_pubrel", unfolded i2]) (use b(2) in \<open>simp add: messages_ok_def\<close>)
  then have "messages_ok ?m2" using b(2) f1 f2 v2(2) by (simp add: messages_ok_def out)
  moreover have "packets_ok ?m2" "settings_ok ?m2" "in_packet ?m2 = in_packet m"
    using r1(4) r2(4) b(3) f1 f2 by (simp_all add: packets_ok_def settings_ok_def)
  ultimately have "client_ok ?m2" using b by (simp add: client_ok_def body_ok_def)
  moreover have "client_store ?m2 = client_store m"
    using store_core[OF r1(3)] store_core[OF r2(3)] out by (simp add: client_store_def inbox_def)
  ultimately show ?thesis using r1(1) r2(1) by (simp add: message_retry_check_def Let_def)
qed

lemma in_reset_loop_all:
  "\<forall>g \<in> set gs. msg_qos (msg g) = 2 \<Longrightarrow>
    in_reset_loop p gs = Some (map (\<lambda>g. g\<lparr>timestamp := 0\<rparr>) gs, int (length gs))"
  by (induction p gs rule: in_reset_loop.induct) auto

lemma out_reset_loop_msgs: "out_reset_loop k n gs = (n', gs') \<Longrightarrow> map msg gs' = map msg gs"
proof (induction gs arbitrary: n n' gs')
  case (Cons g gs)
  show ?case
  proof (cases "k = 0 \<or> n < k")
    case True
    obtain a b where o: "out_reset_loop k (if msg_qos (msg g) > 0 then n + 1 else n) gs = (a, b)" by (meson surj_pair)
    have "map msg b = map msg gs" by (rule Cons.IH[OF o])
    then show ?thesis using Cons.prems True o by (auto simp: Let_def)
  next
    case False
    obtain a b where o: "out_reset_loop k n gs = (a, b)" by (meson surj_pair)
    have "map msg b = map msg gs" by (rule Cons.IH[OF o])
    then show ?thesis using Cons.prems False o by (auto simp: Let_def)
  qed
qed simp

lemma reconnect_reset_ok:
  assumes "messages_ok m"
  shows "\<exists>os k. messages_reconnect_reset m = Some (m\<lparr>in_messages := map (\<lambda>g. g\<lparr>timestamp := 0\<rparr>) (in_messages m),
      in_queue_len := int (length (in_messages m)), inflight_messages := k, out_messages := os, out_queue_len := int (length os)\<rparr>)
    \<and> map msg os = map msg (out_messages m)"
proof -
  obtain k os where o: "out_reset_loop (max_inflight_messages m) 0 (out_messages m) = (k, os)" by (meson surj_pair)
  have "\<forall>g \<in> set (in_messages m). msg_qos (msg g) = 2" using assms by (simp add: messages_ok_def)
  from in_reset_loop_all[OF this] out_reset_loop_msgs[OF o] show ?thesis
    by (intro exI[of _ os] exI[of _ k]) (simp add: messages_reconnect_reset_def o)
qed

lemma client_ok_net [simp]:
  "client_ok (m\<lparr>connects := cs\<rparr>) = client_ok m" "client_ok (m\<lparr>sock := fd\<rparr>) = client_ok m"
  "client_ok (m\<lparr>reads := r\<rparr>) = client_ok m" "client_ok (m\<lparr>writes := w\<rparr>) = client_ok m"
  "client_ok (m\<lparr>host := h\<rparr>) = client_ok m" "client_ok (m\<lparr>port := pt\<rparr>) = client_ok m" "client_ok (m\<lparr>sockpairR := fd\<rparr>) = client_ok m"
  "client_ok (m\<lparr>max_inflight_messages := n\<rparr>) = client_ok m" "client_ok (m\<lparr>message_retry := t\<rparr>) = client_ok m"
  "client_ok (m\<lparr>protocol := pr\<rparr>) = client_ok m" "client_ok (m\<lparr>now := t\<rparr>) = client_ok m"
  by (simp_all add: client_ok_def body_ok_def packets_ok_def messages_ok_def settings_ok_def outstanding_def)

text \<open>
  An operation that builds a packet: on an error the client is \<open>m\<close>, and otherwise the packet is
  queued in \<open>m'\<close>.
\<close>

lemma build_and_queue:
  assumes "built_ok b" "client_ok m" "client_ok m'" "client_store m' = client_store m"
  shows "\<exists>rc k. map_option (\<lambda>r. case r of Inl rc \<Rightarrow> (rc, m) | Inr p \<Rightarrow> packet_queue p m') b = Some (rc, k)
    \<and> client_ok k \<and> client_store k = client_store m"
proof -
  from assms(1) obtain x where x: "b = Some x" unfolding built_ok_def by blast
  show ?thesis
  proof (cases x)
    case (Inl e)
    then show ?thesis using x assms(2) by simp
  next
    case (Inr p)
    obtain rc k where q: "packet_queue p m' = (rc, k)" by (meson surj_pair)
    note q1 = packet_queue_result[OF q]
    have l: "length (payload p) = packet_length p" using assms(1) x Inr by (simp add: built_ok_def)
    have c: "core k = core m'" using q1 by simp
    have "client_ok k" "client_store k = client_store m"
      using assms(3,4) q1 l core_ok[OF c] core_fields(7)[OF c] store_core[OF c] by (simp_all add: client_ok_def body_ok_def)
    then show ?thesis using x Inr q by simp
  qed
qed

lemma send_connect_ok:
  assumes "client_ok m"
  shows "\<exists>rc m'. send_connect k c m = Some (rc, m') \<and> client_ok m' \<and> client_store m' = client_store m"
proof -
  have s: "settings_ok m" using assms by (simp add: client_ok_def body_ok_def)
  have b: "built_ok (connect_packet (junk m) (protocol m) k c (client_id m) (will m) (username m) (password m))"
    by (rule connect_built) (use s in \<open>simp_all add: settings_ok_def\<close>)
  show ?thesis
    unfolding send_connect_def by (rule build_and_queue[OF b assms]) (use assms in \<open>simp_all add: client_store_def inbox_def outstanding_def\<close>)
qed

text \<open>A new connection brings its own reads; the packet that was being received is dropped.\<close>

definition reconnected :: "mosquitto \<Rightarrow> mosquitto \<Rightarrow> bool" where
  "reconnected m m' \<longleftrightarrow> in_packet m' = packet_cleanup (in_packet m) \<and> set (connects m') \<subseteq> set (connects m)
     \<and> (reads m' = reads m \<or> (\<exists>fd ws. Connects fd (reads m') ws \<in> set (connects m)))"

lemma reconnect_ok:
  assumes "client_ok m"
  shows "\<exists>rc m'. mosquitto_reconnect m = Some (rc, m') \<and> client_ok m' \<and> outstanding m' = outstanding m
    \<and> (m' = m \<or> reconnected m m')"
proof (cases "host m = None \<or> port m \<le> 0")
  case True
  then show ?thesis using assms by (simp add: mosquitto_reconnect_def)
next
  case False
  let ?m = "m\<lparr>cstate := mosq_cs_new, last_msg_in := now m, next_msg_out := now m + uint (keepalive m),
     ping_t := 0, in_packet := packet_cleanup (in_packet m), current_out_packet := None, out_packet := []\<rparr>"
  have m: "messages_ok ?m" "settings_ok ?m" "packets_ok ?m"
    using assms by (simp_all add: client_ok_def body_ok_def messages_ok_def settings_ok_def packets_ok_def outstanding_def)
  obtain os k where r: "messages_reconnect_reset ?m = Some (?m\<lparr>in_messages := map (\<lambda>g. g\<lparr>timestamp := 0\<rparr>) (in_messages ?m),
      in_queue_len := int (length (in_messages ?m)), inflight_messages := k, out_messages := os, out_queue_len := int (length os)\<rparr>)"
    "map msg os = map msg (out_messages ?m)"
    using reconnect_reset_ok[OF m(1)] by (elim exE conjE)
  define m1 where "m1 = ?m\<lparr>in_messages := map (\<lambda>g. g\<lparr>timestamp := 0\<rparr>) (in_messages ?m),
      in_queue_len := int (length (in_messages ?m)), inflight_messages := k, out_messages := os, out_queue_len := int (length os)\<rparr>"
  note r1 = r(1)[folded m1_def]
  have out: "outstanding m1 = outstanding m" using r(2) by (simp add: outstanding_def m1_def)
  have l: "length (outstanding m1) = length os" by (simp add: outstanding_def m1_def)
  have mm: "messages_ok m" using assms by (simp add: client_ok_def body_ok_def)
  have "messages_ok m1" using mm l out unfolding messages_ok_def by (simp add: m1_def)
  moreover have "settings_ok m1" "packets_ok m1" "in_ok (in_packet m1)"
    using m(2,3) by (simp_all add: settings_ok_def packets_ok_def in_ok_def packet_cleanup_def m1_def)
  ultimately have ok1: "client_ok m1" by (simp add: client_ok_def body_ok_def)
  obtain rc m2 where s: "socket_connect m1 = (rc, m2)" by (meson surj_pair)
  have "client_ok (snd (socket_connect m1))" "outstanding (snd (socket_connect m1)) = outstanding m1"
    using ok1 by (simp_all add: socket_connect_def outstanding_def split: list.split connect_event.split)
  then have ok2: "client_ok m2" "outstanding m2 = outstanding m" using s out by simp_all
  have "reconnected m (snd (socket_connect m1))"
    by (simp add: reconnected_def socket_connect_def m1_def split: list.split connect_event.split) blast
  then have rec: "reconnected m m'" if "client_store m' = client_store m2" for m'
    using that s by (simp add: reconnected_def client_store_def inbox_def)
  show ?thesis
  proof (cases "rc = MOSQ_ERR_SUCCESS")
    case True
    have "mosquitto_reconnect m = send_connect (keepalive m2) (clean_session m2) m2"
      unfolding mosquitto_reconnect_def if_not_P[OF False] r1 using s True by simp
    then show ?thesis using send_connect_ok[OF ok2(1), of "keepalive m2" "clean_session m2"] ok2(2) rec store_parts(2) by metis
  next
    case f: False
    have "mosquitto_reconnect m = Some (rc, m2)"
      unfolding mosquitto_reconnect_def if_not_P[OF False] r1 using s f by simp
    then show ?thesis using ok2 rec by simp
  qed
qed

lemma mid_generate_ok:
  assumes "mid_generate m = (mid, m')"
  shows "core m' = core (m\<lparr>last_mid := mid\<rparr>)" "client_ok m \<Longrightarrow> client_ok m'" "mid \<noteq> 0" "outstanding m' = outstanding m"
    "m' = m\<lparr>last_mid := mid\<rparr>" "client_store m' = client_store m"
proof -
  have "m' = m\<lparr>last_mid := mid\<rparr>" "mid \<noteq> 0" using assms by (auto simp: mid_generate_def Let_def split: if_splits)
  then show "core m' = core (m\<lparr>last_mid := mid\<rparr>)" "client_ok m \<Longrightarrow> client_ok m'" "mid \<noteq> 0" "outstanding m' = outstanding m"
    "m' = m\<lparr>last_mid := mid\<rparr>" "client_store m' = client_store m" by (simp_all add: client_store_def inbox_def outstanding_def)
qed

lemma pub_check_length: "pub_check n s = MOSQ_ERR_SUCCESS \<Longrightarrow> n + length s \<le> 65535"
  by (induction n s rule: pub_check.induct) (simp_all split: if_splits)

lemma sub_check_length: "sub_check c n s = MOSQ_ERR_SUCCESS \<Longrightarrow> n + length s \<le> 65535"
  by (induction c n s rule: sub_check.induct) (simp_all split: if_splits)

lemma message_queue_out_ok:
  assumes "message_queue_out a m = (ok, m')" "client_ok m" "msg_ok (msg a)" "msg_qos (msg a) = 1 \<or> msg_qos (msg a) = 2" "msg x = msg a"
  shows "out_messages m' = out_messages m @ [a]" "client_ok m'" "client_ok (m'\<lparr>out_messages := out_messages m @ [x]\<rparr>)"
    "inbox m' = inbox m"
proof -
  let ?m = "m\<lparr>out_queue_len := out_queue_len m + 1, out_messages := out_messages m @ [a]\<rparr>"
  have m': "m' = (if may_send ?m then ?m\<lparr>inflight_messages := inflight_messages m + 1\<rparr> else ?m)"
    using assms(1,4) unfolding message_queue_out_def Let_def by (simp split: if_splits)
  show "out_messages m' = out_messages m @ [a]" "inbox m' = inbox m" unfolding m' by (simp_all add: inbox_def)
  have ok: "client_ok (m\<lparr>out_queue_len := out_queue_len m + 1, out_messages := out_messages m @ [y]\<rparr>)" if "msg y = msg a" for y
    using assms(2-4) that
    by (simp add: client_ok_def body_ok_def packets_ok_def messages_ok_def settings_ok_def outstanding_def)
  then show "client_ok m'" unfolding m' by simp
  have "client_ok (m\<lparr>out_queue_len := out_queue_len m + 1, inflight_messages := inflight_messages m + 1, out_messages := out_messages m @ [x]\<rparr>)"
    using assms(2-5)
    by (simp add: client_ok_def body_ok_def packets_ok_def messages_ok_def settings_ok_def outstanding_def)
  then show "client_ok (m'\<lparr>out_messages := out_messages m @ [x]\<rparr>)" unfolding m' using ok[OF assms(5)] by simp
qed

text \<open>
  A publication that passes the checks and has a quality above 0 becomes the last of the
  outstanding messages, also when it cannot be sent; any other one leaves them.
\<close>

definition accepted :: "string \<Rightarrow> u8 list \<Rightarrow> int \<Rightarrow> bool" where
  "accepted t body q \<longleftrightarrow> 0 \<le> q \<and> q \<le> 2 \<and> t \<noteq> [] \<and> length body \<le> MQTT_MAX_PAYLOAD
     \<and> mosquitto_pub_topic_check t = MOSQ_ERR_SUCCESS"

definition new_message :: "string \<Rightarrow> u8 list \<Rightarrow> int \<Rightarrow> bool \<Rightarrow> mosquitto \<Rightarrow> mosq_message" where
  "new_message t body q r m =
     \<lparr>msg_mid = fst (mid_generate m), msg_topic = t, msg_payload = body, msg_qos = nat q, msg_retain = r\<rparr>"

lemma publish_ok:
  assumes "client_ok m"
  shows "\<exists>rc m'. mosquitto_publish t body q r m = Some (rc, m') \<and> client_ok m' \<and> inbox m' = inbox m
    \<and> outstanding m' = (if accepted t body q \<and> 0 < q then outstanding m @ [new_message t body q r m] else outstanding m)"
proof (cases "accepted t body q")
  case False
  then show ?thesis using assms by (auto simp: mosquitto_publish_def accepted_def)
next
  case acc: True
  then have False: "\<not> (q < 0 \<or> q > 2)" "t \<noteq> []" "\<not> length body > MQTT_MAX_PAYLOAD" "mosquitto_pub_topic_check t = MOSQ_ERR_SUCCESS"
    by (auto simp: accepted_def)
  have t: "length t < 2 ^ 16" using pub_check_length[of 0 t] False by (simp add: mosquitto_pub_topic_check_def)
  obtain mid m1 where i: "mid_generate m = (mid, m1)" by (meson surj_pair)
  note i1 = mid_generate_ok[OF i]
  have ok1: "client_ok m1" using i1 assms by simp
  define g where "g = \<lparr>msg_mid = mid, msg_topic = t, msg_payload = body, msg_qos = nat q, msg_retain = r\<rparr>"
  have new: "new_message t body q r m = g" by (simp add: new_message_def g_def i)
  have g: "msg_ok g" using t False by (simp add: g_def msg_ok_def MQTT_MAX_PAYLOAD_def)
  have snd: "\<exists>rc m'. send_publish g False k = Some (rc, m') \<and> client_ok m' \<and> inbox m' = inbox k \<and> outstanding m' = outstanding k"
    if "client_ok k" for k
  proof -
    obtain rc m' where "send_publish g False k = Some (rc, m')" "core m' = core k"
      using only_sends_publish[OF g, of False k] unfolding only_sends_def by blast
    moreover have "keeps_client (send_publish g False) k" by (rule only_sends_client[OF only_sends_publish[OF g] that])
    ultimately show ?thesis using store_parts[OF store_core[of m' k]] by (auto simp: keeps_client_def)
  qed
  show ?thesis
  proof (cases "q = 0")
    case True
    then have "mosquitto_publish t body q r m = send_publish g False m1"
      using False i by (simp add: mosquitto_publish_def g_def)
    then show ?thesis using snd[OF ok1] store_parts[OF i1(6)] True by simp
  next
    case nz: False
    define a where "a = \<lparr>timestamp = now m1, mstate = mosq_ms_invalid, dup = False, msg = g\<rparr>"
    obtain ok m2 where u: "message_queue_out a m1 = (ok, m2)" by (meson surj_pair)
    let ?a = "a\<lparr>mstate := out_state (nat q) mosq_ms_invalid\<rparr>"
    let ?k = "m2\<lparr>out_messages := out_messages m1 @ [?a]\<rparr>"
    have q: "msg_qos g = 1 \<or> msg_qos g = 2" "int (msg_qos g) = q" "0 < q" using False nz by (auto simp: g_def)
    have "msg a = g" "msg ?a = msg a" by (simp_all add: a_def)
    then have m2: "out_messages m2 = out_messages m1 @ [a]" "client_ok m2" "client_ok ?k" "inbox m2 = inbox m"
      using message_queue_out_ok[OF u ok1, of ?a] g q(1) store_parts(1)[OF i1(6)] by simp_all
    have k: "inbox ?k = inbox m" using m2(4) by (simp add: inbox_def)
    have out: "outstanding m2 = outstanding m @ [g]" "outstanding ?k = outstanding m @ [g]"
      using m2 i1(4) by (simp_all add: outstanding_def a_def)
    have "mosquitto_publish t body q r m = (if ok then send_publish g False ?k else Some (MOSQ_ERR_SUCCESS, m2))"
      using False nz i u by (simp add: mosquitto_publish_def g_def[symmetric] a_def[symmetric] Let_def)
    then show ?thesis using snd[of ?k] m2 k out new q acc by (cases ok) simp_all
  qed
qed

lemma subscribe_ok:
  assumes "client_ok m"
  shows "keeps_client (mosquitto_subscribe sub q) m" "keeps_client (mosquitto_unsubscribe sub) m"
proof -
  obtain mid m1 where i: "mid_generate m = (mid, m1)" by (meson surj_pair)
  note i1 = mid_generate_ok[OF i]
  have ok: "client_ok m1" using i1(2) assms by simp
  have len: "length sub < 2 ^ 16" if "mosquitto_sub_topic_check sub = MOSQ_ERR_SUCCESS"
    using sub_check_length[of "CHR 0x00" 0 sub] that by (simp add: mosquitto_sub_topic_check_def)
  note queue = build_and_queue[OF _ assms ok i1(6)]
  show "keeps_client (mosquitto_subscribe sub q) m"
    using queue[OF subscribe_built[OF len], of "junk m" mid q] assms i
    by (simp add: keeps_client_def mosquitto_subscribe_def send_subscribe_def) blast
  show "keeps_client (mosquitto_unsubscribe sub) m"
    using queue[OF unsubscribe_built[OF len], of "junk m" mid] assms i
    by (simp add: keeps_client_def mosquitto_unsubscribe_def send_unsubscribe_def) blast
qed

subsection \<open>The network loop\<close>

lemma packet_write_ok:
  assumes "packet_write m = (rc, m')" "client_ok m"
  shows "client_ok m'"
  using packet_write_result[OF assms(1)] assms(2) core_ok[of m' m] core_fields(7)[of m' m] by (simp add: client_ok_def body_ok_def)

lemma loop_rc_handle_ok [simp]: "client_ok (snd (loop_rc_handle rc m)) = client_ok m"
  by (simp add: loop_rc_handle_def Let_def)

lemma loop_read_ok: "client_ok m \<Longrightarrow> keeps_client (loop_read_rounds n) m"
proof (induction n arbitrary: m)
  case (Suc n)
  obtain rc m1 where r: "packet_read m = Some (rc, m1)" "client_ok m1" using packet_read_ok[OF Suc.prems] by blast
  obtain rc2 m2 where h: "loop_rc_handle rc m1 = (rc2, m2)" by (meson surj_pair)
  have "client_ok m2" using loop_rc_handle_ok[of rc m1] h r(2) by simp
  then show ?case using Suc.IH[OF r(2)] r h by (simp add: keeps_client_def)
qed (simp add: keeps_client_def)

lemma loop_write_ok: "client_ok m \<Longrightarrow> client_ok (snd (loop_write_rounds n m))"
proof (induction n arbitrary: m)
  case (Suc n)
  obtain rc m1 where w: "packet_write m = (rc, m1)" by (meson surj_pair)
  have "client_ok m1" by (rule packet_write_ok[OF w Suc.prems])
  then show ?case using Suc.IH[of m1] w by simp
qed simp

lemma give_up_ok [simp]: "client_ok (give_up m) = client_ok m"
  by (simp add: give_up_def Let_def)

lemma loop_rc_handle_store [simp]: "client_store (snd (loop_rc_handle rc m)) = client_store m"
  by (simp add: loop_rc_handle_def Let_def)

lemma loop_write_store: "client_store (snd (loop_write_rounds n m)) = client_store m"
proof (induction n arbitrary: m)
  case (Suc n)
  obtain rc m1 where w: "packet_write m = (rc, m1)" by (meson surj_pair)
  have "client_store m1 = client_store m" using store_core packet_write_result[OF w] by blast
  then show ?case using Suc.IH[of m1] w by simp
qed simp

lemma give_up_store [simp]: "client_store (give_up m) = client_store m"
  by (simp add: give_up_def Let_def)

lemma loop_misc_store:
  assumes "client_ok m"
  shows "\<exists>rc m'. mosquitto_loop_misc m = Some (rc, m') \<and> client_ok m' \<and> client_store m' = client_store m"
proof -
  have "only_sends (send_simple_command 0xC0) m" by (rule only_sends_simple)
  then obtain rc m1 where c: "send_simple_command 0xC0 m = Some (rc, m1)" "core m1 = core m"
    unfolding only_sends_def by blast
  have "keeps_client (send_simple_command 0xC0) m" by (rule only_sends_client[OF only_sends_simple assms])
  then have p: "\<exists>m1. map_option snd (send_pingreq m) = Some m1 \<and> client_ok m1 \<and> client_store m1 = client_store m"
    using c store_core[OF c(2)] unfolding keeps_client_def send_pingreq_def by auto
  have "\<exists>m2. check_keepalive m = Some m2 \<and> client_ok m2 \<and> client_store m2 = client_store m" using p assms by (auto simp: check_keepalive_def)
  then obtain m2 where k: "check_keepalive m = Some m2" "client_ok m2" "client_store m2 = client_store m" by blast
  obtain m3 where t: "message_retry_check m2 = Some m3" "client_ok m3" "client_store m3 = client_store m2" using message_retry_check_ok[OF k(2)] by blast
  show ?thesis using assms k t by (simp add: mosquitto_loop_misc_def)
qed

lemma loop_misc_ok: "client_ok m \<Longrightarrow> keeps_client mosquitto_loop_misc m"
  using loop_misc_store[of m] unfolding keeps_client_def by blast

lemma loop_ok:
  assumes "client_ok m"
  shows "keeps_client (mosquitto_loop n) m"
proof (cases "n < 1 \<or> sock m \<ge> 1024 \<or> sockpairR m \<ge> 1024 \<or> sock m = -1")
  case True
  then show ?thesis using assms by (auto simp: keeps_client_def mosquitto_loop_def)
next
  case False
  obtain e m1 where s: "next_select m = (e, m1)" by (meson surj_pair)
  have "client_ok (snd (next_select m))" using assms by (simp add: next_select_def split: list.splits)
  then have ok1: "client_ok m1" using s by simp
  show ?thesis
  proof (cases e)
    case (Ready r pr w)
    have "keeps_client (mosquitto_loop_read n) m1"
      using loop_read_ok[OF ok1] ok1 unfolding keeps_client_def mosquitto_loop_read_def by simp
    then obtain rc1 m2 where l: "(if r then mosquitto_loop_read n m1 else Some (MOSQ_ERR_SUCCESS, m1)) = Some (rc1, m2)" "client_ok m2"
      using ok1 unfolding keeps_client_def by (cases r) auto
    let ?w = "(pr \<and> sockpairR m2 \<noteq> -1) \<or> (w \<and> mosquitto_want_write m)"
    obtain rc2 m3 where x: "(if ?w then mosquitto_loop_write n m2 else (MOSQ_ERR_SUCCESS, m2)) = (rc2, m3)" by (meson surj_pair)
    have "client_ok (snd (if ?w then mosquitto_loop_write n m2 else (MOSQ_ERR_SUCCESS, m2)))"
      using loop_write_ok[OF l(2)] l(2) by (simp add: mosquitto_loop_write_def)
    then have ok3: "client_ok m3" using x by simp
    have m: "mosquitto_loop n m = (if r \<and> (rc1 \<noteq> MOSQ_ERR_SUCCESS \<or> sock m2 = -1) then Some (rc1, m2)
        else if ?w \<and> (rc2 \<noteq> MOSQ_ERR_SUCCESS \<or> sock m3 = -1) then Some (rc2, m3) else mosquitto_loop_misc m3)"
      using False s Ready l(1) x by (simp add: mosquitto_loop_def Let_def cong: if_cong split del: if_split)
    show ?thesis using loop_misc_ok[OF ok3] l(2) ok3 unfolding keeps_client_def m by (auto simp del: One_nat_def)
  qed (use False s ok1 in \<open>simp_all add: keeps_client_def mosquitto_loop_def\<close>)
qed

subsection \<open>Sequences of operations\<close>

text \<open>
  What an application does with a client, and the clock. The texts it passes are shorter than
  \<open>2\<^sup>2\<^sup>8\<close> bytes.
\<close>

datatype mosq_op = Connect string int int | Reconnect | Disconnect | Publish string "u8 list" int bool
  | Subscribe string u8 | Unsubscribe string | Loop int | Loop_read int | Loop_write int | Loop_misc
  | Username_pw_set "string option" "string option" | Will_set string "u8 list" nat bool | Will_clear
  | Connect_callback_set bool | Disconnect_callback_set bool | Publish_callback_set bool
  | Message_callback_set bool | Subscribe_callback_set bool | Unsubscribe_callback_set bool
  | Max_inflight_set int | Retry_set nat | Opts_set int | Clock int

fun run_op :: "mosq_op \<Rightarrow> mosquitto \<Rightarrow> (mosq_err \<times> mosquitto) option" where
  "run_op (Connect h pt ka) m = mosquitto_connect h pt ka m"
| "run_op Reconnect m = mosquitto_reconnect m"
| "run_op Disconnect m = mosquitto_disconnect m"
| "run_op (Publish t body q r) m = mosquitto_publish t body q r m"
| "run_op (Subscribe sub q) m = mosquitto_subscribe sub q m"
| "run_op (Unsubscribe sub) m = mosquitto_unsubscribe sub m"
| "run_op (Loop n) m = mosquitto_loop n m"
| "run_op (Loop_read n) m = mosquitto_loop_read n m"
| "run_op (Loop_write n) m = Some (mosquitto_loop_write n m)"
| "run_op Loop_misc m = mosquitto_loop_misc m"
| "run_op (Username_pw_set u pw) m = Some (mosquitto_username_pw_set u pw m)"
| "run_op (Will_set t body q r) m = Some (mosquitto_will_set t body q r m)"
| "run_op Will_clear m = Some (mosquitto_will_clear m)"
| "run_op (Max_inflight_set n) m = Some (mosquitto_max_inflight_messages_set n m)"
| "run_op (Retry_set n) m = Some (MOSQ_ERR_SUCCESS, mosquitto_message_retry_set n m)"
| "run_op (Opts_set v) m = Some (mosquitto_opts_set v m)"
| "run_op (Connect_callback_set f) m = Some (MOSQ_ERR_SUCCESS, mosquitto_connect_callback_set f m)"
| "run_op (Disconnect_callback_set f) m = Some (MOSQ_ERR_SUCCESS, mosquitto_disconnect_callback_set f m)"
| "run_op (Publish_callback_set f) m = Some (MOSQ_ERR_SUCCESS, mosquitto_publish_callback_set f m)"
| "run_op (Message_callback_set f) m = Some (MOSQ_ERR_SUCCESS, mosquitto_message_callback_set f m)"
| "run_op (Subscribe_callback_set f) m = Some (MOSQ_ERR_SUCCESS, mosquitto_subscribe_callback_set f m)"
| "run_op (Unsubscribe_callback_set f) m = Some (MOSQ_ERR_SUCCESS, mosquitto_unsubscribe_callback_set f m)"
| "run_op (Clock t) m = Some (MOSQ_ERR_SUCCESS, m\<lparr>now := t\<rparr>)"

fun run_ops :: "mosq_op list \<Rightarrow> mosquitto \<Rightarrow> mosquitto option" where
  "run_ops [] m = Some m"
| "run_ops (a # as) m = Option.bind (run_op a m) (\<lambda>(rc, m'). run_ops as m')"

definition short_opt :: "string option \<Rightarrow> bool" where
  "short_opt s \<longleftrightarrow> (\<forall>t \<in> set_option s. length t \<le> 2 ^ 28)"

fun op_ok :: "mosq_op \<Rightarrow> bool" where
  "op_ok (Username_pw_set u pw) = (short_opt u \<and> short_opt pw)"
| "op_ok _ = True"

lemma connect_ok:
  assumes "client_ok m"
  shows "keeps_client (mosquitto_connect h pt ka) m"
proof -
  obtain rc m1 where c: "connect_init h pt ka m = (rc, m1)" by (meson surj_pair)
  have "client_ok (snd (connect_init h pt ka m))" using assms by (simp add: connect_init_def)
  then have "client_ok (m1\<lparr>cstate := mosq_cs_new\<rparr>)" "client_ok m1" using c by simp_all
  then show ?thesis
    using reconnect_ok[of "m1\<lparr>cstate := mosq_cs_new\<rparr>"] c by (simp add: keeps_client_def mosquitto_connect_def) blast
qed

lemma disconnect_ok:
  assumes "client_ok m"
  shows "keeps_client mosquitto_disconnect m"
proof -
  have "client_ok (m\<lparr>cstate := mosq_cs_disconnecting\<rparr>)" using assms by simp
  from only_sends_client[OF only_sends_acks(6) this] assms show ?thesis
    by (simp add: keeps_client_def mosquitto_disconnect_def Let_def)
qed

lemma settings_changes_ok:
  assumes "client_ok m"
  shows "short_opt u \<Longrightarrow> short_opt pw \<Longrightarrow> client_ok (m\<lparr>username := u, password := pw\<rparr>)"
    "\<forall>g \<in> set_option w. length (msg_topic g) \<le> 2 ^ 28 \<and> length (msg_payload g) \<le> 2 ^ 28 \<Longrightarrow> client_ok (m\<lparr>will := w\<rparr>)"
  using assms
  by (simp_all add: client_ok_def body_ok_def packets_ok_def messages_ok_def settings_ok_def outstanding_def short_opt_def)

lemma client_ok_callbacks [simp]:
  "client_ok (m\<lparr>on_connect := f\<rparr>) = client_ok m" "client_ok (m\<lparr>on_disconnect := f\<rparr>) = client_ok m"
  "client_ok (m\<lparr>on_publish := f\<rparr>) = client_ok m" "client_ok (m\<lparr>on_message := f\<rparr>) = client_ok m"
  "client_ok (m\<lparr>on_subscribe := f\<rparr>) = client_ok m" "client_ok (m\<lparr>on_unsubscribe := f\<rparr>) = client_ok m"
  by (simp_all add: client_ok_def body_ok_def packets_ok_def messages_ok_def settings_ok_def outstanding_def)

lemma keeps_clientI: "f m = Some x \<Longrightarrow> client_ok (snd x) \<Longrightarrow> keeps_client f m"
  by (cases x) (simp add: keeps_client_def)

lemma run_op_ok:
  assumes "client_ok m" "op_ok a"
  shows "keeps_client (run_op a) m"
proof (cases a)
  case (Publish t b q r)
  then show ?thesis using publish_ok[OF assms(1), of t b q r] unfolding keeps_client_def by (simp only: run_op.simps) blast
next
  case (Will_set t b q r)
  have "length t \<le> 2 ^ 28" if "mosquitto_pub_topic_check t = MOSQ_ERR_SUCCESS"
    using pub_check_length[of 0 t] that by (simp add: mosquitto_pub_topic_check_def)
  then have "client_ok (snd (mosquitto_will_set t b q r m))"
    using assms(1) settings_changes_ok(2)[OF assms(1)]
    by (cases "MQTT_MAX_PAYLOAD < length b"; cases "mosquitto_pub_topic_check t = MOSQ_ERR_SUCCESS")
      (simp_all add: mosquitto_will_set_def MQTT_MAX_PAYLOAD_def)
  then show ?thesis using Will_set by (intro keeps_clientI[of _ _ "mosquitto_will_set t b q r m"]) simp_all
next
  case (Username_pw_set u pw)
  then have "client_ok (snd (mosquitto_username_pw_set u pw m))"
    using settings_changes_ok(1)[OF assms(1), of u "if u = None then None else pw"] assms(2)
    by (simp add: mosquitto_username_pw_set_def short_opt_def)
  then show ?thesis using Username_pw_set by (intro keeps_clientI[of _ _ "mosquitto_username_pw_set u pw m"]) simp_all
next
  case (Loop_write n)
  then show ?thesis using loop_write_ok[OF assms(1), of "loop_rounds m"] assms(1)
    by (intro keeps_clientI[of _ _ "mosquitto_loop_write n m"]) (simp_all add: mosquitto_loop_write_def)
next
  case (Loop_read n)
  then show ?thesis using loop_read_ok[OF assms(1), of "loop_rounds m"] assms(1)
    by (simp add: keeps_client_def mosquitto_loop_read_def)
next
  case Reconnect
  then show ?thesis using reconnect_ok[OF assms(1)] unfolding keeps_client_def by (simp only: run_op.simps) blast
next
  case (Connect h pt ka)
  then show ?thesis using connect_ok[OF assms(1)] by (simp add: keeps_client_def)
next
  case Disconnect
  then show ?thesis using disconnect_ok[OF assms(1)] by (simp add: keeps_client_def)
next
  case (Subscribe s q)
  then show ?thesis using subscribe_ok(1)[OF assms(1)] by (simp add: keeps_client_def)
next
  case (Unsubscribe s)
  then show ?thesis using subscribe_ok(2)[OF assms(1)] by (simp add: keeps_client_def)
next
  case (Loop n)
  then show ?thesis using loop_ok[OF assms(1)] by (simp add: keeps_client_def)
next
  case Loop_misc
  then show ?thesis using loop_misc_ok[OF assms(1)] by (simp add: keeps_client_def)
next
  case Will_clear
  then show ?thesis using settings_changes_ok(2)[OF assms(1), of None] by (simp add: keeps_client_def mosquitto_will_clear_def)
qed (use assms(1) in \<open>simp_all add: keeps_client_def mosquitto_max_inflight_messages_set_def mosquitto_message_retry_set_def mosquitto_opts_set_def
    mosquitto_connect_callback_set_def mosquitto_disconnect_callback_set_def mosquitto_publish_callback_set_def
    mosquitto_message_callback_set_def mosquitto_subscribe_callback_set_def mosquitto_unsubscribe_callback_set_def\<close>)

lemma run_ops_ok: "client_ok m \<Longrightarrow> \<forall>a \<in> set as. op_ok a \<Longrightarrow> \<exists>m'. run_ops as m = Some m' \<and> client_ok m'"
proof (induction as arbitrary: m)
  case (Cons a as)
  obtain rc m1 where "run_op a m = Some (rc, m1)" "client_ok m1"
    using run_op_ok[OF Cons.prems(1), of a] Cons.prems(2) unfolding keeps_client_def by (metis list.set_intros(1))
  then show ?case using Cons.IH[of m1] Cons.prems(2) by simp
qed simp

lemma new_client_ok:
  assumes "mosquitto_new cid clean w = Some m" "length cid \<le> 2 ^ 28"
  shows "client_ok m"
proof (cases "cid = []")
  case False
  note m = assms(1)[unfolded mosquitto_new_def if_not_P[OF False] option.inject, symmetric]
  show ?thesis unfolding m using assms(2)
    by (simp add: client_ok_def body_ok_def packets_ok_def messages_ok_def settings_ok_def outstanding_def
        in_ok_def packet_cleanup_def calloc_packet_def)
qed (use assms(1) in \<open>simp add: mosquitto_new_def\<close>)

text \<open>
  A client in a world that accepts one connection and answers CONNECT with a CONNACK, in two
  pieces.
\<close>

definition example_world :: mosquitto where
  "example_world =
     \<lparr>sock = -1, sockpairR = -1, protocol = mosq_p_mqtt31, client_id = [], username = None, password = None,
      keepalive = 0, last_mid = 0, cstate = mosq_cs_new, last_msg_in = 0, next_msg_out = 0, ping_t = 0,
      in_packet = calloc_packet, current_out_packet = None, out_packet = [], will = None, clean_session = True,
      in_callback = False, message_retry = 0, last_retry_check = 0, in_messages = [], out_messages = [],
      on_connect = False, on_disconnect = False, on_publish = False, on_message = False, on_subscribe = False,
      on_unsubscribe = False, host = None, port = 0, in_queue_len = 0, out_queue_len = 0, threaded = False,
      inflight_messages = 0, max_inflight_messages = 0, reads = [], writes = [],
      connects = [Connects 5 [Data [32, 2], Read_fails EAGAIN, Data [0, 0]] [Accepts 7, Write_fails EAGAIN]],
      selects = [Ready True False True, Ready True False True], pair_fd = 6, sent = [], now = 1000, errno = E_none,
      junk = 0, calls = []\<rparr>"

definition example_client :: mosquitto where
  "example_client = the (mosquitto_new ''dowse'' True example_world)"

lemma example_client_new: "mosquitto_new ''dowse'' True example_world = Some example_client"
  by (simp add: example_client_def mosquitto_new_def)




definition waiting_client :: mosquitto where
  "waiting_client = example_client\<lparr>sock := 5, cstate := mosq_cs_connected, last_mid := 1, out_queue_len := 1,
     inflight_messages := 1, reads := [Data [64], Data [2, 0], Data [1]],
     out_messages := [\<lparr>timestamp = 1000, mstate = mosq_ms_wait_for_puback, dup = False,
       msg = \<lparr>msg_mid = 1, msg_topic = ''a/b'', msg_payload = [1, 2, 3], msg_qos = 1, msg_retain = False\<rparr>\<rparr>]\<rparr>"

lemmas example_eval = waiting_client_def example_client_def mosquitto_new_def example_world_def calloc_packet_def

lemma waiting_client_ok: "client_ok waiting_client"
  by (simp add: example_eval client_ok_def body_ok_def packets_ok_def messages_ok_def settings_ok_def
      outstanding_def in_ok_def packet_cleanup_def msg_ok_def)

lemma waiting_client_reads:
  "\<exists>m1. receive_packet waiting_client = (None, m1) \<and> command (in_packet m1) = 64 \<and> payload (in_packet m1) = [0, 1]
     \<and> remaining_length (in_packet m1) = 2"
proof -
  let ?p = "packet_cleanup calloc_packet"
  let ?p1 = "?p\<lparr>command := 64\<rparr>"
  let ?p2 = "?p1\<lparr>remaining_count := 1, remaining_mult := 128, remaining_length := 2, to_process := 2, payload := [0, 0]\<rparr>"
  let ?m1 = "waiting_client\<lparr>errno := E_none, reads := [Data [2, 0], Data [1]], in_packet := ?p1\<rparr>"
  let ?m2 = "waiting_client\<lparr>errno := E_none, reads := [Data [0], Data [1]], in_packet := ?p2\<rparr>"
  have c: "read_command waiting_client = (None, ?m1)"
    by (simp add: example_eval read_command_def net_read_def packet_cleanup_def)
  have two: "replicate 2 x = [x, x]" for x :: u8 by (simp add: numeral_2_eq_2)
  have n: "net_read 1 ?m1 = (Some [2], ?m1\<lparr>reads := [Data [0], Data [1]]\<rparr>)" by (simp add: net_read_def)
  have "(5 :: nat) = Suc 4" by simp
  then have "read_length_loop 5 ?m1 = (None, ?m1\<lparr>reads := [Data [0], Data [1]],
      in_packet := ?p1\<lparr>remaining_count := - 1, remaining_mult := 128, remaining_length := 2\<rparr>\<rparr>)"
    by (simp only: read_length_loop.simps n) (simp add: packet_cleanup_def Let_def)
  then have l: "read_remaining_length ?m1 = (None, ?m2)"
    by (simp add: read_remaining_length_def packet_cleanup_def two example_eval)
  have "\<exists>m'. read_payload_loop ?m2 = (None, m') \<and> command (in_packet m') = 64 \<and> payload (in_packet m') = [0, 1]
      \<and> remaining_length (in_packet m') = 2"
    apply (subst read_payload_loop.simps)
    apply (simp add: net_read_def packet_cleanup_def Let_def)
    apply (subst read_payload_loop.simps)
    apply (simp add: net_read_def packet_cleanup_def Let_def)
    apply (subst read_payload_loop.simps)
    apply (simp add: net_read_def packet_cleanup_def Let_def)
    done
  with c l show ?thesis by (simp add: receive_packet_def)
qed

lemma waiting_client_acked: "acked_by waiting_client (outstanding waiting_client) = []"
proof -
  obtain m1 where "receive_packet waiting_client = (None, m1)" "command (in_packet m1) = 64"
    "payload (in_packet m1) = [0, 1]" "remaining_length (in_packet m1) = 2" using waiting_client_reads by blast
  moreover have "sock waiting_client = 5" "cstate waiting_client = mosq_cs_connected" 
     "outstanding waiting_client = [\<lparr>msg_mid = 1, msg_topic = ''a/b'', msg_payload = [1, 2, 3], msg_qos = 1, msg_retain = False\<rparr>]"
    by (simp_all add: example_eval outstanding_def)
  ultimately show ?thesis
    by (simp add: acked_by_def acknowledge_def read_uint16_def PUBACK_def)
qed


end
