(* ===== verification/Mqtt_Roundtrip.thy ===== *)
theory Mqtt_Roundtrip
  imports Mqtt_Safety
begin

text \<open>
  What one MQTT client publishes another one receives: the bytes of a PUBLISH packet that
  \<^verbatim>\<open>_mosquitto_send_real_publish\<close> builds make \<^verbatim>\<open>_mosquitto_packet_read\<close> deliver the same message,
  in whatever pieces they arrive and however often there is nothing to read in between. And
  what an application has published stays in the outbox while the broker is silent, whatever
  happens to the connection.
\<close>

subsection \<open>What arrives on a connection\<close>

text \<open>
  The bytes that the coming reads bring, reads that bring no error other than that there is
  nothing to read yet, and how often there is nothing to read.
\<close>

fun stream :: "read_event list \<Rightarrow> u8 list" where
  "stream [] = []"
| "stream (Data bs # es) = bs @ stream es"
| "stream (Read_fails e # es) = stream es"

fun live_events :: "read_event list \<Rightarrow> bool" where
  "live_events [] = True"
| "live_events (Data bs # es) = (bs \<noteq> [] \<and> live_events es)"
| "live_events (Read_fails e # es) = (e = EAGAIN \<and> live_events es)"

fun gaps :: "read_event list \<Rightarrow> nat" where
  "gaps [] = 0"
| "gaps (Data bs # es) = gaps es"
| "gaps (Read_fails e # es) = Suc (gaps es)"

definition feeds :: "read_event list \<Rightarrow> u8 list \<Rightarrow> nat \<Rightarrow> bool" where
  "feeds es bs g \<longleftrightarrow> live_events es \<and> stream es = bs \<and> gaps es = g"

lemma net_read_feeds:
  assumes "feeds (reads m) bs g" "bs \<noteq> []" "0 < c"
  obtains (gap) es g' where "net_read c m = (None, m\<lparr>errno := EAGAIN, reads := es\<rparr>)" "feeds es bs g'" "g' < g"
  | (data) k es where "0 < k" "k \<le> c" "k \<le> length bs" "net_read c m = (Some (take k bs), m\<lparr>errno := E_none, reads := es\<rparr>)"
      "feeds es (drop k bs) g"
proof (cases "reads m")
  case Nil
  then show thesis using assms by (simp add: feeds_def)
next
  case (Cons e es)
  show thesis
  proof (cases e)
    case (Read_fails x)
    then show thesis using Cons assms gap[of es "gaps es"] by (simp add: net_read_def feeds_def)
  next
    case (Data d)
    let ?k = "min c (length d)"
    let ?es = "if length d \<le> c then es else Data (drop c d) # es"
    have d: "d \<noteq> []" "live_events es" "bs = d @ stream es" "gaps es = g" using Data Cons assms(1) by (auto simp: feeds_def)
    then have "feeds ?es (drop ?k bs) g" by (auto simp: feeds_def min_def)
    moreover have "net_read c m = (Some (take ?k bs), m\<lparr>errno := E_none, reads := ?es\<rparr>)"
      using Data Cons d by (simp add: net_read_def min_def)
    moreover have "0 < ?k" "?k \<le> c" "?k \<le> length bs" using d assms(3) by simp_all
    ultimately show thesis by (intro data)
  qed
qed

subsection \<open>The remaining length\<close>

lemma length_byte:
  assumes "x < 128"
  shows "unat (((word_of_nat x :: u8) OR 128) AND 127) = x" "unat ((word_of_nat x :: u8) AND 127) = x"
    "((word_of_nat x :: u8) OR 128) AND 128 \<noteq> 0" "(word_of_nat x :: u8) AND 128 = 0"
proof -
  have mask: "(127 :: u8) = mask 7" by (simp add: mask_eq_exp_minus_1)
  have "unat ((word_of_nat x :: u8) AND 127) = x mod 256 mod 128"
    by (simp add: mask take_bit_eq_mask[symmetric] unsigned_take_bit_eq take_bit_eq_mod unat_of_nat unat_mod)
  then show u: "unat ((word_of_nat x :: u8) AND 127) = x" using assms by simp
  have "((word_of_nat x :: u8) OR 128) AND 127 = (word_of_nat x AND 127) OR (128 AND 127)" by (rule bit.conj_disj_distrib2)
  then show "unat (((word_of_nat x :: u8) OR 128) AND 127) = x" using u by simp
  have "((word_of_nat x :: u8) OR 128) AND 128 = (word_of_nat x AND 128) OR (128 AND 128)" by (rule bit.conj_disj_distrib2)
  also have "\<dots> = 128" by (simp add: or.commute)
  finally show "((word_of_nat x :: u8) OR 128) AND 128 \<noteq> 0" by simp
  have "(word_of_nat x :: u8) AND 127 = word_of_nat x" using u by (metis of_nat_unat ucast_id)
  then have "(word_of_nat x :: u8) AND 128 = word_of_nat x AND (127 AND 128)" by (metis and.assoc)
  then show "(word_of_nat x :: u8) AND 128 = 0" by simp
qed

text \<open>A packet whose length bytes are being read: \<open>k\<close> of them gave the value \<open>v\<close>.\<close>

definition length_packet :: "mqtt_packet \<Rightarrow> nat \<Rightarrow> nat \<Rightarrow> mqtt_packet" where
  "length_packet q k v = q\<lparr>remaining_count := - int k, remaining_length := v, remaining_mult := 128 ^ k\<rparr>"

lemma length_packet_step:
  fixes v x :: nat
  assumes "k \<le> 3" "v < 128 ^ k" "x < 128"
  shows "(v + x * 128 ^ k) mod 2 ^ 32 = v + x * 128 ^ k" "(128 ^ k * 128) mod 2 ^ 32 = (128 :: nat) ^ Suc k"
    "v + x * 128 ^ k < 128 ^ Suc k"
proof -
  have "v + x * 128 ^ k < Suc x * 128 ^ k" using assms(2) by simp
  also have "\<dots> \<le> 128 * 128 ^ k" using assms(3) by (intro mult_right_mono) simp_all
  finally show l: "v + x * 128 ^ k < 128 ^ Suc k" by simp
  have "(128 :: nat) ^ Suc k \<le> 128 ^ 4" using assms(1) by (intro power_increasing) simp_all
  then have "(128 :: nat) ^ Suc k < 2 ^ 32" by simp
  with l show "(v + x * 128 ^ k) mod 2 ^ 32 = v + x * 128 ^ k" "(128 ^ k * 128) mod 2 ^ 32 = (128 :: nat) ^ Suc k"
    by simp_all
qed

lemma remaining_bytes_cons:
  "\<exists>b. remaining_bytes (Suc f) n = b # (if n div 128 > 0 then remaining_bytes f (n div 128) else [])
     \<and> unat (b AND 127) = n mod 128 \<and> (b AND 128 \<noteq> 0 \<longleftrightarrow> n div 128 > 0)"
proof -
  have x: "n mod 128 < 128" by simp
  let ?b = "word_of_nat (n mod 128) :: u8"
  show ?thesis
    using length_byte[OF x]
    by (intro exI[of _ "if n div 128 > 0 then ?b OR 0x80 else ?b"]) (cases "n div 128 > 0"; simp only: remaining_bytes.simps Let_def if_True if_False; simp)
qed

text \<open>
  Reading the length bytes of the value \<open>whole\<close> either finds nothing more to read, with \<open>n\<close>
  still to come, or finds them all.
\<close>

definition length_outcome :: "mqtt_packet \<Rightarrow> u8 list \<Rightarrow> nat \<Rightarrow> nat \<Rightarrow> mosquitto \<Rightarrow> mosq_err option \<times> mosquitto \<Rightarrow> bool" where
  "length_outcome q bs g whole m r \<longleftrightarrow> read_core (snd r) = read_core m
     \<and> (fst r = Some MOSQ_ERR_SUCCESS \<and> (\<exists>k v n g'. in_packet (snd r) = length_packet q k v \<and> v < 128 ^ k \<and> k \<le> 3
           \<and> n < 128 ^ (4 - k) \<and> v + n * 128 ^ k = whole \<and> feeds (reads (snd r)) (remaining_bytes (5 - k) n @ bs) g' \<and> g' < g)
       \<or> fst r = None \<and> (\<exists>k. in_packet (snd r) = length_packet q k whole \<and> 0 < k \<and> feeds (reads (snd r)) bs g))"

lemma read_length_loop_feeds:
  assumes "feeds (reads m) (remaining_bytes (5 - k) n @ bs) g" "in_packet m = length_packet q k v"
    "k \<le> 3" "n < 128 ^ (4 - k)" "v < 128 ^ k" "4 - k \<le> r"
  shows "length_outcome q bs g (v + n * 128 ^ k) m (read_length_loop r m)"
  using assms
proof (induction r arbitrary: m k n v)
  case (Suc r)
  have five: "Suc (4 - k) = 5 - k" using Suc.prems(3) by simp
  obtain b where b: "remaining_bytes (5 - k) n = b # (if n div 128 > 0 then remaining_bytes (4 - k) (n div 128) else [])"
    "unat (b AND 127) = n mod 128" "b AND 128 \<noteq> 0 \<longleftrightarrow> n div 128 > 0"
    using remaining_bytes_cons[of "4 - k" n] unfolding five by (elim exE conjE)
  let ?v = "v + n mod 128 * 128 ^ k"
  note v = length_packet_step[OF Suc.prems(3,5), of "n mod 128", simplified mod_less_divisor]
  have "remaining_bytes (5 - k) n @ bs \<noteq> []" using b(1) by simp
  from Suc.prems(1) this zero_less_one show ?case
  proof (cases rule: net_read_feeds)
    case (gap es g')
    then have "read_length_loop (Suc r) m = (Some MOSQ_ERR_SUCCESS, m\<lparr>errno := EAGAIN, reads := es\<rparr>)"
      by (simp add: read_rc_def)
    then show ?thesis using Suc.prems gap unfolding length_outcome_def
      by (simp del: remaining_bytes.simps read_length_loop.simps) blast
  next
    case (data i es)
    then have i: "i = 1" by simp
    let ?m = "m\<lparr>errno := E_none, reads := es, in_packet := length_packet q (Suc k) ?v\<rparr>"
    have n: "net_read 1 m = (Some [b], m\<lparr>errno := E_none, reads := es\<rparr>)" using data(4) i b(1) by simp
    have c: "- int k - 1 = - int (Suc k)" by simp
    have step: "read_length_loop (Suc r) m = (if n div 128 > 0 then read_length_loop r ?m else (None, ?m))"
      unfolding read_length_loop.simps n
      using Suc.prems(2,3) v b(2,3) by (simp add: length_packet_def Let_def c del: of_nat_Suc)
    show ?thesis
    proof (cases "n div 128 > 0")
      case True
      then have "128 ^ 1 \<le> n" by (simp add: div_greater_zero_iff)
      then have k: "k < 3" using Suc.prems(3,4) by (cases "k = 3") simp_all
      have "n div 128 < 128 ^ (4 - Suc k)"
        using Suc.prems(4) k by (simp add: less_mult_imp_div_less Suc_diff_Suc[symmetric])
      moreover have "feeds (reads ?m) (remaining_bytes (5 - Suc k) (n div 128) @ bs) g"
        using data(5) i b(1) True by (simp del: remaining_bytes.simps)
      ultimately have "length_outcome q bs g (?v + n div 128 * 128 ^ Suc k) ?m (read_length_loop r ?m)"
        using Suc.IH[of ?m "Suc k" "n div 128" ?v] k v(3) Suc.prems(6) by (simp del: remaining_bytes.simps)
      moreover have "a * 128 ^ k + c * 128 ^ Suc k = (a + c * 128) * 128 ^ k" for a c :: nat by (simp add: algebra_simps)
      then have "?v + n div 128 * 128 ^ Suc k = v + n * 128 ^ k" by (simp only: add.assoc mod_div_mult_eq)
      ultimately show ?thesis using True step by (simp only: if_True length_outcome_def read_core_updates)
    next
      case False
      then have "n mod 128 = n" by (simp add: div_eq_0_iff)
      then show ?thesis using step False data(5) i b(1) unfolding length_outcome_def
        by (simp del: remaining_bytes.simps read_length_loop.simps) blast
    qed
  qed
qed simp

subsection \<open>The rest of a packet\<close>

text \<open>A packet with the contents \<open>pl\<close> of which \<open>i\<close> bytes have been read into the buffer.\<close>

definition body_packet :: "mqtt_packet \<Rightarrow> u8 \<Rightarrow> u8 list \<Rightarrow> nat \<Rightarrow> mqtt_packet" where
  "body_packet q j pl i = q\<lparr>payload := take i pl @ replicate (length pl - i) j, to_process := length pl - i, pos := i\<rparr>"

definition body_outcome :: "mqtt_packet \<Rightarrow> u8 \<Rightarrow> u8 list \<Rightarrow> u8 list \<Rightarrow> nat \<Rightarrow> mosquitto \<Rightarrow> mosq_err option \<times> mosquitto \<Rightarrow> bool" where
  "body_outcome q j pl bs g m r \<longleftrightarrow> read_core (snd r) = read_core m
     \<and> (fst r = Some MOSQ_ERR_SUCCESS \<and> (\<exists>i g'. in_packet (snd r) = body_packet q j pl i \<and> i < length pl
           \<and> feeds (reads (snd r)) (drop i pl @ bs) g' \<and> g' < g)
       \<or> fst r = None \<and> in_packet (snd r) = body_packet q j pl (length pl) \<and> feeds (reads (snd r)) bs g)"

lemma read_payload_loop_feeds:
  assumes "feeds (reads m) (drop i pl @ bs) g" "in_packet m = body_packet q j pl i" "i \<le> length pl"
  shows "body_outcome q j pl bs g m (read_payload_loop m)"
  using assms
proof (induction "length pl - i" arbitrary: m i rule: less_induct)
  case less
  show ?case
  proof (cases "i < length pl")
    case False
    then show ?thesis using less.prems by (subst read_payload_loop.simps) (simp add: body_outcome_def body_packet_def)
  next
    case True
    then have "drop i pl @ bs \<noteq> []" "0 < length pl - i" by simp_all
    from less.prems(1) this show ?thesis
    proof (cases rule: net_read_feeds)
      case (gap es g')
      then show ?thesis using less.prems True
        by (subst read_payload_loop.simps) (auto simp: body_outcome_def body_packet_def Let_def)
    next
      case (data k es)
      have t: "take k (drop i pl @ bs) = take k (drop i pl)" "k \<le> length pl - i" using data(2) by simp_all
      have "length (take k (drop i pl)) = k" using t(2) by simp
      with data(1) obtain b cs where b: "take k (drop i pl) = b # cs" "k = Suc (length cs)"
        by (metis length_Cons length_greater_0_conv neq_Nil_conv)
      let ?m = "m\<lparr>errno := E_none, reads := es, in_packet := body_packet q j pl (i + k)\<rparr>"
      have "take (i + k) pl = take i pl @ b # cs" using b(1) by (simp add: take_add)
      then have "read_payload_loop m = read_payload_loop ?m"
        using less.prems True data t b
        by (subst read_payload_loop.simps) (simp add: body_packet_def Let_def)
      moreover have "body_outcome q j pl bs g ?m (read_payload_loop ?m)"
        by (rule less.hyps[of "i + k"]) (use less.prems True data t in \<open>simp_all add: add.commute\<close>)
      ultimately show ?thesis by (simp add: body_outcome_def)
    qed
  qed
qed

subsection \<open>The three phases\<close>

text \<open>
  A packet with command \<open>c\<close> and contents \<open>pl\<close> while it arrives, and the bytes of it that are
  still to come; \<open>q\<close> is the packet in its initial state.
\<close>

definition full_packet :: "mqtt_packet \<Rightarrow> nat \<Rightarrow> nat \<Rightarrow> mqtt_packet" where
  "full_packet q k n = q\<lparr>remaining_count := int k, remaining_length := n, remaining_mult := 128 ^ k\<rparr>"

inductive arriving :: "mqtt_packet \<Rightarrow> u8 \<Rightarrow> u8 \<Rightarrow> u8 list \<Rightarrow> mqtt_packet \<Rightarrow> u8 list \<Rightarrow> bool" for q c j pl where
  start: "arriving q c j pl q (c # remaining_bytes 5 (length pl) @ pl)"
| len: "k \<le> 3 \<Longrightarrow> n < 128 ^ (4 - k) \<Longrightarrow> v < 128 ^ k \<Longrightarrow> v + n * 128 ^ k = length pl
    \<Longrightarrow> arriving q c j pl (length_packet (q\<lparr>command := c\<rparr>) k v) (remaining_bytes (5 - k) n @ pl)"
| body: "0 < k \<Longrightarrow> i < length pl
    \<Longrightarrow> arriving q c j pl (body_packet (full_packet (q\<lparr>command := c\<rparr>) k (length pl)) j pl i) (drop i pl)"

definition arrival :: "mqtt_packet \<Rightarrow> u8 \<Rightarrow> u8 \<Rightarrow> u8 list \<Rightarrow> u8 list \<Rightarrow> nat \<Rightarrow> mosquitto \<Rightarrow> mosq_err option \<times> mosquitto \<Rightarrow> bool" where
  "arrival q c j pl rest g m r \<longleftrightarrow> read_core (snd r) = read_core m
     \<and> (fst r = Some MOSQ_ERR_SUCCESS \<and> (\<exists>bs g'. arriving q c j pl (in_packet (snd r)) bs
           \<and> feeds (reads (snd r)) (bs @ rest) g' \<and> g' < g)
       \<or> fst r = None \<and> (\<exists>k. in_packet (snd r) = body_packet (full_packet (q\<lparr>command := c\<rparr>) k (length pl)) j pl (length pl))
           \<and> feeds (reads (snd r)) rest g)"

lemma arrival_body:
  assumes "in_packet m = body_packet (full_packet (q\<lparr>command := c\<rparr>) k (length pl)) j pl i" "0 < k" "i \<le> length pl"
    "feeds (reads m) (drop i pl @ rest) g"
  shows "arrival q c j pl rest g m (read_payload_loop m)"
proof -
  let ?r = "read_payload_loop m" and ?q = "full_packet (q\<lparr>command := c\<rparr>) k (length pl)"
  have o: "body_outcome ?q j pl rest g m ?r" by (rule read_payload_loop_feeds[OF assms(4,1,3)])
  then have "read_core (snd ?r) = read_core m" by (simp add: body_outcome_def)
  moreover have "\<exists>bs g'. arriving q c j pl (in_packet (snd ?r)) bs \<and> feeds (reads (snd ?r)) (bs @ rest) g' \<and> g' < g"
    if stop: "fst ?r \<noteq> None"
  proof -
    obtain i' g' where "in_packet (snd ?r) = body_packet ?q j pl i'" "i' < length pl" "feeds (reads (snd ?r)) (drop i' pl @ rest) g'" "g' < g"
      using o stop unfolding body_outcome_def by (elim conjE disjE exE) simp_all
    then show ?thesis using arriving.body[OF assms(2), of i' pl q c j] by (intro exI[of _ "drop i' pl"] exI[of _ g']) simp
  qed
  ultimately show ?thesis using o by (auto simp: arrival_def body_outcome_def)
qed

lemma receive_after_command:
  "command (in_packet m) \<noteq> 0 \<Longrightarrow> receive_packet m =
     (case read_remaining_length m of (Some rc, m2) \<Rightarrow> (Some rc, m2) | (None, m2) \<Rightarrow> read_payload_loop m2)"
  by (simp add: receive_packet_def read_command_def)

lemma arrival_len:
  assumes "in_packet m = length_packet (q\<lparr>command := c\<rparr>) k v" "k \<le> 3" "n < 128 ^ (4 - k)" "v < 128 ^ k"
    "v + n * 128 ^ k = length pl" "feeds (reads m) (remaining_bytes (5 - k) n @ pl @ rest) g"
    "c \<noteq> 0" "j = junk m" "pl \<noteq> []" "pos q = 0"
  shows "arrival q c j pl rest g m (receive_packet m)"
proof -
  obtain x m1 where l: "read_length_loop 5 m = (x, m1)" by (meson surj_pair)
  have o: "length_outcome (q\<lparr>command := c\<rparr>) (pl @ rest) g (length pl) m (x, m1)"
    using read_length_loop_feeds[OF assms(6,1,2,3,4), of 5] l assms(5) by simp
  have c: "receive_packet m = (case read_remaining_length m of (Some rc, m2) \<Rightarrow> (Some rc, m2) | (None, m2) \<Rightarrow> read_payload_loop m2)"
    using assms(1,7) by (intro receive_after_command) (simp add: length_packet_def)
  have z: "\<not> remaining_count (in_packet m) > 0" using assms(1) by (simp add: length_packet_def)
  show ?thesis
  proof (cases x)
    case (Some rc)
    then have "receive_packet m = (x, m1)" using c z l by (simp add: read_remaining_length_def)
    moreover have "arrival q c j pl rest g m (x, m1)"
    proof -
      obtain k' v' n' g' where l: "in_packet m1 = length_packet (q\<lparr>command := c\<rparr>) k' v'" "v' < 128 ^ k'" "k' \<le> 3" "n' < 128 ^ (4 - k')"
        "v' + n' * 128 ^ k' = length pl" "feeds (reads m1) (remaining_bytes (5 - k') n' @ pl @ rest) g'" "g' < g"
        "x = Some MOSQ_ERR_SUCCESS" "read_core m1 = read_core m"
        using o Some unfolding length_outcome_def fst_conv snd_conv by (elim conjE disjE exE) simp_all
      then show ?thesis using arriving.len[OF l(3,4,2,5), of q c j] unfolding arrival_def
        by (simp del: remaining_bytes.simps) (rule exI[of _ "remaining_bytes (5 - k') n' @ pl"], simp del: remaining_bytes.simps, blast)
    qed
    ultimately show ?thesis by simp
  next
    case None
    then obtain k' where k: "in_packet m1 = length_packet (q\<lparr>command := c\<rparr>) k' (length pl)" "0 < k'"
      "feeds (reads m1) (pl @ rest) g" "read_core m1 = read_core m" using o unfolding length_outcome_def by auto
    let ?m = "m1\<lparr>in_packet := body_packet (full_packet (q\<lparr>command := c\<rparr>) k' (length pl)) j pl 0\<rparr>"
    have "read_remaining_length m = (None, ?m)"
      using z l None k(1) assms(8-10) read_core_ok(3)[OF k(4)]
      by (simp add: read_remaining_length_def length_packet_def body_packet_def full_packet_def)
    then have "receive_packet m = read_payload_loop ?m" using c by simp
    moreover have "arrival q c j pl rest g ?m (read_payload_loop ?m)"
      by (rule arrival_body[where i = 0 and k = k']) (use k in simp_all)
    ultimately show ?thesis using k(4) by (simp add: arrival_def)
  qed
qed

definition initial_packet :: "mqtt_packet \<Rightarrow> bool" where
  "initial_packet q \<longleftrightarrow> command q = 0 \<and> remaining_count q = 0 \<and> remaining_length q = 0 \<and> remaining_mult q = 1 \<and> pos q = 0"

lemma receive_packet_arrival:
  assumes "arriving q c j pl (in_packet m) bs" "feeds (reads m) (bs @ rest) g" "initial_packet q" "c \<noteq> 0" "j = junk m"
    "pl \<noteq> []" "length pl < 128 ^ 4"
  shows "arrival q c j pl rest g m (receive_packet m)"
  using assms(1)
proof cases
  case (body k i)
  have "receive_packet m = read_payload_loop m"
    using body assms(4) by (subst receive_after_command) (simp_all add: read_remaining_length_def body_packet_def full_packet_def)
  moreover have "arrival q c j pl rest g m (read_payload_loop m)"
    by (rule arrival_body[OF body(1,3)]) (use body assms(2) in simp_all)
  ultimately show ?thesis by simp
next
  case (len k n v)
  then show ?thesis by (intro arrival_len) (use assms in \<open>simp_all add: initial_packet_def del: remaining_bytes.simps\<close>)
next
  case start
  have "feeds (reads m) (c # remaining_bytes 5 (length pl) @ pl @ rest) g" using assms(2) start by simp
  from this list.distinct(2) zero_less_one show ?thesis
  proof (cases rule: net_read_feeds)
    case (gap es g')
    then have "receive_packet m = (Some MOSQ_ERR_SUCCESS, m\<lparr>errno := EAGAIN, reads := es\<rparr>)"
      using start assms(3) by (simp add: receive_packet_def read_command_def read_rc_def initial_packet_def)
    then show ?thesis using gap start arriving.start[of q c j pl] unfolding arrival_def
      by (simp del: remaining_bytes.simps) (rule exI[of _ "c # remaining_bytes 5 (length pl) @ pl"], simp del: remaining_bytes.simps, blast)
  next
    case (data k es)
    then have k: "k = 1" by simp
    let ?m = "m\<lparr>errno := E_none, reads := es, in_packet := length_packet (q\<lparr>command := c\<rparr>) 0 0\<rparr>"
    have q: "length_packet (q\<lparr>command := c\<rparr>) 0 0 = q\<lparr>command := c\<rparr>"
      using assms(3) by (cases q) (simp add: length_packet_def initial_packet_def)
    then have "read_command m = (None, ?m)"
      using data(4) k start assms(3) by (simp add: read_command_def initial_packet_def)
    moreover have "read_command ?m = (None, ?m)" using assms(4) by (simp add: read_command_def length_packet_def)
    ultimately have "receive_packet m = receive_packet ?m" by (simp add: receive_packet_def)
    moreover have "arrival q c j pl rest g ?m (receive_packet ?m)"
      by (rule arrival_len[of _ _ _ 0 0 "length pl"])
        (use data(5) k assms in \<open>simp_all add: initial_packet_def del: remaining_bytes.simps\<close>)
    ultimately show ?thesis by (simp add: arrival_def)
  qed
qed

subsection \<open>Decoding\<close>

lemma unat_u16_bytes: "unat (MOSQ_MSB w) = unat w div 256" "unat (MOSQ_LSB w) = unat w mod 256"
proof -
  have w: "unat w < 65536" using unsigned_less[of w, where ?'a = nat] by simp
  have mask: "(255 :: u16) = mask 8" by (simp add: mask_eq_exp_minus_1)
  have "drop_bit 8 (w AND 0xFF00) = drop_bit 8 w AND 255" by (simp add: drop_bit_and)
  then have "unat (drop_bit 8 (w AND 0xFF00)) = unat w div 256 mod 256"
    by (simp add: mask take_bit_eq_mask[symmetric] unsigned_take_bit_eq take_bit_eq_mod unat_drop_bit_eq drop_bit_eq_div unat_mod unat_div)
  then show "unat (MOSQ_MSB w) = unat w div 256" using w by (simp add: MOSQ_MSB_def unsigned_ucast_eq take_bit_eq_mod)
  have "unat (w AND 255) = unat w mod 256" by (simp add: mask take_bit_eq_mask[symmetric] take_bit_eq_mod unat_mod)
  then show "unat (MOSQ_LSB w) = unat w mod 256" by (simp add: MOSQ_LSB_def unsigned_ucast_eq take_bit_eq_mod)
qed

lemma decode_u16: "push_bit 8 (ucast (MOSQ_MSB w)) + ucast (MOSQ_LSB w) = w"
proof -
  have w: "unat w < 65536" using unsigned_less[of w, where ?'a = nat] by simp
  have "unat (push_bit 8 (ucast (MOSQ_MSB w) :: u16)) = unat w div 256 * 256"
    using w by (simp add: push_bit_eq_mult unat_mult_lem unat_word_ariths unsigned_ucast_eq take_bit_eq_mod unat_u16_bytes mult.commute)
  moreover have "unat (ucast (MOSQ_LSB w) :: u16) = unat w mod 256"
    by (simp add: unsigned_ucast_eq take_bit_eq_mod unat_u16_bytes)
  ultimately show ?thesis using w by (simp add: word_unat_eq_iff unat_word_ariths)
qed

lemma read_uint16_enc:
  assumes "drop (pos p) (payload p) = enc16 w @ bs" "remaining_length p = length (payload p)"
  shows "read_uint16 p = Inr (w, p\<lparr>pos := pos p + 2\<rparr>)"
proof -
  have "length (drop (pos p) (payload p)) = 2 + length bs" unfolding assms(1) by (simp add: enc16_def)
  then have l: "length (payload p) = pos p + 2 + length bs" by simp
  have "payload p ! pos p = drop (pos p) (payload p) ! 0" "payload p ! (pos p + 1) = drop (pos p) (payload p) ! 1"
    using l by simp_all
  then show ?thesis using l assms by (simp add: read_uint16_def enc16_def decode_u16)
qed

lemma read_string_enc:
  assumes "drop (pos p) (payload p) = enc_text s @ bs" "remaining_length p = length (payload p)" "length s < 2 ^ 16"
  shows "read_string p = Inr (string_of_bytes s, p\<lparr>pos := pos p + 2 + length s\<rparr>)"
proof -
  have d: "drop (pos p) (payload p) = enc16 (word_of_nat (length s)) @ s @ bs" using assms by (simp add: enc_text_small)
  have "length (drop (pos p) (payload p)) = 2 + length s + length bs" unfolding d by (simp add: enc16_def)
  then have l: "length (payload p) = pos p + 2 + length s + length bs" by simp
  have "drop (pos p + 2) (payload p) = s @ bs"
    using arg_cong[OF d, of "drop 2"] by (simp add: enc16_def add.commute)
  then show ?thesis
    using read_uint16_enc[OF d assms(2)] assms(2,3) l by (simp add: read_string_def unat_of_nat)
qed

lemma publish_command_fields:
  assumes "q \<le> 2"
  shows "publish_command q r d AND 8 \<noteq> 0 \<longleftrightarrow> d" "unat (drop_bit 1 (publish_command q r d AND 6)) = q"
    "publish_command q r d AND 1 \<noteq> 0 \<longleftrightarrow> r" "publish_command q r d AND 0xF0 = PUBLISH" "publish_command q r d \<noteq> 0"
proof -
  have "q = 0 \<or> q = 1 \<or> q = 2" using assms by linarith
  then show "publish_command q r d AND 8 \<noteq> 0 \<longleftrightarrow> d" "unat (drop_bit 1 (publish_command q r d AND 6)) = q"
    "publish_command q r d AND 1 \<noteq> 0 \<longleftrightarrow> r" "publish_command q r d AND 0xF0 = PUBLISH" "publish_command q r d \<noteq> 0"
    by (elim disjE; cases r; cases d; simp add: publish_command_def PUBLISH_def push_bit_eq_mult drop_bit_eq_div)+
qed

lemma parse_publish_rest:
  assumes "command p = publish_command q r d" "payload p = publish_rest mid t body q" "remaining_length p = length (payload p)"
    "pos p = 0" "q \<le> 2" "length t < 2 ^ 16" "t \<noteq> []" "CHR 0x00 \<notin> set t"
  shows "parse_publish p = Inr ((d, \<lparr>msg_mid = (if q > 0 then mid else 0), msg_topic = t, msg_payload = body, msg_qos = q, msg_retain = r\<rparr>),
    p\<lparr>pos := length (payload p)\<rparr>)"
proof -
  let ?s = "bytes_of_string t"
  have s: "drop (pos p) (payload p) = enc_text ?s @ (if q > 0 then enc16 mid else []) @ body" using assms(2,4) by (simp add: publish_rest_def)
  have c: "cstr t = t" using assms(8) by (auto simp: cstr_def takeWhile_eq_all_conv)
  have st: "read_string p = Inr (t, p\<lparr>pos := 2 + length t\<rparr>)"
    using read_string_enc[OF s assms(3)] assms(4,6) by simp
  let ?p1 = "p\<lparr>pos := 2 + length t\<rparr>"
  have d1: "drop (2 + length t) (payload p) = (if q > 0 then enc16 mid else []) @ body"
    using assms(2,6) by (simp add: publish_rest_def enc_text_small enc16_def)
  have l: "length (payload p) = 2 + length t + (if q > 0 then 2 else 0) + length body"
    using assms(2,6) publish_rest_length[of t mid body q] by (simp add: publish_length_def)
  note f = publish_command_fields[OF assms(5), of r d]
  show ?thesis
  proof (cases "q = 0")
    case True
    then show ?thesis using c st d1 l f assms(1,3,7) by (simp add: parse_publish_def read_bytes_def Let_def)
  next
    case False
    have "read_uint16 ?p1 = Inr (mid, p\<lparr>pos := 4 + length t\<rparr>)"
      using read_uint16_enc[of ?p1 mid body] d1 False assms(3) by simp
    moreover have "drop (4 + length t) (payload p) = body"
      using arg_cong[OF d1, of "drop 2"] False by (simp add: enc16_def numeral_eq_Suc)
    ultimately show ?thesis using False c st l f assms(1,3,7) by (simp add: parse_publish_def read_bytes_def Let_def)
  qed
qed

subsection \<open>Delivery\<close>

text \<open>Reading as long as there is nothing to read.\<close>

fun polls :: "nat \<Rightarrow> mosquitto \<Rightarrow> mosquitto option" where
  "polls 0 m = Some m"
| "polls (Suc n) m =
     Option.bind (packet_read m) (\<lambda>(rc, m1). if rc = MOSQ_ERR_SUCCESS then polls n m1 else None)"

lemma polls_arrive:
  assumes "arriving q c (junk m) pl (in_packet m) bs" "feeds (reads m) (bs @ rest) g" "initial_packet q" "c \<noteq> 0"
    "pl \<noteq> []" "length pl < 128 ^ 4" "sock m \<noteq> -1" "cstate m \<noteq> mosq_cs_connect_pending"
  shows "\<exists>n m1 m2 k g'. n \<le> g \<and> polls n m = Some m1 \<and> read_core m1 = read_core m \<and> receive_packet m1 = (None, m2)
    \<and> read_core m2 = read_core m \<and> in_packet m2 = body_packet (full_packet (q\<lparr>command := c\<rparr>) k (length pl)) (junk m) pl (length pl)
    \<and> feeds (reads m2) rest g'"
  using assms
proof (induction g arbitrary: m bs rule: less_induct)
  case (less g)
  obtain r m1 where r: "receive_packet m = (r, m1)" by (meson surj_pair)
  have a: "arrival q c (junk m) pl rest g m (r, m1)"
    using receive_packet_arrival[OF less.prems(1-4) refl less.prems(5,6)] r by simp
  show ?case
  proof (cases r)
    case None
    then obtain k where "in_packet m1 = body_packet (full_packet (q\<lparr>command := c\<rparr>) k (length pl)) (junk m) pl (length pl)"
      "feeds (reads m1) rest g" "read_core m1 = read_core m" using a unfolding arrival_def by auto
    then show ?thesis using None r
      by (intro exI[of _ "0 :: nat"] exI[of _ m] exI[of _ m1] exI[of _ k] exI[of _ g]) simp
  next
    case (Some x)
    then obtain bs' g' where s: "x = MOSQ_ERR_SUCCESS" "arriving q c (junk m) pl (in_packet m1) bs'" "feeds (reads m1) (bs' @ rest) g'"
      "g' < g" "read_core m1 = read_core m" using a unfolding arrival_def by auto
    note c = read_core_ok[OF s(5)]
    obtain n m2 m3 k g2 where i: "n \<le> g'" "polls n m1 = Some m2" "read_core m2 = read_core m1" "receive_packet m2 = (None, m3)"
      "read_core m3 = read_core m1" "in_packet m3 = body_packet (full_packet (q\<lparr>command := c\<rparr>) k (length pl)) (junk m1) pl (length pl)"
      "feeds (reads m3) rest g2"
      using less.IH[OF s(4), of m1 bs'] s less.prems c by auto
    have "polls (Suc n) m = Some m2" using i(2) r Some s(1) less.prems(7,8) by (simp add: packet_read_def)
    then show ?thesis using i s c by (intro exI[of _ "Suc n"] exI[of _ m2] exI[of _ m3] exI[of _ k] exI[of _ g2]) simp
  qed
qed

definition published :: "u16 \<Rightarrow> string \<Rightarrow> u8 list \<Rightarrow> nat \<Rightarrow> bool \<Rightarrow> mosq_message" where
  "published mid t body q r =
     \<lparr>msg_mid = (if q > 0 then mid else 0), msg_topic = t, msg_payload = body, msg_qos = q, msg_retain = r\<rparr>"

text \<open>The message reaches the application, or waits for the end of the handshake of quality 2.\<close>

definition delivered :: "mosq_message \<Rightarrow> bool \<Rightarrow> mosquitto \<Rightarrow> mosquitto \<Rightarrow> bool" where
  "delivered g d m m' \<longleftrightarrow>
     (if msg_qos g < 2 then on_message m \<longrightarrow> (\<exists>cs. calls m' = cs @ [On_message g])
      else in_messages m' = in_messages m @ [\<lparr>timestamp = now m, mstate = mosq_ms_wait_for_pubrel, dup = d, msg = g\<rparr>])"

lemma packet_handle_delivers:
  assumes "parse_publish (in_packet m) = Inr ((d, g), p)" "msg_qos g \<le> 2" "command (in_packet m) AND 0xF0 = PUBLISH"
  shows "\<exists>rc m'. packet_handle m = Some (rc, m') \<and> reads m' = reads m \<and> delivered g d m m'"
proof -
  have h: "packet_handle m = handle_publish m"
    using assms(3) by (simp add: packet_handle_def PUBLISH_def PUBACK_def PUBCOMP_def)
  let ?m = "m\<lparr>in_packet := p\<rparr>"
  consider "msg_qos g = 0" | "msg_qos g = 1" | "msg_qos g = 2" using assms(2) by linarith
  then show ?thesis
  proof cases
    case 1
    then show ?thesis using h assms(1) by (simp add: handle_publish_def delivered_def callback_def Let_def)
  next
    case 2
    obtain rc m1 where s: "send_puback (msg_mid g) ?m = Some (rc, m1)" "core m1 = core ?m"
      using only_sends_acks(1)[of "msg_mid g" ?m] unfolding only_sends_def by blast
    then show ?thesis using 2 h assms(1) core_fields[OF s(2)] by (simp add: handle_publish_def delivered_def callback_def Let_def)
  next
    case 3
    obtain rc m1 where s: "send_pubrec (msg_mid g) ?m = Some (rc, m1)" "core m1 = core ?m"
      using only_sends_acks(2)[of "msg_mid g" ?m] unfolding only_sends_def by blast
    then show ?thesis using 3 h assms(1) core_fields[OF s(2)] by (simp add: handle_publish_def delivered_def message_queue_in_def Let_def)
  qed
qed

lemma publish_packet_size:
  assumes "publish_packet j mid t body q r d = Some (Inr p)" "length t < 2 ^ 16" "length body \<le> MQTT_MAX_PAYLOAD"
  shows "publish_length t body q < 128 ^ 4"
    "payload p = publish_command q r d # remaining_bytes 5 (publish_length t body q) @ publish_rest mid t body q"
proof -
  show l: "publish_length t body q < 128 ^ 4"
  proof (rule ccontr)
    assume "\<not> publish_length t body q < 128 ^ 4"
    then show False using publish_packet_large[of t body q j mid r d] assms
      by (simp add: publish_length_def MQTT_MAX_PAYLOAD_def split: if_splits)
  qed
  show "payload p = publish_command q r d # remaining_bytes 5 (publish_length t body q) @ publish_rest mid t body q"
    using publish_packet_bytes[OF assms(2) l, of j mid r d] assms(1) by auto
qed

text \<open>
  C11. A PUBLISH packet comes through. Another client that waits for a packet reads its bytes,
  in any pieces and with any number of moments in which nothing is there. After at most as
  many calls of the reading function as there are such moments, each successful and without
  effect for the application, one more call delivers the message: same topic, payload,
  quality and retain flag, and the same identifier if it has one. A message of quality 2 is
  queued until its release. The bytes behind the packet are still unread.
\<close>

theorem publish_roundtrip:
  assumes "publish_packet j mid t body q r d = Some (Inr p)" "mosquitto_pub_topic_check t = MOSQ_ERR_SUCCESS"
    "t \<noteq> []" "CHR 0x00 \<notin> set t" "length body \<le> MQTT_MAX_PAYLOAD" "q \<le> 2"
    "live_events (reads m)" "stream (reads m) = payload p @ rest" "in_packet m = packet_cleanup p'"
    "sock m \<noteq> -1" "cstate m \<noteq> mosq_cs_connect_pending"
  shows "\<exists>n m1 rc m2. n \<le> gaps (reads m) \<and> polls n m = Some m1 \<and> calls m1 = calls m \<and> packet_read m1 = Some (rc, m2)
    \<and> delivered (published mid t body q r) d m m2 \<and> stream (reads m2) = rest"
proof -
  have t: "length t < 2 ^ 16" using pub_check_length[of 0 t] assms(2) by (simp add: mosquitto_pub_topic_check_def)
  note pk = publish_packet_size[OF assms(1) t assms(5)]
  let ?c = "publish_command q r d" and ?pl = "publish_rest mid t body q" and ?q = "packet_cleanup p'"
  have pl: "length ?pl = publish_length t body q" "?pl \<noteq> []"
    using publish_rest_length[OF t, of mid body q] by (auto simp: publish_length_def)
  have i: "initial_packet ?q" by (simp add: initial_packet_def packet_cleanup_def)
  have f: "feeds (reads m) ((?c # remaining_bytes 5 (length ?pl) @ ?pl) @ rest) (gaps (reads m))"
    using assms(7,8) pk(2) pl(1) by (simp add: feeds_def del: remaining_bytes.simps)
  have s: "arriving ?q ?c (junk m) ?pl (in_packet m) (?c # remaining_bytes 5 (length ?pl) @ ?pl)"
    unfolding assms(9) by (rule arriving.start)
  have l: "length ?pl < 128 ^ 4" using pl(1) pk(1) by simp
  obtain n m1 m2 k g' where a: "n \<le> gaps (reads m)" "polls n m = Some m1" "read_core m1 = read_core m"
    "receive_packet m1 = (None, m2)" "read_core m2 = read_core m"
    "in_packet m2 = body_packet (full_packet (?q\<lparr>command := ?c\<rparr>) k (length ?pl)) (junk m) ?pl (length ?pl)" "feeds (reads m2) rest g'"
    using polls_arrive[OF s f i publish_command_fields(5)[OF assms(6)] pl(2) l assms(10,11)] by (elim exE conjE)
  let ?m = "m2\<lparr>in_packet := (in_packet m2)\<lparr>pos := 0\<rparr>\<rparr>"
  have "parse_publish (in_packet ?m) = Inr ((d, published mid t body q r), (in_packet ?m)\<lparr>pos := length (payload (in_packet ?m))\<rparr>)"
    unfolding published_def
    by (rule parse_publish_rest[OF _ _ _ _ assms(6) t assms(3,4)]) (simp_all add: a(6) body_packet_def full_packet_def)
  then obtain rc m3 where h: "packet_handle ?m = Some (rc, m3)" "reads m3 = reads m2" "delivered (published mid t body q r) d ?m m3"
    using packet_handle_delivers[of ?m] publish_command_fields(4)[OF assms(6), of r d] assms(6)
    by (auto simp: a(6) body_packet_def full_packet_def published_def)
  let ?m3 = "m3\<lparr>in_packet := packet_cleanup (in_packet m3), last_msg_in := now m3\<rparr>"
  have "packet_read m1 = Some (rc, ?m3)"
    using assms(10,11) read_core_ok(5,6)[OF a(3)] a(4) h(1) by (simp add: packet_read_def)
  moreover have "delivered (published mid t body q r) d m ?m3"
    using h(3) read_core_ok(4,9)[OF a(5)] arg_cong[OF a(5), of in_messages] by (simp add: delivered_def read_core_def)
  ultimately show ?thesis using a(1,2,7) read_core_ok(10)[OF a(3)] h(2)
    by (intro exI[of _ n] exI[of _ m1] exI[of _ rc] exI[of _ ?m3]) (simp add: feeds_def)
qed

definition receiving_client :: mosquitto where
  "receiving_client = waiting_client\<lparr>on_message := True,
     reads := [Data [0x32], Read_fails EAGAIN, Data [6, 0, 1, 97], Data [0, 7, 9, 64]]\<rparr>"

theorem publish_roundtrip_witness:
  "\<exists>n m1 rc m2. n \<le> 1 \<and> polls n receiving_client = Some m1 \<and> calls m1 = [] \<and> packet_read m1 = Some (rc, m2)
    \<and> (\<exists>cs. calls m2 = cs @ [On_message \<lparr>msg_mid = 7, msg_topic = ''a'', msg_payload = [9], msg_qos = 1, msg_retain = False\<rparr>])
    \<and> stream (reads m2) = [64]"
proof -
  have l: "publish_length ''a'' [9] 1 = 6" by (simp add: publish_length_def)
  have "length ''a'' < 2 ^ 16" "publish_length ''a'' [9] 1 < 128 ^ 4" using l by simp_all
  then obtain p where p: "publish_packet 0 7 ''a'' [9] 1 False False = Some (Inr p)"
    "payload p = publish_command 1 False False # remaining_bytes 5 6 @ publish_rest 7 ''a'' [9] 1"
    using publish_packet_bytes[of "''a''" "[9]" 1 0 7 False False] unfolding l by blast
  have "(5 :: nat) = Suc 4" by simp
  then have "remaining_bytes 5 6 = [6]" by (simp only: remaining_bytes.simps) simp
  moreover have "publish_command 1 False False = 0x32" by (simp add: publish_command_def PUBLISH_def)
  moreover have "publish_rest 7 ''a'' [9] 1 = [0, 1, 97, 0, 7, 9]"
    by (simp add: publish_rest_def enc_text_def enc16_def MOSQ_MSB_def MOSQ_LSB_def bytes_of_string_def Let_def)
  ultimately have "payload p = [0x32, 6, 0, 1, 97, 0, 7, 9]" using p(2) by simp
  then show ?thesis
    using publish_roundtrip[OF p(1), of receiving_client "[64]" calloc_packet]
    by (simp add: receiving_client_def example_eval mosquitto_pub_topic_check_def MQTT_MAX_PAYLOAD_def delivered_def published_def)
qed

subsection \<open>A silent broker\<close>

definition silent_reads :: "read_event list \<Rightarrow> bool" where
  "silent_reads es \<longleftrightarrow> (\<forall>e \<in> set es. \<exists>x. e = Read_fails x)"

fun silent_connect :: "connect_event \<Rightarrow> bool" where
  "silent_connect (Connects fd rs ws) = silent_reads rs"
| "silent_connect (Connect_fails rc) = True"

definition silent :: "mosquitto \<Rightarrow> bool" where
  "silent m \<longleftrightarrow> silent_reads (reads m) \<and> (\<forall>c \<in> set (connects m). silent_connect c) \<and> initial_packet (in_packet m)"

lemma silent_inbox: "inbox m' = inbox m \<Longrightarrow> silent m' = silent m"
  by (simp add: silent_def inbox_def)

text \<open>An operation that returns and changes nothing but the connection.\<close>

definition calm :: "mosquitto \<Rightarrow> mosquitto \<Rightarrow> bool" where
  "calm m m' \<longleftrightarrow> client_ok m' \<and> silent m' \<and> outstanding m' = outstanding m"

lemma calm_store: "client_ok m' \<Longrightarrow> client_store m' = client_store m \<Longrightarrow> silent m \<Longrightarrow> calm m m'"
  using silent_inbox[of m' m] by (simp add: calm_def client_store_def)

lemma calm_trans: "calm m m1 \<Longrightarrow> calm m1 m2 \<Longrightarrow> calm m m2"
  by (simp add: calm_def)

lemma initial_cleanup: "initial_packet (packet_cleanup p)"
  by (simp add: initial_packet_def packet_cleanup_def)

lemma net_read_silent:
  assumes "silent_reads (reads m)" "net_read c m = (r, m')"
  shows "r = None" "silent_reads (reads m')"
proof -
  have "fst (net_read c m) = None \<and> silent_reads (reads (snd (net_read c m)))"
  proof (cases "reads m")
    case Nil
    then show ?thesis by (simp add: net_read_def silent_reads_def)
  next
    case (Cons e es)
    then obtain x where "e = Read_fails x" using assms(1) by (auto simp: silent_reads_def)
    then show ?thesis using Cons assms(1) by (simp add: net_read_def silent_reads_def)
  qed
  then show "r = None" "silent_reads (reads m')" using assms(2) by simp_all
qed

lemma packet_read_silent:
  assumes "client_ok m" "silent m"
  shows "\<exists>rc m'. packet_read m = Some (rc, m') \<and> calm m m'"
proof (cases "sock m = -1 \<or> cstate m = mosq_cs_connect_pending")
  case True
  then show ?thesis using assms by (auto simp: packet_read_def calm_def)
next
  case False
  obtain r m1 where n: "net_read 1 m = (r, m1)" by (meson surj_pair)
  have r: "r = None" "silent_reads (reads m1)" using net_read_silent[OF _ n] assms(2) by (simp_all add: silent_def)
  note n1 = net_read_result[OF n]
  have p: "packet_read m = Some (read_rc False (errno m1), m1)"
    using False n r(1) assms(2) by (simp add: packet_read_def receive_packet_def read_command_def silent_def initial_packet_def)
  moreover have "connects m1 = connects m" using arg_cong[OF n1(1), of connects] by (simp add: read_core_def)
  then have "silent m1" using r(2) n1(2) assms(2) by (simp add: silent_def)
  ultimately show ?thesis using packet_read_ok[OF assms(1)] read_core_ok(2)[OF n1(1)] by (simp add: calm_def)
qed

lemma loop_read_silent:
  "client_ok m \<Longrightarrow> silent m \<Longrightarrow> \<exists>rc m'. loop_read_rounds n m = Some (rc, m') \<and> calm m m'"
proof (induction n arbitrary: m)
  case 0
  then show ?case by (simp add: calm_def)
next
  case (Suc n)
  obtain rc m1 where r: "packet_read m = Some (rc, m1)" "calm m m1" using packet_read_silent[OF Suc.prems] by blast
  then have m1: "client_ok m1" "silent m1" by (simp_all add: calm_def)
  have h: "calm m1 (snd (loop_rc_handle rc m1))" using m1 by (intro calm_store) simp_all
  show ?case
  proof (cases "rc \<noteq> MOSQ_ERR_SUCCESS \<or> errno m1 = EAGAIN")
    case True
    then show ?thesis using r calm_trans[OF r(2) h] by (cases "loop_rc_handle rc m1") simp
  next
    case False
    then show ?thesis using Suc.IH[OF m1] calm_trans[OF r(2)] r(1) by auto
  qed
qed

lemma loop_silent:
  assumes "client_ok m" "silent m"
  shows "\<exists>rc m'. mosquitto_loop n m = Some (rc, m') \<and> calm m m'"
proof (cases "n < 1 \<or> sock m \<ge> 1024 \<or> sockpairR m \<ge> 1024 \<or> sock m = -1")
  case True
  then show ?thesis using assms by (auto simp: mosquitto_loop_def calm_def)
next
  case False
  obtain e m1 where s: "next_select m = (e, m1)" by (meson surj_pair)
  have "client_ok (snd (next_select m))" "client_store (snd (next_select m)) = client_store m"
    using assms by (simp_all add: next_select_def split: list.splits)
  then have c1: "calm m m1" using s assms(2) by (intro calm_store) simp_all
  then have m1: "client_ok m1" "silent m1" by (simp_all add: calm_def)
  show ?thesis
  proof (cases e)
    case (Ready r pr w)
    have "\<exists>rc m'. mosquitto_loop_read n m1 = Some (rc, m') \<and> calm m1 m'"
      using loop_read_silent[OF m1] m1 by (simp add: mosquitto_loop_read_def calm_def)
    then obtain rc1 m2 where l: "(if r then mosquitto_loop_read n m1 else Some (MOSQ_ERR_SUCCESS, m1)) = Some (rc1, m2)" "calm m1 m2"
      using m1 by (cases r) (auto simp: calm_def)
    then have m2: "client_ok m2" "silent m2" by (simp_all add: calm_def)
    let ?w = "(pr \<and> sockpairR m2 \<noteq> -1) \<or> (w \<and> mosquitto_want_write m)"
    obtain rc2 m3 where x: "(if ?w then mosquitto_loop_write n m2 else (MOSQ_ERR_SUCCESS, m2)) = (rc2, m3)" by (meson surj_pair)
    have "calm m2 (snd (if ?w then mosquitto_loop_write n m2 else (MOSQ_ERR_SUCCESS, m2)))"
      using loop_write_ok[OF m2(1)] loop_write_store[of _ m2] m2 by (intro calm_store) (simp_all add: mosquitto_loop_write_def)
    then have c3: "calm m2 m3" using x by simp
    then have m3: "client_ok m3" "silent m3" by (simp_all add: calm_def)
    have m: "mosquitto_loop n m = (if r \<and> (rc1 \<noteq> MOSQ_ERR_SUCCESS \<or> sock m2 = -1) then Some (rc1, m2)
        else if ?w \<and> (rc2 \<noteq> MOSQ_ERR_SUCCESS \<or> sock m3 = -1) then Some (rc2, m3) else mosquitto_loop_misc m3)"
      using False s Ready l(1) x by (simp add: mosquitto_loop_def Let_def cong: if_cong split del: if_split)
    obtain rc4 m4 where t: "mosquitto_loop_misc m3 = Some (rc4, m4)" "calm m3 m4"
      using loop_misc_store[OF m3(1)] calm_store[OF _ _ m3(2)] by blast
    note c = calm_trans[OF c1 l(2)] calm_trans[OF calm_trans[OF c1 l(2)] c3]
    show ?thesis using c calm_trans[OF c(2) t(2)] t(1) unfolding m by simp
  qed (use False s c1 in \<open>simp_all add: mosquitto_loop_def calm_def silent_def outstanding_def\<close>)
qed

lemma reconnect_silent:
  assumes "client_ok m" "silent m"
  shows "\<exists>rc m'. mosquitto_reconnect m = Some (rc, m') \<and> calm m m'"
proof -
  obtain rc m' where r: "mosquitto_reconnect m = Some (rc, m')" "client_ok m'" "outstanding m' = outstanding m"
    "m' = m \<or> reconnected m m'" using reconnect_ok[OF assms(1)] by blast
  have "silent m'" if "reconnected m m'"
    using that assms(2) initial_cleanup[of "in_packet m"] unfolding reconnected_def silent_def by fastforce
  then show ?thesis using r assms(2) by (auto simp: calm_def)
qed

end
