(* ===== verification/Springs.thy ===== *)
theory Springs
  imports Mqtt_Roundtrip Dns_Filter
begin

text \<open>
  The programs that carry what the DNS filter publishes in redis to other consumers:
  \<^verbatim>\<open>src/src/dowse-to-gource.c\<close> (a log for the visualisation gource), \<^verbatim>\<open>src/src/dowse-to-osc.c\<close>
  (messages of Open Sound Control), \<^verbatim>\<open>src/src/dowse-cmd-fifo.c\<close> (a single command) and
  \<^verbatim>\<open>src/src/dowse-to-mqtt.c\<close> (a bridge to an MQTT broker).
\<close>

subsection \<open>Reading what is published\<close>

definition atoll :: "string \<Rightarrow> int" where
  "atoll s = fst (strtol s)"

text \<open>
  The text of an element of a reply. The programs access the elements without a test; a
  reply without them, or an element without a text, is a NULL dereference.
\<close>

definition element_str :: "redis_reply \<Rightarrow> nat \<Rightarrow> string option" where
  "element_str rep i =
     (case rep of
        ReplyArray rs \<Rightarrow>
          if i < length rs
          then (case rs ! i of ReplyString s \<Rightarrow> Some s | ReplyStatus s \<Rightarrow> Some s | ReplyError s \<Rightarrow> Some s | _ \<Rightarrow> None)
          else None
      | _ \<Rightarrow> None)"

text \<open>The fields of a published query; a line with less than six of them is skipped.\<close>

record query_fields =
  q_ip :: string
  q_hits :: int
  q_epoch :: string
  q_domain :: string
  q_tld :: string
  q_group :: "string option"

definition parse_query :: "string \<Rightarrow> query_fields option" where
  "parse_query s =
     (case strtok_all CHR '','' (cstr s) of
        dns # ip # act # ep # dm # tld_name # rest \<Rightarrow>
          Some \<lparr>q_ip = ip, q_hits = atoll act, q_epoch = ep, q_domain = dm, q_tld = tld_name,
                q_group = (case rest of [] \<Rightarrow> None | g # _ \<Rightarrow> Some g)\<rparr>
      | _ \<Rightarrow> None)"

subsection \<open>The converters\<close>

text \<open>
  Every program connects to redis, subscribes, and works on the replies until reading one
  fails, the end of the list \<open>reps\<close>. A connection that cannot be made is not noticed, and the
  command on it is a NULL dereference. The interrupt handler frees the connection that the
  program is reading from, so nothing is modelled behind an interrupt.
\<close>

definition subscribe_redis :: "(nat \<Rightarrow> 'r redis_connection) \<Rightarrow> 'r redis_server \<Rightarrow> string \<Rightarrow> 'r option" where
  "subscribe_redis net srv channels =
     Option.bind (connect_redis net Db_dynamic) (\<lambda>r. map_option snd (cmd_redis srv r (''SUBSCRIBE '' @ channels)))"

definition gource_line :: "query_fields \<Rightarrow> string" where
  "gource_line f = take (MAX_OUTPUT - 1)
     (q_epoch f @ ''|'' @ q_ip f @ ''|'' @ (if q_hits f = 1 then ''A'' else ''M'') @ ''|'' @ q_tld f @ ''/''
      @ (case q_group f of None \<Rightarrow> [] | Some g \<Rightarrow> g @ ''/'') @ q_domain f)"

fun gource_loop :: "redis_reply list \<Rightarrow> string list option" where
  "gource_loop [] = Some []"
| "gource_loop (rep # reps) =
     Option.bind (element_str rep 2) (\<lambda>s.
       case parse_query s of
         None \<Rightarrow> gource_loop reps
       | Some f \<Rightarrow> map_option (\<lambda>out. gource_line f # out) (gource_loop reps))"

definition gource_main :: "(nat \<Rightarrow> 'r redis_connection) \<Rightarrow> 'r redis_server \<Rightarrow> redis_reply list \<Rightarrow> string list option" where
  "gource_main net srv reps =
     Option.bind (subscribe_redis net srv ''dns-query-channel'') (\<lambda>_. gource_loop reps)"

text \<open>An OSC message has the address of the client, a 32-bit counter and two names.\<close>

definition osc_message :: "query_fields \<Rightarrow> string \<times> u32 \<times> string \<times> string" where
  "osc_message f = (q_ip f, word_of_int (q_hits f), q_domain f, q_tld f)"

fun osc_loop :: "redis_reply list \<Rightarrow> (string \<times> u32 \<times> string \<times> string) list option" where
  "osc_loop [] = Some []"
| "osc_loop (rep # reps) =
     Option.bind (element_str rep 2) (\<lambda>s.
       case parse_query s of
         None \<Rightarrow> osc_loop reps
       | Some f \<Rightarrow> map_option (\<lambda>out. osc_message f # out) (osc_loop reps))"

definition osc_main :: "(nat \<Rightarrow> 'r redis_connection) \<Rightarrow> 'r redis_server \<Rightarrow> string list \<Rightarrow> redis_reply list
    \<Rightarrow> (int \<times> (string \<times> u32 \<times> string \<times> string) list) option" where
  "osc_main net srv args reps =
     (if args = [] then Some (1, [])
      else Option.bind (subscribe_redis net srv ''dns-query-channel'') (\<lambda>_. map_option (Pair 0) (osc_loop reps)))"

text \<open>The first message of a channel, and nothing else.\<close>

definition fifo_main :: "(nat \<Rightarrow> 'r redis_connection) \<Rightarrow> 'r redis_server \<Rightarrow> redis_reply option \<Rightarrow> (int \<times> string list) option" where
  "fifo_main net srv answer =
     (case connect_redis net Db_dynamic of
        None \<Rightarrow> Some (1, [])
      | Some r \<Rightarrow>
          Option.bind (cmd_redis srv r ''SUBSCRIBE command-fifo-pipe'') (\<lambda>_.
            case answer of
              Some (ReplyArray [a, b, c]) \<Rightarrow>
                map_option (\<lambda>s. (0, [cstr s])) (element_str (ReplyArray [a, b, c]) 2)
            | _ \<Rightarrow> Some (0, [])))"

subsection \<open>The bridge to MQTT\<close>

definition mqtt_optspec :: "char \<Rightarrow> bool option" where
  "mqtt_optspec c = (if c = CHR ''p'' \<or> c = CHR ''c'' then Some True else None)"

text \<open>The process file and the list of channels.\<close>

definition mqtt_option :: "char \<times> string \<Rightarrow> string \<times> string \<Rightarrow> string \<times> string" where
  "mqtt_option opt st =
     (let (pidfile, channel_list) = st
      in if fst opt = CHR ''p'' then (take (MAX_OUTPUT - 1) (snd opt), channel_list)
         else if fst opt = CHR ''c'' then (pidfile, channel_list @ '' '' @ snd opt)
         else st)"

definition mqtt_options :: "string list \<Rightarrow> (string \<times> string) \<times> string list" where
  "mqtt_options args =
     (let (opts, rest) = getopt False mqtt_optspec args in (fold mqtt_option opts ([], ''dns-query-channel''), rest))"

text \<open>One reply: work on the MQTT connection, mend it, and forward a message under the name of its channel.\<close>

definition forward :: "redis_reply \<Rightarrow> mosquitto \<Rightarrow> mosquitto option" where
  "forward rep m =
     do {
       (rc1, m1) \<leftarrow> mosquitto_loop 1 m;
       m2 \<leftarrow> (if rc1 \<noteq> MOSQ_ERR_SUCCESS then map_option snd (mosquitto_reconnect m1) else Some m1);
       kind \<leftarrow> element_str rep 0;
       if cstr kind \<noteq> ''message'' then Some m2
       else do {
         channel \<leftarrow> element_str rep 1;
         text \<leftarrow> element_str rep 2;
         (rc3, m3) \<leftarrow> mosquitto_publish (cstr channel) (bytes_of_string text) 1 False m2;
         (rc4, m4) \<leftarrow> mosquitto_loop 1 m3;
         Some m4
       }
     }"

fun forward_loop :: "redis_reply list \<Rightarrow> mosquitto \<Rightarrow> mosquitto option" where
  "forward_loop [] m = Some m"
| "forward_loop (rep # reps) m = Option.bind (forward rep m) (forward_loop reps)"

text \<open>
  The program, with the random identifier \<open>cid\<close> of its client: the exit code and the client
  at the end, where there is one.
\<close>

definition mqtt_main :: "(nat \<Rightarrow> 'r redis_connection) \<Rightarrow> 'r redis_server \<Rightarrow> string \<Rightarrow> string list \<Rightarrow> redis_reply list
    \<Rightarrow> mosquitto \<Rightarrow> (int \<times> mosquitto option) option" where
  "mqtt_main net srv cid args reps world =
     (case mqtt_options args of
        (_, []) \<Rightarrow> Some (1, None)
      | ((pidfile, channels), hostname # _) \<Rightarrow>
          let rx = connect_redis net Db_dynamic
          in (case mosquitto_new (take 23 cid) True world of
                None \<Rightarrow> Some (1, None)
              | Some m \<Rightarrow>
                  do {
                    (rc, m1) \<leftarrow> mosquitto_connect hostname 1883 60 m;
                    if rc \<noteq> MOSQ_ERR_SUCCESS then Some (1, None)
                    else do {
                      r \<leftarrow> rx;
                      (rep, r1) \<leftarrow> cmd_redis srv r (''SUBSCRIBE '' @ channels @ '' '');
                      m2 \<leftarrow> forward_loop reps m1;
                      (rc3, m3) \<leftarrow> mosquitto_disconnect m2;
                      Some (0, Some m3)
                    }
                  }))"

subsection \<open>What is rendered\<close>

text \<open>A field that the converters read back: not empty, without commas and NUL.\<close>

definition query_field_ok :: "string \<Rightarrow> bool" where
  "query_field_ok f \<longleftrightarrow> f \<noteq> [] \<and> CHR '','' \<notin> set f \<and> CHR 0x00 \<notin> set f"

lemmas strtok_all_field = strtok_all_next[of _ "CHR '',''"]

lemma atoll_show: "v < 2 ^ 31 \<Longrightarrow> 0 \<le> v \<Longrightarrow> atoll (show_int v) = v"
  using strtol_show[of "nat v" "[]"] by (simp add: atoll_def show_int_def)

lemma show_field_ok: "query_field_ok (show_nat n)"
proof -
  have "\<not> isdigit CHR '',''" "\<not> isdigit CHR 0x00" by (simp_all add: isdigit_def)
  then show ?thesis using show_nat_digits[of n] by (auto simp: query_field_ok_def)
qed

text \<open>The group that the DNS filter finds for a domain.\<close>

definition group_of :: "'r plugin_data \<Rightarrow> extracted \<Rightarrow> string option" where
  "group_of data ex =
     (case (listpath data, domainlist data, ex) of
        (Some _, Some m, Domain d) \<Rightarrow>
          (case hashmap_get m d of (MAP_OK, Some sval) \<Rightarrow> Some (take (MAX_OUTPUT - 128) sval) | _ \<Rightarrow> None)
      | _ \<Rightarrow> None)"

lemma add_group_text:
  "add_group data ex out = Some line \<Longrightarrow>
     line = out @ (case group_of data ex of None \<Rightarrow> [] | Some g \<Rightarrow> CHR '','' # g)"
  by (auto simp: add_group_def group_of_def Let_def split: option.splits if_splits extracted.splits prod.splits map_status.splits)

definition query_text :: "string \<Rightarrow> int \<Rightarrow> nat \<Rightarrow> string \<Rightarrow> string \<Rightarrow> string" where
  "query_text who val t ext td = ''DNS,'' @ who @ '','' @ show_int val @ '','' @ show_nat t @ '','' @ ext @ '','' @ td"

lemma parse_query_text:
  assumes "query_field_ok who" "query_field_ok ext" "query_field_ok td" "\<forall>g \<in> set_option grp. query_field_ok g" "0 \<le> val" "val < 2 ^ 31"
  shows "parse_query (query_text who val t ext td @ (case grp of None \<Rightarrow> [] | Some g \<Rightarrow> CHR '','' # g))
    = Some \<lparr>q_ip = who, q_hits = val, q_epoch = show_nat t, q_domain = ext, q_tld = td, q_group = grp\<rparr>"
proof -
  let ?line = "query_text who val t ext td @ (case grp of None \<Rightarrow> [] | Some g \<Rightarrow> CHR '','' # g)"
  have i: "show_int val = show_nat (nat val)" using assms(5) by (simp add: show_int_def)
  have d: "query_field_ok ''DNS''" by (simp add: query_field_ok_def)
  have "CHR 0x00 \<notin> set ?line"
    using assms show_field_ok[of t] show_field_ok[of "nat val"]
    by (auto simp: query_text_def i query_field_ok_def split: option.splits)
  then have c: "cstr ?line = ?line" by (auto simp: cstr_def takeWhile_eq_all_conv)
  have "strtok_all CHR '','' ?line = [''DNS'', who, show_nat (nat val), show_nat t, ext, td] @ (case grp of None \<Rightarrow> [] | Some g \<Rightarrow> [g])"
    using strtok_all_field(1)[of "''DNS''"] d assms show_field_ok[of t] show_field_ok[of "nat val"]
    by (cases grp) (simp_all add: query_text_def i query_field_ok_def strtok_all_field)
  moreover have "atoll (show_nat (nat val)) = val" using atoll_show[OF assms(6,5)] i by simp
  ultimately show ?thesis by (simp add: parse_query_def c split: option.splits)
qed


definition example_query :: "unit plugin_data" where
  "example_query = demo_data\<lparr>tld := ''com'', listpath := None\<rparr>"


subsection \<open>What is forwarded\<close>

text \<open>
  Replies of the form that redis sends to subscribers, what the bridge publishes for one, and
  what waits in a client.
\<close>

definition reply_ok :: "redis_reply \<Rightarrow> bool" where
  "reply_ok rep \<longleftrightarrow> (\<exists>kind. element_str rep 0 = Some kind
     \<and> (cstr kind = ''message'' \<longrightarrow> element_str rep 1 \<noteq> None \<and> element_str rep 2 \<noteq> None))"

definition forwarded :: "redis_reply \<Rightarrow> (string \<times> u8 list) list" where
  "forwarded rep =
     (case (element_str rep 0, element_str rep 1, element_str rep 2) of
        (Some kind, Some channel, Some s) \<Rightarrow>
          if cstr kind = ''message'' \<and> accepted (cstr channel) (bytes_of_string s) 1
          then [(cstr channel, bytes_of_string s)] else []
      | _ \<Rightarrow> [])"

definition contents :: "mosquitto \<Rightarrow> (string \<times> u8 list) list" where
  "contents m = map (\<lambda>g. (msg_topic g, msg_payload g)) (outstanding m)"

lemma calm_contents: "calm m m' \<Longrightarrow> contents m' = contents m"
  by (simp add: calm_def contents_def)

lemma calmD: "calm m m' \<Longrightarrow> client_ok m'" "calm m m' \<Longrightarrow> silent m'"
  by (simp_all add: calm_def)

lemma mend_silent:
  assumes "client_ok m" "silent m"
  shows "\<exists>m2. Option.bind (mosquitto_loop 1 m) (\<lambda>(rc1, m1).
      if rc1 \<noteq> MOSQ_ERR_SUCCESS then map_option snd (mosquitto_reconnect m1) else Some m1) = Some m2 \<and> calm m m2"
proof -
  obtain rc1 m1 where l: "mosquitto_loop 1 m = Some (rc1, m1)" "calm m m1" using loop_silent[OF assms] by blast
  obtain rc2 m2 where r: "mosquitto_reconnect m1 = Some (rc2, m2)" "calm m1 m2" using reconnect_silent[OF calmD[OF l(2)]] by blast
  show ?thesis using l r calm_trans[OF l(2) r(2)] by simp
qed

lemma publish_silent:
  assumes "client_ok m" "silent m"
  shows "\<exists>rc m'. mosquitto_publish t body 1 False m = Some (rc, m') \<and> client_ok m' \<and> silent m'
    \<and> contents m' = contents m @ (if accepted t body 1 then [(t, body)] else [])"
proof -
  obtain rc m' where p: "mosquitto_publish t body 1 False m = Some (rc, m')" "client_ok m'" "inbox m' = inbox m"
    "outstanding m' = (if accepted t body 1 \<and> 0 < (1 :: int) then outstanding m @ [new_message t body 1 False m] else outstanding m)"
    using publish_ok[OF assms(1)] by blast
  then show ?thesis using silent_inbox[OF p(3)] assms(2) by (simp add: contents_def new_message_def)
qed

lemma forward_silent:
  assumes "client_ok m" "silent m" "reply_ok rep"
  shows "\<exists>m'. forward rep m = Some m' \<and> client_ok m' \<and> silent m' \<and> contents m' = contents m @ forwarded rep"
proof -
  obtain rc1 m1 m2 where l: "mosquitto_loop 1 m = Some (rc1, m1)"
    "(if rc1 \<noteq> MOSQ_ERR_SUCCESS then map_option snd (mosquitto_reconnect m1) else Some m1) = Some m2" "calm m m2"
    using mend_silent[OF assms(1,2)] by (auto simp: bind_eq_Some_conv simp del: not_None_eq split: prod.splits)
  note ok2 = calmD[OF l(3)] calm_contents[OF l(3)]
  obtain kind where k: "element_str rep 0 = Some kind"
    "cstr kind = ''message'' \<longrightarrow> element_str rep 1 \<noteq> None \<and> element_str rep 2 \<noteq> None" using assms(3) unfolding reply_ok_def by blast
  show ?thesis
  proof (cases "cstr kind = ''message''")
    case False
    then have "forward rep m = Some m2" using l k(1) by (simp add: forward_def)
    moreover have "forwarded rep = []" using False k(1) by (simp add: forwarded_def split: option.split)
    ultimately show ?thesis using ok2 by simp
  next
    case True
    then obtain c s where e: "element_str rep 1 = Some c" "element_str rep 2 = Some s" using k(2) by blast
    obtain rc3 m3 where p: "mosquitto_publish (cstr c) (bytes_of_string s) 1 False m2 = Some (rc3, m3)" "client_ok m3" "silent m3"
      "contents m3 = contents m2 @ (if accepted (cstr c) (bytes_of_string s) 1 then [(cstr c, bytes_of_string s)] else [])"
      using publish_silent[OF ok2(1,2)] by blast
    obtain rc4 m4 where f: "mosquitto_loop 1 m3 = Some (rc4, m4)" "calm m3 m4" using loop_silent[OF p(2,3)] by blast
    have "forward rep m = Some m4" using l k(1) True e p(1) f(1) by (simp add: forward_def)
    moreover have "forwarded rep = (if accepted (cstr c) (bytes_of_string s) 1 then [(cstr c, bytes_of_string s)] else [])"
      using k(1) True e by (simp add: forwarded_def)
    ultimately show ?thesis using calmD[OF f(2)] calm_contents[OF f(2)] p(4) ok2(3) by simp
  qed
qed

lemma forward_loop_silent:
  "client_ok m \<Longrightarrow> silent m \<Longrightarrow> \<forall>rep \<in> set reps. reply_ok rep \<Longrightarrow>
    \<exists>m'. forward_loop reps m = Some m' \<and> client_ok m' \<and> silent m' \<and> contents m' = contents m @ concat (map forwarded reps)"
proof (induction reps arbitrary: m)
  case (Cons rep reps)
  obtain m1 where f: "forward rep m = Some m1" "client_ok m1" "silent m1" "contents m1 = contents m @ forwarded rep"
    using forward_silent[OF Cons.prems(1,2)] Cons.prems(3) by (meson list.set_intros(1))
  then show ?case using Cons.IH[OF f(2,3)] Cons.prems(3) by simp
qed simp

lemma connect_silent:
  assumes "client_ok m" "silent m" "mosquitto_connect h pt ka m = Some (rc, m')"
  shows "calm m m'"
proof -
  obtain rc1 m1 where c: "connect_init h pt ka m = (rc1, m1)" by (meson surj_pair)
  have "client_ok (snd (connect_init h pt ka m))" "client_store (snd (connect_init h pt ka m)) = client_store m"
    using assms(1) by (simp_all add: connect_init_def client_store_def inbox_def outstanding_def)
  then have i: "calm m m1" using c assms(2) by (intro calm_store) simp_all
  then have n: "calm m (m1\<lparr>cstate := mosq_cs_new\<rparr>)" by (simp add: calm_def silent_def outstanding_def)
  obtain rc2 m2 where r: "mosquitto_reconnect (m1\<lparr>cstate := mosq_cs_new\<rparr>) = Some (rc2, m2)" "calm (m1\<lparr>cstate := mosq_cs_new\<rparr>) m2"
    using reconnect_silent[OF calmD[OF n]] by blast
  then have "m' = m1 \<or> m' = m2" using assms(3) c by (simp add: mosquitto_connect_def split: if_splits)
  then show ?thesis using i calm_trans[OF n r(2)] by blast
qed

lemma disconnect_silent:
  assumes "client_ok m" "silent m"
  shows "\<exists>rc m'. mosquitto_disconnect m = Some (rc, m') \<and> calm m m'"
proof -
  let ?m = "m\<lparr>cstate := mosq_cs_disconnecting\<rparr>"
  have c: "calm m ?m" using assms by (simp add: calm_def silent_def outstanding_def)
  obtain rc m' where d: "send_disconnect ?m = Some (rc, m')" "core m' = core ?m"
    using only_sends_acks(6)[of ?m] unfolding only_sends_def by blast
  have "keeps_client send_disconnect ?m" by (rule only_sends_client[OF only_sends_acks(6) calmD(1)[OF c]])
  then have "calm ?m m'" using d store_core[OF d(2)] calmD(2)[OF c] by (intro calm_store) (simp_all add: keeps_client_def)
  then show ?thesis using d(1) c calm_trans[OF c] by (simp add: mosquitto_disconnect_def Let_def)
qed

lemma new_contents: "mosquitto_new cid clean w = Some m \<Longrightarrow> contents m = []"
  by (cases "cid = []") (simp add: mosquitto_new_def, drule sym, simp add: mosquitto_new_def contents_def outstanding_def)


text \<open>A world in which writing blocks, the connection breaks, and a reconnection fails before one works.\<close>

definition flaky_world :: mosquitto where
  "flaky_world = example_world\<lparr>
     connects := [Connects 5 [Read_fails EAGAIN, Read_fails ECONNRESET] [Write_fails EAGAIN, Write_fails ECONNRESET],
                  Connect_fails MOSQ_ERR_ERRNO, Connects 6 [] []],
     selects := [Ready True False True, Ready True False True, Ready True False True, Select_fails]\<rparr>"

definition flaky_client :: mosquitto where
  "flaky_client = the (mosquitto_new ''4711'' True flaky_world)"

lemma connect_packet_example:
  "\<exists>p. connect_packet 0 mosq_p_mqtt31 60 True ''4711'' None None None = Some (Inr p) \<and> packet_length p > 0"
proof -
  have e: "length (enc_text (bytes_of_string ''MQIsdp'')) = 8" "length (enc_text (bytes_of_string ''4711'')) = 6"
    by (simp_all add: enc_text_length)
  show ?thesis
    using e by (simp add: connect_packet_def with_alloc_fill fill_simps write_optional_def enc16_def Let_def del: remaining_bytes.simps)
qed

lemma flaky_connect: "\<exists>m. mosquitto_connect ''localhost'' 1883 60 flaky_client = Some (MOSQ_ERR_SUCCESS, m)"
proof -
  obtain p where p: "connect_packet 0 mosq_p_mqtt31 60 True ''4711'' None None None = Some (Inr p)" "packet_length p > 0"
    using connect_packet_example by blast
  then show ?thesis
    by (simp add: mosquitto_connect_def connect_init_def mosquitto_reconnect_def messages_reconnect_reset_def socket_connect_def
      send_connect_def packet_queue_def packet_write_def write_packet_loop.simps next_packet_def net_write_def Let_def
      flaky_client_def flaky_world_def mosquitto_new_def example_world_def)
qed


end
