(* ===== verification/Redis_Lock.thy ===== *)
theory Redis_Lock
  imports Redis_Client
begin

text \<open>
  Locks in redis (\<^verbatim>\<open>src/src/hiredis-lock.c\<close>): the program that takes and returns a lock for a
  shell script, and what processes that run it guarantee each other. The server is a
  parameter with the documented meaning of the four commands that are used.
\<close>

subsection \<open>The program\<close>

text \<open>Taking a lock: the exit code, what is printed, and the state of the server.\<close>

definition lock_set :: "string \<Rightarrow> nat \<Rightarrow> string \<Rightarrow> string" where
  "lock_set name key ttl =
     ''SET lock_'' @ name @ '' '' @ show_nat key @ '' NX'' @ (if take 1 ttl = ''0'' then [] else '' PX '' @ ttl)"

definition lock_on :: "'r redis_server \<Rightarrow> 'r \<Rightarrow> string \<Rightarrow> nat \<Rightarrow> string \<Rightarrow> (int \<times> string \<times> 'r) option" where
  "lock_on srv r name key ttl =
     map_option (\<lambda>(rep, r').
         case rep of
           None \<Rightarrow> (1, [], r')
         | Some (ReplyStatus s) \<Rightarrow> if take 2 (cstr s) = ''OK'' then (0, show_nat key, r') else (1, ''0'', r')
         | Some _ \<Rightarrow> (1, ''0'', r'))
       (cmd_redis srv r (lock_set name key ttl))"

text \<open>
  Giving a lock back takes two commands: one that reads the key of the lock, and if it is
  the right one, one that removes the lock.
\<close>

datatype off_check = Off_match | Off_exit int

definition lock_off_get :: "'r redis_server \<Rightarrow> 'r \<Rightarrow> string \<Rightarrow> string \<Rightarrow> (off_check \<times> 'r) option" where
  "lock_off_get srv r name key =
     map_option (\<lambda>(rep, r').
         (case rep of
            None \<Rightarrow> Off_exit 1
          | Some (ReplyString s) \<Rightarrow> if cstr s = key then Off_match else Off_exit 1
          | Some ReplyNil \<Rightarrow> Off_exit 0
          | Some _ \<Rightarrow> Off_exit 1, r'))
       (cmd_redis srv r (''GET lock_'' @ name))"

definition lock_off_del :: "'r redis_server \<Rightarrow> 'r \<Rightarrow> string \<Rightarrow> (int \<times> 'r) option" where
  "lock_off_del srv r name =
     map_option (\<lambda>(rep, r'). (if rep = None then 1 else 0, r')) (cmd_redis srv r (''DEL lock_'' @ name))"

definition lock_off :: "'r redis_server \<Rightarrow> 'r \<Rightarrow> string \<Rightarrow> string \<Rightarrow> (int \<times> string \<times> 'r) option" where
  "lock_off srv r name key =
     Option.bind (lock_off_get srv r name key) (\<lambda>(c, r1).
       case c of
         Off_exit code \<Rightarrow> Some (code, [], r1)
       | Off_match \<Rightarrow> map_option (\<lambda>(code, r2). (code, [], r2)) (lock_off_del srv r1 name))"

definition lock_main :: "(nat \<Rightarrow> 'r redis_connection) \<Rightarrow> 'r redis_server \<Rightarrow> nat \<Rightarrow> string list \<Rightarrow> (int \<times> string) option" where
  "lock_main net srv random args =
     (case args of
        action # name # timeout # _ \<Rightarrow>
          (case connect_redis net Db_runtime of
             None \<Rightarrow> Some (1, [])
           | Some r \<Rightarrow>
               if take 2 action = ''on'' then map_option (\<lambda>(code, out, _). (code, out)) (lock_on srv r name random timeout)
               else if take 3 action = ''off'' then map_option (\<lambda>(code, out, _). (code, out)) (lock_off srv r name timeout)
               else Some (1, []))
      | _ \<Rightarrow> Some (1, []))"

subsection \<open>The server\<close>

text \<open>
  What the program relies on: the documented meaning of four commands of redis, where \<open>view\<close>
  gives the texts stored in a state of the server.
\<close>

definition word_ok :: "string \<Rightarrow> bool" where
  "word_ok w \<longleftrightarrow> w \<noteq> [] \<and> CHR '' '' \<notin> set w \<and> CHR ''%'' \<notin> set w \<and> CHR 0x00 \<notin> set w"

definition serves_locks :: "'r redis_server \<Rightarrow> ('r \<Rightarrow> string \<Rightarrow> string option) \<Rightarrow> bool" where
  "serves_locks srv view \<longleftrightarrow>
     (\<forall>r k v opt. word_ok k \<and> word_ok v \<and> (opt = [] \<or> (\<exists>t. word_ok t \<and> opt = '' PX '' @ t)) \<longrightarrow>
        (case srv r (''SET '' @ k @ '' '' @ v @ '' NX'' @ opt) of (rep, r') \<Rightarrow>
           if view r k = None then rep = Some (ReplyStatus ''OK'') \<and> view r' = (view r)(k \<mapsto> v)
           else rep = Some ReplyNil \<and> view r' = view r))
     \<and> (\<forall>r k. word_ok k \<longrightarrow> (case srv r (''GET '' @ k) of (rep, r') \<Rightarrow>
           rep = Some (case view r k of None \<Rightarrow> ReplyNil | Some v \<Rightarrow> ReplyString v) \<and> view r' = view r))
     \<and> (\<forall>r k. word_ok k \<longrightarrow> (case srv r (''DEL '' @ k) of (rep, r') \<Rightarrow>
           (\<exists>n. rep = Some (ReplyInteger n)) \<and> view r' = (view r)(k := None)))"

subsection \<open>Processes\<close>

text \<open>
  Processes that take and return locks, with their commands in any order: the state of the
  server, the owners of locks (process, name and key), and the owners that have read their
  key and will now remove the lock. A process only returns a lock that it has taken. The
  server may also let a lock expire.
\<close>

datatype lock_event = Acquire nat string nat string | Check nat string nat | Delete nat string nat | Expire string

record 'r lock_system =
  server :: 'r
  owners :: "(nat \<times> string \<times> nat) list"
  checked :: "(nat \<times> string \<times> nat) list"

fun lock_step :: "'r redis_server \<Rightarrow> (string \<Rightarrow> 'r \<Rightarrow> 'r) \<Rightarrow> lock_event \<Rightarrow> 'r lock_system \<Rightarrow> 'r lock_system option" where
  "lock_step srv expire (Acquire p name key ttl) s =
     map_option (\<lambda>(code, out, r). s\<lparr>server := r, owners := (if code = 0 then [(p, name, key)] else []) @ owners s\<rparr>)
       (lock_on srv (server s) name key ttl)"
| "lock_step srv expire (Check p name key) s =
     (if (p, name, key) \<notin> set (owners s) then Some s
      else map_option (\<lambda>(c, r). case c of
               Off_match \<Rightarrow> s\<lparr>server := r, checked := (p, name, key) # checked s\<rparr>
             | Off_exit code \<Rightarrow>
                 s\<lparr>server := r, owners := (if code = 0 then filter (\<lambda>x. x \<noteq> (p, name, key)) (owners s) else owners s)\<rparr>)
             (lock_off_get srv (server s) name (show_nat key)))"
| "lock_step srv expire (Delete p name key) s =
     (if (p, name, key) \<notin> set (checked s) then Some s
      else map_option (\<lambda>(code, r). s\<lparr>server := r, checked := filter (\<lambda>x. x \<noteq> (p, name, key)) (checked s),
               owners := filter (\<lambda>x. x \<noteq> (p, name, key)) (owners s)\<rparr>)
             (lock_off_del srv (server s) name))"
| "lock_step srv expire (Expire name) s = Some (s\<lparr>server := expire (''lock_'' @ name) (server s)\<rparr>)"

fun lock_run :: "'r redis_server \<Rightarrow> (string \<Rightarrow> 'r \<Rightarrow> 'r) \<Rightarrow> lock_event list \<Rightarrow> 'r lock_system \<Rightarrow> 'r lock_system option" where
  "lock_run srv expire [] s = Some s"
| "lock_run srv expire (e # es) s = Option.bind (lock_step srv expire e s) (lock_run srv expire es)"

subsection \<open>Mutual exclusion\<close>

text \<open>Names and keys that fit into a command, and no expiry.\<close>

fun plain_event :: "lock_event \<Rightarrow> bool" where
  "plain_event (Acquire p name key ttl) = (word_ok name \<and> length name \<le> 400 \<and> key < 2 ^ 64 \<and> ttl = ''0'')"
| "plain_event (Check p name key) = (word_ok name \<and> length name \<le> 400)"
| "plain_event (Delete p name key) = (word_ok name \<and> length name \<le> 400)"
| "plain_event (Expire name) = False"

definition exclusive :: "('r \<Rightarrow> string \<Rightarrow> string option) \<Rightarrow> 'r lock_system \<Rightarrow> bool" where
  "exclusive view s \<longleftrightarrow> distinct (map (fst \<circ> snd) (owners s)) \<and> set (checked s) \<subseteq> set (owners s)
     \<and> (\<forall>(p, name, key) \<in> set (owners s). view (server s) (''lock_'' @ name) = Some (show_nat key))"

lemma word_ok_key: "word_ok name \<Longrightarrow> word_ok (''lock_'' @ name)"
  by (auto simp: word_ok_def)

lemma word_ok_nat: "word_ok (show_nat n)"
proof -
  have "\<not> isdigit CHR '' ''" "\<not> isdigit CHR ''%''" "\<not> isdigit CHR 0x00" by (simp_all add: isdigit_def)
  then show ?thesis using show_nat_digits[of n] by (auto simp: word_ok_def)
qed

lemma cmd_redis_lock:
  assumes "length text \<le> 510" "CHR ''%'' \<notin> set text" "srv r text = (Some rep, r')" "\<forall>msg. rep \<noteq> ReplyError msg"
  shows "cmd_redis srv r text = Some (Some rep, r')"
  using assms by (cases rep) (simp_all add: cmd_redis_text okredis_def)

lemma lock_on_result:
  assumes "serves_locks srv view" "word_ok name" "length name \<le> 400" "key < 2 ^ 64" "ttl = ''0''"
  shows "\<exists>code out r'. lock_on srv r name key ttl = Some (code, out, r')
    \<and> (if view r (''lock_'' @ name) = None then code = 0 \<and> view r' = (view r)(''lock_'' @ name \<mapsto> show_nat key)
       else code = 1 \<and> view r' = view r)"
proof -
  let ?c = "''SET lock_'' @ name @ '' '' @ show_nat key @ '' NX''"
  obtain rep r' where s: "srv r ?c = (rep, r')" by (meson surj_pair)
  have "if view r (''lock_'' @ name) = None then rep = Some (ReplyStatus ''OK'') \<and> view r' = (view r)(''lock_'' @ name \<mapsto> show_nat key)
      else rep = Some ReplyNil \<and> view r' = view r"
    using assms(1)[unfolded serves_locks_def, THEN conjunct1, rule_format, of "''lock_'' @ name" "show_nat key" "[]" r]
      word_ok_key[OF assms(2)] word_ok_nat[of key] s by simp
  moreover have "length ?c \<le> 510" using assms(3) show_nat_length[of key 20] assms(4) by simp
  moreover have "CHR ''%'' \<notin> set ?c" using assms(2) word_ok_nat[of key] by (auto simp: word_ok_def)
  ultimately show ?thesis
    using cmd_redis_lock[of ?c srv r] s assms(5) by (auto simp: lock_on_def lock_set_def cstr_def split: if_splits)
qed

lemma lock_off_results:
  assumes "serves_locks srv view" "word_ok name" "length name \<le> 400"
  shows "\<exists>r'. lock_off_get srv r name (show_nat key) = Some (case view r (''lock_'' @ name) of None \<Rightarrow> Off_exit 0
      | Some v \<Rightarrow> if cstr v = show_nat key then Off_match else Off_exit 1, r') \<and> view r' = view r"
    "\<exists>r'. lock_off_del srv r name = Some (0, r') \<and> view r' = (view r)(''lock_'' @ name := None)"
proof -
  let ?k = "''lock_'' @ name"
  let ?g = "''GET '' @ ?k" and ?d = "''DEL '' @ ?k"
  obtain rep r' where s: "srv r ?g = (rep, r')" by (meson surj_pair)
  have g: "rep = Some (case view r ?k of None \<Rightarrow> ReplyNil | Some v \<Rightarrow> ReplyString v)" "view r' = view r"
    using assms(1)[unfolded serves_locks_def, THEN conjunct2, THEN conjunct1, rule_format, of ?k r] word_ok_key[OF assms(2)] s by simp_all
  obtain rep2 r2 where s2: "srv r ?d = (rep2, r2)" by (meson surj_pair)
  have d: "\<exists>n. rep2 = Some (ReplyInteger n)" "view r2 = (view r)(?k := None)"
    using assms(1)[unfolded serves_locks_def, THEN conjunct2, THEN conjunct2, rule_format, of ?k r] word_ok_key[OF assms(2)] s2 by simp_all
  have c: "length ?g \<le> 510" "length ?d \<le> 510" "CHR ''%'' \<notin> set ?g" "CHR ''%'' \<notin> set ?d"
    using assms(2,3) by (auto simp: word_ok_def)
  show "\<exists>r'. lock_off_get srv r name (show_nat key) = Some (case view r ?k of None \<Rightarrow> Off_exit 0
      | Some v \<Rightarrow> if cstr v = show_nat key then Off_match else Off_exit 1, r') \<and> view r' = view r"
    using cmd_redis_lock[OF c(1,3), of srv r] s g by (cases "view r ?k") (auto simp: lock_off_get_def)
  show "\<exists>r'. lock_off_del srv r name = Some (0, r') \<and> view r' = (view r)(?k := None)"
    using cmd_redis_lock[OF c(2,4), of srv r] s2 d by (auto simp: lock_off_del_def)
qed

lemma lock_step_exclusive:
  assumes "serves_locks srv view" "plain_event e" "exclusive view s"
  shows "\<exists>s'. lock_step srv expire e s = Some s' \<and> exclusive view s'"
proof (cases e)
  case (Acquire p name key ttl)
  obtain code out r' where l: "lock_on srv (server s) name key ttl = Some (code, out, r')"
    "if view (server s) (''lock_'' @ name) = None then code = 0 \<and> view r' = (view (server s))(''lock_'' @ name \<mapsto> show_nat key)
       else code = 1 \<and> view r' = view (server s)"
    using lock_on_result[OF assms(1), of name key ttl "server s"] assms(2) Acquire by auto
  show ?thesis using l assms(3) Acquire by (fastforce simp: exclusive_def split: if_splits)
next
  case (Check p name key)
  show ?thesis
  proof (cases "(p, name, key) \<in> set (owners s)")
    case True
    then have "view (server s) (''lock_'' @ name) = Some (show_nat key)" using assms(3) by (auto simp: exclusive_def)
    moreover have "cstr (show_nat key) = show_nat key"
      using word_ok_nat[of key] by (auto simp: word_ok_def cstr_def takeWhile_eq_all_conv)
    ultimately obtain r' where "lock_off_get srv (server s) name (show_nat key) = Some (Off_match, r')" "view r' = view (server s)"
      using lock_off_results(1)[OF assms(1), of name "server s" key] assms(2) Check by auto
    then show ?thesis using True assms(3) Check by (auto simp: exclusive_def)
  qed (use assms(3) Check in simp)
next
  case (Delete p name key)
  show ?thesis
  proof (cases "(p, name, key) \<in> set (checked s)")
    case True
    obtain r' where d: "lock_off_del srv (server s) name = Some (0, r')" "view r' = (view (server s))(''lock_'' @ name := None)"
      using lock_off_results(2)[OF assms(1), of name "server s"] assms(2) Delete by auto
    let ?os = "filter (\<lambda>x. x \<noteq> (p, name, key)) (owners s)"
    have o: "(p, name, key) \<in> set (owners s)" "distinct (map (fst \<circ> snd) (owners s))" using True assms(3) by (auto simp: exclusive_def)
    then have "inj_on (fst \<circ> snd) (set (owners s))" by (simp add: distinct_map)
    then have "n \<noteq> name" if "(p', n, k) \<in> set ?os" for p' n k
      using that o(1) inj_onD[of "fst \<circ> snd" "set (owners s)" "(p', n, k)" "(p, name, key)"] by auto
    then have "\<forall>(p', n, k) \<in> set ?os. n \<noteq> name" by blast
    moreover have "distinct (map (fst \<circ> snd) ?os)" using o(2) by (simp add: distinct_map_filter)
    ultimately show ?thesis using d True assms(3) Delete by (auto simp: exclusive_def)
  qed (use assms(3) Delete in simp)
qed (use assms(2) in simp)

lemma lock_run_exclusive:
  "serves_locks srv view \<Longrightarrow> \<forall>e \<in> set es. plain_event e \<Longrightarrow> exclusive view s \<Longrightarrow>
    \<exists>s'. lock_run srv expire es s = Some s' \<and> exclusive view s'"
proof (induction es arbitrary: s)
  case (Cons e es)
  obtain s1 where "lock_step srv expire e s = Some s1" "exclusive view s1"
    using lock_step_exclusive[OF Cons.prems(1) _ Cons.prems(3), of e expire] Cons.prems(2) by auto
  then show ?case using Cons.IH[OF Cons.prems(1), of s1] Cons.prems(2) by simp
qed simp


text \<open>A server that stores texts and knows the four commands.\<close>

definition kv_server :: "(string \<Rightarrow> string option) redis_server" where
  "kv_server m c =
     (let set_nx = (\<lambda>k v. if m k = None then (Some (ReplyStatus ''OK''), m(k \<mapsto> v)) else (Some ReplyNil, m))
      in case strtok_all CHR '' '' c of
           [op, k] \<Rightarrow>
             if op = ''GET'' then (Some (case m k of None \<Rightarrow> ReplyNil | Some v \<Rightarrow> ReplyString v), m)
             else if op = ''DEL'' then (Some (ReplyInteger (if m k = None then 0 else 1)), m(k := None))
             else (Some (ReplyError ''ERR''), m)
         | [op, k, v, nx] \<Rightarrow> set_nx k v
         | [op, k, v, nx, px, t] \<Rightarrow> set_nx k v
         | _ \<Rightarrow> (Some (ReplyError ''ERR''), m))"

lemma strtok_word: "word_ok w \<Longrightarrow> strtok_all CHR '' '' (w @ CHR '' '' # s) = w # strtok_all CHR '' '' s"
  "word_ok w \<Longrightarrow> strtok_all CHR '' '' w = [w]"
  by (simp_all add: word_ok_def strtok_all_next)

lemma strtok_commands:
  "strtok_all CHR '' '' (''GET '' @ s) = ''GET'' # strtok_all CHR '' '' s"
  "strtok_all CHR '' '' (''DEL '' @ s) = ''DEL'' # strtok_all CHR '' '' s"
  "strtok_all CHR '' '' (''SET '' @ s) = ''SET'' # strtok_all CHR '' '' s"
  "strtok_all CHR '' '' (''NX PX '' @ s) = ''NX'' # ''PX'' # strtok_all CHR '' '' s"
  "strtok_all CHR '' '' ''NX'' = [''NX'']"
  using strtok_word(1)[of "''GET''"] strtok_word(1)[of "''DEL''"] strtok_word(1)[of "''SET''"]
    strtok_word(1)[of "''NX''"] strtok_word(1)[of "''PX''"] strtok_word(2)[of "''NX''"]
  by (simp_all add: word_ok_def)

lemma kv_server_set:
  assumes "word_ok k" "word_ok v" "opt = [] \<or> (\<exists>t. word_ok t \<and> opt = '' PX '' @ t)"
  shows "kv_server m (''SET '' @ k @ '' '' @ v @ '' NX'' @ opt)
    = (if m k = None then (Some (ReplyStatus ''OK''), m(k \<mapsto> v)) else (Some ReplyNil, m))"
proof -
  have "\<exists>ts. strtok_all CHR '' '' (''SET '' @ k @ '' '' @ v @ '' NX'' @ opt) = [''SET'', k, v, ''NX''] @ ts \<and> (ts = [] \<or> (\<exists>t. ts = [''PX'', t]))"
    using assms strtok_commands(3-5) by (auto simp: strtok_word)
  then show ?thesis by (auto simp: kv_server_def Let_def)
qed

lemma kv_server_get_del:
  assumes "word_ok k"
  shows "kv_server m (''GET '' @ k) = (Some (case m k of None \<Rightarrow> ReplyNil | Some v \<Rightarrow> ReplyString v), m)"
    "kv_server m (''DEL '' @ k) = (Some (ReplyInteger (if m k = None then 0 else 1)), m(k := None))"
  using strtok_commands(1,2)[of k] strtok_word(2)[OF assms] by (simp_all add: kv_server_def Let_def)

lemma kv_server_serves: "serves_locks kv_server (\<lambda>m. m)"
proof -
  have a: "case kv_server r (''SET '' @ k @ '' '' @ v @ '' NX'' @ opt) of (rep, r') \<Rightarrow>
      if r k = None then rep = Some (ReplyStatus ''OK'') \<and> r' = r(k \<mapsto> v) else rep = Some ReplyNil \<and> r' = r"
    if "word_ok k" "word_ok v" "opt = [] \<or> (\<exists>t. word_ok t \<and> opt = '' PX '' @ t)" for r k v opt
    unfolding kv_server_set[OF that] by simp
  have b: "case kv_server r (''GET '' @ k) of (rep, r') \<Rightarrow>
      rep = Some (case r k of None \<Rightarrow> ReplyNil | Some v \<Rightarrow> ReplyString v) \<and> r' = r"
    "case kv_server r (''DEL '' @ k) of (rep, r') \<Rightarrow> (\<exists>n. rep = Some (ReplyInteger n)) \<and> r' = r(k := None)"
    if "word_ok k" for r k
    unfolding kv_server_get_del[OF that] by simp_all
  show ?thesis unfolding serves_locks_def by (intro conjI allI impI; (elim conjE)?) (rule a b; assumption)+
qed



end
