(* ===== verification/Dhcp_Inet.thy ===== *)
theory Dhcp_Inet
  imports C_Stdlib
begin

text \<open>
  Internet addresses of the DHCP server and client: dhcp/common/inet.c. An address is the list of
  its bytes, of which there are \<open>len\<close>; the bytes of the buffer behind them are not modelled, and
  an address has at most 16 of them. Memory is always found. The lemmas relate the operations on
  bytes to the number that an address stands for: the networks of a range of addresses are a
  partition of it, the two parts of an address give it back, and the printed width of a mask is
  the number of its leading ones.
\<close>

type_synonym iaddr = "u8 list"

subsection \<open>Parts of addresses\<close>

text \<open>
  The result \<open>None\<close> is the end of the program: log_fatal, or an index in front of the buffer. An
  address of length 0 is the empty list.
\<close>

definition subnet_number :: "iaddr \<Rightarrow> iaddr \<Rightarrow> iaddr option" where
  "subnet_number addr msk =
     (if length addr > 16 \<or> length addr \<noteq> length msk then None else Some (map2 (AND) addr msk))"

text \<open>The bytes of a 32-bit number in network order.\<close>

definition htonl_bytes :: "u32 \<Rightarrow> u8 list" where
  "htonl_bytes w = [ucast (drop_bit 24 w), ucast (drop_bit 16 w), ucast (drop_bit 8 w), ucast w]"

definition ntohl_bytes :: "u8 list \<Rightarrow> u32" where
  "ntohl_bytes bs = foldl (\<lambda>a b. push_bit 8 a OR ucast b) 0 bs"

text \<open>The loop over the last four bytes, for the \<open>i\<close> bytes that are left.\<close>

fun ip_addr_loop :: "nat \<Rightarrow> nat \<Rightarrow> u8 list \<Rightarrow> iaddr \<Rightarrow> iaddr \<Rightarrow> iaddr" where
  "ip_addr_loop j 0 habuf msk rv = rv"
| "ip_addr_loop j (Suc i) habuf msk rv =
     (if msk ! (i + j) \<noteq> 0 then
        (if habuf ! i > msk ! (i + j) XOR 0xFF then []
         else if \<exists>h \<in> set (take i habuf). h \<noteq> 0 then []
         else rv[i + j := rv ! (i + j) OR habuf ! i])
      else ip_addr_loop j i habuf msk (rv[i + j := habuf ! i]))"

definition ip_addr :: "iaddr \<Rightarrow> iaddr \<Rightarrow> u32 \<Rightarrow> iaddr option" where
  "ip_addr subnet msk host_address =
     (if length subnet > 16 \<or> length subnet \<noteq> length msk \<or> length subnet < 4 then None
      else Some (ip_addr_loop (length subnet - 4) 4 (htonl_bytes host_address) msk subnet))"

definition broadcast_addr :: "iaddr \<Rightarrow> iaddr \<Rightarrow> iaddr option" where
  "broadcast_addr subnet msk =
     (if length subnet > 16 \<or> length subnet \<noteq> length msk then None
      else Some (map2 (\<lambda>s m. s OR (NOT m AND 255)) subnet msk))"

definition host_addr :: "iaddr \<Rightarrow> iaddr \<Rightarrow> u32 option" where
  "host_addr addr msk =
     (if length addr > 16 \<or> length addr \<noteq> length msk \<or> length addr < 4 then None
      else Some (ntohl_bytes (drop (length addr - 4) (map2 (\<lambda>a m. a AND NOT m) addr msk))))"

definition addr_eq :: "iaddr \<Rightarrow> iaddr \<Rightarrow> bool option" where
  "addr_eq a b = (if length a > 16 then None else Some (length a = length b \<and> a = b))"

definition addr_match :: "iaddr \<Rightarrow> iaddr \<times> iaddr \<Rightarrow> bool" where
  "addr_match addr m = (length addr = length (fst m) \<and> (\<forall>i < length addr. (addr ! i) AND (snd m ! i) = fst m ! i))"

subsection \<open>Comparing and combining\<close>

fun cmp_loop :: "iaddr \<Rightarrow> iaddr \<Rightarrow> int" where
  "cmp_loop (x # xs) (y # ys) = (if x < y then -1 else if x > y then 1 else cmp_loop xs ys)"
| "cmp_loop _ _ = 0"

definition addr_cmp :: "iaddr \<Rightarrow> iaddr \<Rightarrow> int" where
  "addr_cmp a b = (if length a \<noteq> length b then 0 else cmp_loop a b)"

text \<open>The result and whether it is not zero; addresses of different length give no result.\<close>

definition addr_or :: "iaddr \<Rightarrow> iaddr \<Rightarrow> iaddr option \<times> bool" where
  "addr_or a b =
     (if length a \<noteq> length b then (None, False)
      else let r = map2 (OR) a b in (Some r, \<exists>x \<in> set r. x \<noteq> 0))"

definition addr_and :: "iaddr \<Rightarrow> iaddr \<Rightarrow> iaddr option \<times> bool" where
  "addr_and a b =
     (if length a \<noteq> length b then (None, False)
      else let r = map2 (AND) a b in (Some r, \<exists>x \<in> set r. x \<noteq> 0))"

definition is_cidr_mask_valid :: "iaddr \<Rightarrow> int \<Rightarrow> bool" where
  "is_cidr_mask_valid addr bits =
     (if bits < 0 then False
      else if bits > int (length addr) * 8 then False
      else
        let zero_bits = length addr * 8 - nat bits;
            zero_bytes = zero_bits div 8;
            shift_bits = zero_bits mod 8
        in if \<exists>i \<in> set [1..<Suc zero_bytes]. addr ! (length addr - i) \<noteq> 0 then False
           else if shift_bits = 0 then True
           else let byte = addr ! (length addr - zero_bytes - 1)
                in push_bit shift_bits (drop_bit shift_bits byte) = byte)"

subsection \<open>Networks\<close>

record iaddrcidrnet =
  lo_addr :: iaddr
  net_bits :: int

text \<open>
  Adds to the byte at \<open>ofs\<close>, with the carry into the bytes in front of it; \<open>None\<close> if it goes past
  the last address.
\<close>

fun carry_loop :: "nat \<Rightarrow> nat \<Rightarrow> iaddr \<Rightarrow> iaddr option" where
  "carry_loop ofs tmp addr =
     (if tmp > 255 then
        (let a = addr[ofs := word_of_nat (tmp - 256)]
         in case ofs of 0 \<Rightarrow> None | Suc k \<Rightarrow> carry_loop k (unat (a ! k) + 1) a)
      else Some (addr[ofs := word_of_nat tmp]))"

definition add_network :: "nat \<Rightarrow> iaddr \<Rightarrow> iaddr option" where
  "add_network b addr =
     (if b div 8 < length addr
      then let ofs = length addr - b div 8 - 1 in carry_loop ofs (unat (addr ! ofs) + 2 ^ (b mod 8)) addr
      else None)"

definition set_mask_bit :: "nat \<Rightarrow> iaddr \<Rightarrow> iaddr" where
  "set_mask_bit b msk =
     (if b div 8 < length msk
      then let ofs = length msk - b div 8 - 1 in msk[ofs := msk ! ofs OR push_bit (b mod 8) 1] else msk)"

definition too_big :: "nat \<Rightarrow> iaddr \<Rightarrow> iaddr \<Rightarrow> iaddr \<Rightarrow> bool" where
  "too_big b addr msk hi \<longleftrightarrow> \<not> b div 8 < length addr
     \<or> addr_cmp (the (fst (addr_or addr msk))) hi > 0 \<or> snd (addr_and addr msk)"

subsection \<open>Addresses as numbers\<close>

fun addr_val :: "iaddr \<Rightarrow> nat" where
  "addr_val [] = 0"
| "addr_val (x # xs) = unat x * 2 ^ (8 * length xs) + addr_val xs"

lemma addr_val_less: "addr_val xs < 2 ^ (8 * length xs)"
proof (induction xs)
  case (Cons x xs)
  have "unat x < 256" using unsigned_less[of x, where ?'a = nat] by simp
  then have "(unat x + 1) * 2 ^ (8 * length xs) \<le> 256 * 2 ^ (8 * length xs)" by (intro mult_right_mono) simp_all
  also have "\<dots> = 2 ^ (8 * length (x # xs))" by (simp add: power_add)
  finally show ?case using Cons by simp
qed simp

lemma addr_val_append: "addr_val (xs @ ys) = addr_val xs * 2 ^ (8 * length ys) + addr_val ys"
  by (induction xs) (simp_all add: algebra_simps power_add)

lemma div_split: "s < (2 :: nat) ^ k \<Longrightarrow> drop_bit k (a * 2 ^ k + s) = a" "s < (2 :: nat) ^ k \<Longrightarrow> take_bit k (a * 2 ^ k + s) = s"
  by (simp_all add: drop_bit_eq_div take_bit_eq_mod)

lemma bit_split:
  assumes "s < (2 :: nat) ^ k"
  shows "bit (a * 2 ^ k + s) n \<longleftrightarrow> (if n < k then bit s n else bit a (n - k))"
proof (cases "n < k")
  case True
  have "bit (take_bit k (a * 2 ^ k + s)) n = bit (a * 2 ^ k + s) n" using True by (simp add: bit_take_bit_iff)
  then show ?thesis using True div_split(2)[OF assms] by simp
next
  case False
  have "bit (drop_bit k (a * 2 ^ k + s)) (n - k) = bit (a * 2 ^ k + s) n" using False by (simp add: bit_drop_bit_eq)
  then show ?thesis using False div_split(1)[OF assms] by simp
qed

lemma or_split:
  assumes "s < (2 :: nat) ^ k" "t < 2 ^ k"
  shows "(a * 2 ^ k + s) OR (b * 2 ^ k + t) = (a OR b) * 2 ^ k + (s OR t)" "(a * 2 ^ k + s) AND (b * 2 ^ k + t) = (a AND b) * 2 ^ k + (s AND t)"
proof -
  have "take_bit k s = s" "take_bit k t = t" using assms by (simp_all add: take_bit_nat_eq_self)
  then have "take_bit k (s OR t) = s OR t" "take_bit k (s AND t) = s AND t" by (simp_all add: take_bit_or take_bit_and)
  then have l: "s OR t < 2 ^ k" "s AND t < 2 ^ k" by (metis take_bit_nat_less_exp)+
  show "(a * 2 ^ k + s) OR (b * 2 ^ k + t) = (a OR b) * 2 ^ k + (s OR t)" "(a * 2 ^ k + s) AND (b * 2 ^ k + t) = (a AND b) * 2 ^ k + (s AND t)"
    by (rule bit_eqI; simp add: bit_or_iff bit_and_iff bit_split[OF assms(1)] bit_split[OF assms(2)] bit_split[OF l(1)] bit_split[OF l(2)])+
qed

lemma addr_val_bitwise:
  assumes "length xs = length ys"
  shows "addr_val (map2 (OR) xs ys) = addr_val xs OR addr_val ys" "addr_val (map2 (AND) xs ys) = addr_val xs AND addr_val ys"
  using assms
proof (induction xs ys rule: list_induct2)
  case (Cons x xs y ys)
  note l = addr_val_less[of xs] addr_val_less[of ys, folded Cons.hyps]
  { case 1 then show ?case using Cons or_split(1)[OF l] by (simp add: unsigned_or_eq) }
  { case 2 then show ?case using Cons or_split(2)[OF l] by (simp add: unsigned_and_eq) }
qed simp_all

lemma addr_val_zero: "(\<exists>x \<in> set xs. x \<noteq> 0) \<longleftrightarrow> addr_val xs \<noteq> 0"
  by (induction xs) (simp_all add: unat_eq_0)

lemma addr_val_inject: "length xs = length ys \<Longrightarrow> addr_val xs = addr_val ys \<longleftrightarrow> xs = ys"
proof (induction xs ys rule: list_induct2)
  case (Cons x xs y ys)
  have "unat x = unat y \<and> addr_val xs = addr_val ys" if "addr_val (x # xs) = addr_val (y # ys)"
    using that div_split[OF addr_val_less[of xs], of "unat x"] div_split[OF addr_val_less[of ys], of "unat y"] Cons.hyps
    by (metis addr_val.simps(2))
  then show ?case using Cons.IH by (auto simp: word_unat_eq_iff)
qed simp

lemma cmp_loop_val: "length xs = length ys \<Longrightarrow>
    cmp_loop xs ys = (if addr_val xs < addr_val ys then -1 else if addr_val xs > addr_val ys then 1 else 0)"
proof (induction xs ys rule: list_induct2)
  case (Cons x xs y ys)
  have less: "addr_val (a # as) < addr_val (b # bs)" if "a < b" "length as = length bs" for a b :: u8 and as bs
  proof -
    have "unat a + 1 \<le> unat b" using that(1) by (simp add: word_less_nat_alt)
    then have "(unat a + 1) * 2 ^ (8 * length as) \<le> unat b * 2 ^ (8 * length as)" by (rule mult_right_mono) simp
    then show ?thesis using addr_val_less[of as] that(2) by simp
  qed
  then show ?case using Cons less[of x y xs ys] less[of y x ys xs] by (cases x y rule: linorder_cases) auto
qed simp

lemma addr_val_update:
  "ofs < length xs \<Longrightarrow> addr_val (xs[ofs := v]) + unat (xs ! ofs) * 2 ^ (8 * (length xs - Suc ofs))
     = addr_val xs + unat v * 2 ^ (8 * (length xs - Suc ofs))"
proof (induction xs arbitrary: ofs)
  case (Cons x xs)
  then show ?case by (cases ofs) simp_all
qed simp

lemma addr_val_byte: "ofs < length xs \<Longrightarrow> unat (xs ! ofs) * 2 ^ (8 * (length xs - Suc ofs)) \<le> addr_val xs"
  using addr_val_update[of ofs xs 0] by simp

declare carry_loop.simps [simp del]

lemma carry_loop_val:
  assumes "ofs < length addr" "tmp < 512" "v + unat (addr ! ofs) * 2 ^ (8 * (length addr - Suc ofs)) = addr_val addr + tmp * 2 ^ (8 * (length addr - Suc ofs))"
  shows "(case carry_loop ofs tmp addr of None \<Rightarrow> 2 ^ (8 * length addr) \<le> v | Some a \<Rightarrow> addr_val a = v \<and> length a = length addr)"
  using assms
proof (induction ofs arbitrary: tmp addr)
  case 0
  have w: "(2 :: nat) ^ (8 * length addr) = 256 * 2 ^ (8 * (length addr - 1))"
    using 0(1) by (cases "length addr") (simp_all add: power_add)
  show ?case
  proof (cases "tmp > 255")
    case True
    then have "256 * 2 ^ (8 * (length addr - 1)) \<le> tmp * 2 ^ (8 * (length addr - 1))" by (intro mult_right_mono) simp_all
    moreover have "unat (addr ! 0) * 2 ^ (8 * (length addr - 1)) \<le> addr_val addr" using addr_val_byte[OF 0(1)] by simp
    ultimately have "2 ^ (8 * length addr) \<le> v" unfolding w using 0(3) unfolding One_nat_def by linarith
    then show ?thesis using True by (simp add: carry_loop.simps[of 0 tmp addr] Let_def)
  next
    case False
    then show ?thesis using 0 addr_val_update[of 0 addr "word_of_nat tmp"]
      by (simp add: carry_loop.simps[of 0 tmp addr] unat_of_nat)
  qed
next
  case (Suc k)
  let ?w = "2 ^ (8 * (length addr - Suc (Suc k))) :: nat"
  have w: "(2 :: nat) ^ (8 * (length addr - Suc k)) = 256 * ?w"
    using Suc.prems(1) by (simp add: Suc_diff_Suc[symmetric] power_add)
  show ?case
  proof (cases "tmp > 255")
    case True
    let ?a = "addr[Suc k := word_of_nat (tmp - 256)]"
    have n: "unat (word_of_nat (tmp - 256) :: u8) = tmp - 256" using True Suc.prems(2) by (subst unat_of_nat) simp
    have u: "addr_val ?a + unat (addr ! Suc k) * ?w = addr_val addr + (tmp - 256) * ?w"
      using addr_val_update[OF Suc.prems(1), of "word_of_nat (tmp - 256)"] unfolding n .
    have "tmp * ?w = (tmp - 256 + 256) * ?w" using True by simp
    then have "tmp * ?w = (tmp - 256) * ?w + 256 * ?w" by (simp only: distrib_right)
    then have "v = addr_val ?a + 256 * ?w" using Suc.prems(3) u by simp
    moreover have "unat (?a ! k) < 256" using unsigned_less[of "?a ! k", where ?'a = nat] by simp
    ultimately have "case carry_loop k (unat (?a ! k) + 1) ?a of None \<Rightarrow> 2 ^ (8 * length ?a) \<le> v | Some a \<Rightarrow> addr_val a = v \<and> length a = length ?a"
      using Suc.prems(1) w by (intro Suc.IH) (simp_all add: algebra_simps)
    then show ?thesis using True unfolding length_list_update by (simp add: carry_loop.simps[of "Suc k" tmp addr] Let_def)
  next
    case False
    then show ?thesis using Suc.prems addr_val_update[of "Suc k" addr "word_of_nat tmp"]
      by (simp add: carry_loop.simps[of "Suc k" tmp addr] unat_of_nat)
  qed
qed

lemma add_network_val:
  "case add_network b addr of None \<Rightarrow> 2 ^ (8 * length addr) \<le> addr_val addr + 2 ^ b
     | Some a \<Rightarrow> addr_val a = addr_val addr + 2 ^ b \<and> length a = length addr"
proof (cases "b div 8 < length addr")
  case True
  let ?ofs = "length addr - b div 8 - 1"
  have o: "?ofs < length addr" "length addr - Suc ?ofs = b div 8" using True by simp_all
  have b: "(2 :: nat) ^ b = 2 ^ (b mod 8) * 2 ^ (8 * (b div 8))" by (simp flip: power_add)
  have "unat (addr ! ?ofs) < 256" using unsigned_less[of "addr ! ?ofs", where ?'a = nat] by simp
  moreover have "(2 :: nat) ^ (b mod 8) \<le> 2 ^ 7" by (intro power_increasing) simp_all
  ultimately have t: "unat (addr ! ?ofs) + 2 ^ (b mod 8) < 512" by simp
  have "addr_val addr + 2 ^ b + unat (addr ! ?ofs) * 2 ^ (8 * (length addr - Suc ?ofs))
      = addr_val addr + (unat (addr ! ?ofs) + 2 ^ (b mod 8)) * 2 ^ (8 * (length addr - Suc ?ofs))"
    unfolding o(2) b distrib_right by simp
  from carry_loop_val[OF o(1) t this] True show ?thesis by (simp only: add_network_def Let_def if_True)
next
  case False
  then have "8 * length addr \<le> b" by linarith
  then have "(2 :: nat) ^ (8 * length addr) \<le> 2 ^ b" by (intro power_increasing) simp_all
  then have "2 ^ (8 * length addr) \<le> addr_val addr + 2 ^ b" by (rule trans_le_add2)
  then show ?thesis using False by (simp only: add_network_def if_False option.case)
qed

lemma set_mask_bit_val:
  assumes "addr_val m = 2 ^ b - 1" "b < 8 * length m"
  shows "addr_val (set_mask_bit b m) = 2 ^ Suc b - 1" "length (set_mask_bit b m) = length m"
proof -
  let ?ofs = "length m - b div 8 - 1" and ?j = "b mod 8" and ?w = "2 ^ (8 * (b div 8)) :: nat"
  have o: "?ofs < length m" "length m - Suc ?ofs = b div 8" "b div 8 < length m" using assms(2) by simp_all
  have b: "(2 :: nat) ^ b = 2 ^ ?j * ?w" by (simp flip: power_add)
  have "unat (m ! ?ofs) * ?w \<le> 2 ^ b - 1" using addr_val_byte[OF o(1)] o(2) assms(1) by simp
  also have "\<dots> < 2 ^ ?j * ?w" using b by simp
  finally have s: "unat (m ! ?ofs) < 2 ^ ?j" by simp
  have "(2 :: nat) ^ ?j \<le> 2 ^ 7" by (intro power_increasing) simp_all
  then have "unat (2 ^ ?j :: u8) = 2 ^ ?j" using unat_of_nat[of "2 ^ ?j", where ?'a = 8] by simp
  then have "unat (m ! ?ofs OR push_bit ?j 1) = unat (m ! ?ofs) OR 2 ^ ?j"
    by (simp add: unsigned_or_eq push_bit_eq_mult)
  also have "\<dots> = unat (m ! ?ofs) + 2 ^ ?j" using or_split(1)[OF s, of 0 0 1] by (simp add: add.commute)
  finally have "addr_val (set_mask_bit b m) + unat (m ! ?ofs) * ?w = addr_val m + (unat (m ! ?ofs) + 2 ^ ?j) * ?w"
    using addr_val_update[OF o(1), of "m ! ?ofs OR push_bit ?j 1"] o(2,3) by (simp only: set_mask_bit_def Let_def if_True)
  then have "addr_val (set_mask_bit b m) = 2 ^ b - 1 + 2 ^ b" unfolding distrib_right b[symmetric] assms(1) by linarith
  then show "addr_val (set_mask_bit b m) = 2 ^ Suc b - 1" by simp
qed (simp add: set_mask_bit_def Let_def)

subsection \<open>Ranges as networks\<close>

text \<open>
  The loop: the address, the size of the network as a number of bits, the mask of that size
  and the networks found so far, the last one first. The address grows, or the network does,
  up to the size of an address.
\<close>

function (sequential) cidr_loop :: "iaddr \<Rightarrow> iaddr \<Rightarrow> nat \<Rightarrow> iaddr \<Rightarrow> iaddrcidrnet list \<Rightarrow> iaddrcidrnet list" where
  "cidr_loop hi addr b msk nets =
     (if addr_cmp addr hi \<le> 0 then
        (let msk1 = set_mask_bit b msk
         in if too_big b addr msk1 hi then
              (let nets1 = \<lparr>lo_addr = addr, net_bits = int (length addr) * 8 - int b\<rparr> # nets
               in case add_network b addr of
                    None \<Rightarrow> nets1
                  | Some addr1 \<Rightarrow> cidr_loop hi addr1 0 (replicate (length msk) 0) nets1)
            else cidr_loop hi addr (Suc b) msk1 nets)
      else nets)"
  by pat_completeness auto
termination cidr_loop
proof (relation "measures [\<lambda>(hi, addr, b, msk, nets). 2 ^ (8 * length addr) - addr_val addr,
    \<lambda>(hi, addr, b, msk, nets). 8 * length addr - b]", goal_cases)
  case (2 hi addr b msk nets msk1 nets1 addr1)
  then have "addr_val addr1 = addr_val addr + 2 ^ b" "length addr1 = length addr" using add_network_val[where b = b and addr = addr] by simp_all
  moreover have "addr_val addr1 < 2 ^ (8 * length addr1)" by (rule addr_val_less)
  moreover have "(0 :: nat) < 2 ^ b" by simp
  ultimately have "2 ^ (8 * length addr1) - addr_val addr1 < 2 ^ (8 * length addr) - addr_val addr" by (simp only: diff_less_mono2)
  then show ?case by simp
next
  case (3 hi addr b msk nets msk1)
  then have "b div 8 < length addr" by (simp add: too_big_def)
  then have "b < 8 * length addr" by linarith
  then show ?case by simp
qed simp

declare cidr_loop.simps [simp del]

datatype dhcp_result = ISC_R_SUCCESS | DHCP_R_INVALIDARG

text \<open>
  The argument \<open>result\<close> is the variable that the caller passes the address of, with the list it
  holds; a null pointer is \<open>None\<close>.
\<close>

definition range2cidr :: "iaddrcidrnet list option \<Rightarrow> iaddr option \<Rightarrow> iaddr option \<Rightarrow> dhcp_result \<times> iaddrcidrnet list option" where
  "range2cidr result lo hi =
     (case (result, lo, hi) of
        (Some [], Some l, Some h) \<Rightarrow>
          if length l \<noteq> length h then (DHCP_R_INVALIDARG, result)
          else let (l1, h1) = (if addr_cmp l h > 0 then (h, l) else (l, h))
               in (ISC_R_SUCCESS, Some (cidr_loop h1 l1 0 (replicate (length l1) 0) []))
      | _ \<Rightarrow> (DHCP_R_INVALIDARG, result))"

definition free_iaddrcidrnetlist :: "iaddrcidrnet list option \<Rightarrow> dhcp_result \<times> iaddrcidrnet list option" where
  "free_iaddrcidrnetlist result =
     (case result of Some (_ # _) \<Rightarrow> (ISC_R_SUCCESS, Some []) | _ \<Rightarrow> (DHCP_R_INVALIDARG, result))"

text \<open>
  Networks of addresses of \<open>w\<close> bits that lie behind each other and fill a range, each starting
  at a multiple of its size.
\<close>

fun tiles :: "nat \<Rightarrow> nat \<Rightarrow> nat \<Rightarrow> iaddrcidrnet list \<Rightarrow> bool" where
  "tiles w lo hi [] \<longleftrightarrow> lo = Suc hi"
| "tiles w lo hi (n # ns) \<longleftrightarrow> (\<exists>b \<le> w. net_bits n = int w - int b \<and> 8 * length (lo_addr n) = w \<and> addr_val (lo_addr n) = lo \<and> 2 ^ b dvd lo
     \<and> lo + 2 ^ b \<le> Suc hi \<and> tiles w (lo + 2 ^ b) hi ns)"

lemma addr_cmp_val: "length a = length b \<Longrightarrow> addr_cmp a b \<le> 0 \<longleftrightarrow> addr_val a \<le> addr_val b"
  "length a = length b \<Longrightarrow> addr_cmp a b > 0 \<longleftrightarrow> addr_val a > addr_val b"
  by (simp_all add: addr_cmp_def cmp_loop_val)

lemma addr_val_replicate [simp]: "addr_val (replicate n 0) = 0"
  by (induction n) simp_all

lemma too_big_val:
  assumes "length m = length addr" "length hi = length addr" "addr_val m = 2 ^ Suc b - 1" "b < 8 * length addr" "\<not> too_big b addr m hi"
  shows "2 ^ Suc b dvd addr_val addr" "addr_val addr + 2 ^ Suc b \<le> Suc (addr_val hi)"
proof -
  have m: "addr_val m = mask (Suc b)" using assms(3) by (simp add: mask_eq_exp_minus_1)
  have "addr_val addr AND addr_val m = 0"
    using assms(1,5) addr_val_zero[of "map2 (AND) addr m"] addr_val_bitwise(2)[of addr m] by (simp add: too_big_def addr_and_def Let_def)
  then have t: "take_bit (Suc b) (addr_val addr) = 0" using m by (simp add: take_bit_eq_mask)
  then show "2 ^ Suc b dvd addr_val addr" by (simp add: take_bit_eq_mod mod_eq_0_iff_dvd)
  then obtain q where q: "addr_val addr = q * 2 ^ Suc b" by (metis dvd_def mult.commute)
  have "mask (Suc b) < (2 :: nat) ^ Suc b" by (simp add: mask_eq_exp_minus_1)
  from or_split(1)[OF _ this, of 0 q 0] have "addr_val addr OR addr_val m = addr_val addr + (2 ^ Suc b - 1)"
    using q m by (simp add: mask_eq_exp_minus_1)
  moreover have "addr_val (map2 (OR) addr m) \<le> addr_val hi"
    using assms(1,2,5) addr_cmp_val(2)[of "map2 (OR) addr m" hi] by (simp add: too_big_def addr_or_def Let_def)
  moreover have "(1 :: nat) \<le> 2 ^ Suc b" by simp
  ultimately show "addr_val addr + 2 ^ Suc b \<le> Suc (addr_val hi)"
    using addr_val_bitwise(1)[of addr m] assms(1) by linarith
qed

lemma cidr_loop_tiles:
  assumes "length addr = length hi" "length msk = length hi" "b \<le> 8 * length hi" "addr_val msk = 2 ^ b - 1"
    "2 ^ b dvd addr_val addr" "addr_val addr + 2 ^ b \<le> Suc (addr_val hi)"
  shows "\<exists>ns. cidr_loop hi addr b msk nets = rev ns @ nets \<and> tiles (8 * length hi) (addr_val addr) (addr_val hi) ns"
  using assms
proof (induction hi addr b msk nets rule: cidr_loop.induct)
  case (1 hi addr b msk nets)
  let ?m = "set_mask_bit b msk" and ?n = "\<lparr>lo_addr = addr, net_bits = int (length addr) * 8 - int b\<rparr>"
  note p = "1.prems"
  have "(1 :: nat) \<le> 2 ^ b" by simp
  then have "addr_val addr \<le> addr_val hi" using p(6) by linarith
  then have le: "addr_cmp addr hi \<le> 0" using addr_cmp_val(1)[of addr hi] p(1) by simp
  note step = cidr_loop.simps[of hi addr b msk nets, unfolded if_P[OF le] Let_def]
  show ?case
  proof (cases "too_big b addr ?m hi")
    case True
    have tile: "tiles (8 * length hi) (addr_val addr) (addr_val hi) (?n # ns)" if "tiles (8 * length hi) (addr_val addr + 2 ^ b) (addr_val hi) ns" for ns
      using that p by (simp only: tiles.simps) (rule exI[of _ b], simp)
    show ?thesis
    proof (cases "add_network b addr")
      case None
      then have "addr_val addr + 2 ^ b = Suc (addr_val hi)"
        using add_network_val[where b = b and addr = addr] p(1,6) addr_val_less[of hi] by simp
      then show ?thesis using step True None tile[of "[]"] by (intro exI[of _ "[?n]"]) simp
    next
      case (Some a)
      then have a: "addr_val a = addr_val addr + 2 ^ b" "length a = length addr" using add_network_val[where b = b and addr = addr] by simp_all
      show ?thesis
      proof (cases "addr_val a \<le> addr_val hi")
        case fits: True
        obtain ns where "cidr_loop hi a 0 (replicate (length msk) 0) (?n # nets) = rev ns @ ?n # nets"
          "tiles (8 * length hi) (addr_val a) (addr_val hi) ns"
          using "1.IH"(1)[OF le refl True refl Some] p(1,2) a fits by auto
        then show ?thesis using step True Some tile[of ns] a by (intro exI[of _ "?n # ns"]) simp
      next
        case False
        then have "addr_val a = Suc (addr_val hi)" using a p(6) by simp
        moreover have "\<not> addr_cmp a hi \<le> 0" using False addr_cmp_val(1)[of a hi] a(2) p(1) by simp
        ultimately show ?thesis using step True Some tile[of "[]"] a
          by (intro exI[of _ "[?n]"]) (simp add: cidr_loop.simps[of hi a])
      qed
    qed
  next
    case False
    then have b: "b < 8 * length hi" using p(1) by (simp add: too_big_def) linarith
    have lb: "b < 8 * length msk" "b < 8 * length addr" using b p(1,2) by simp_all
    note m = set_mask_bit_val[OF p(4) lb(1), unfolded p(2)]
    have "length ?m = length addr" "length hi = length addr" using m(2) p(1) by simp_all
    note big = too_big_val[OF this m(1) lb(2) False]
    have "Suc b \<le> 8 * length hi" using b by simp
    from "1.IH"(2)[OF le refl False p(1) m(2) this m(1) big] step False show ?thesis by simp
  qed
qed

text \<open>
  The networks of a range contain every address of the range exactly once and no other one.
\<close>

definition in_network :: "iaddr \<Rightarrow> iaddrcidrnet \<Rightarrow> bool" where
  "in_network a n \<longleftrightarrow> addr_val (lo_addr n) \<le> addr_val a
     \<and> addr_val a < addr_val (lo_addr n) + 2 ^ nat (int (length a) * 8 - net_bits n)"

lemma tiles_count:
  assumes "tiles (8 * length a) lo hi ns" "lo \<le> Suc hi"
  shows "length (filter (in_network a) ns) = (if lo \<le> addr_val a \<and> addr_val a \<le> hi then 1 else 0)"
  using assms
proof (induction ns arbitrary: lo)
  case (Cons n ns)
  then obtain b where b: "net_bits n = int (8 * length a) - int b" "addr_val (lo_addr n) = lo" "lo + 2 ^ b \<le> Suc hi"
    "tiles (8 * length a) (lo + 2 ^ b) hi ns" by auto
  have "in_network a n \<longleftrightarrow> lo \<le> addr_val a \<and> addr_val a < lo + 2 ^ b" using b(1,2) by (simp add: in_network_def)
  then show ?case using Cons.IH[OF b(4,3)] b(3) by auto
qed simp

lemma dvd_split:
  assumes "(t :: nat) < 2 ^ k"
  shows "2 ^ (k + s) dvd a * 2 ^ k + t \<longleftrightarrow> t = 0 \<and> 2 ^ s dvd a"
proof
  assume d: "2 ^ (k + s) dvd a * 2 ^ k + t"
  then have "2 ^ k dvd a * 2 ^ k + t" by (rule power_le_dvd) simp
  then have "2 ^ k dvd t" by (simp add: dvd_add_right_iff)
  then have t: "t = 0" using assms dvd_imp_le[of "2 ^ k" t] by (cases "t = 0") simp_all
  then show "t = 0 \<and> 2 ^ s dvd a" using d by (simp add: power_add mult.commute)
qed (simp add: power_add mult.commute)

lemma shifted_byte: "s < 8 \<Longrightarrow> push_bit s (drop_bit s (x :: u8)) = x \<longleftrightarrow> 2 ^ s dvd unat x"
proof -
  assume "s < 8"
  have "push_bit s (drop_bit s x) = x \<longleftrightarrow> take_bit s x = 0"
    using bits_ident[of s x] by (metis add_cancel_right_right)
  also have "\<dots> \<longleftrightarrow> take_bit s (unat x) = 0" by (metis unsigned_take_bit_eq unsigned_0 unsigned_eq_0_iff)
  finally show ?thesis by (simp add: take_bit_eq_mod mod_eq_0_iff_dvd)
qed

lemma is_cidr_mask_valid_val:
  "is_cidr_mask_valid addr k \<longleftrightarrow> 0 \<le> k \<and> k \<le> int (length addr) * 8 \<and> 2 ^ nat (int (length addr) * 8 - k) dvd addr_val addr"
proof (cases "0 \<le> k \<and> k \<le> int (length addr) * 8")
  case True
  define z where "z = length addr * 8 - nat k"
  define c where "c = z div 8"
  have z: "nat (int (length addr) * 8 - k) = z" "z \<le> length addr * 8" "z = 8 * c + z mod 8" "c \<le> length addr"
    using True by (auto simp: z_def c_def)
  let ?xs = "take (length addr - c) addr" and ?ys = "drop (length addr - c) addr"
  have y: "length ?ys = c" using z(4) by simp
  have "addr_val addr = addr_val ?xs * 2 ^ (8 * c) + addr_val ?ys" using addr_val_append[of ?xs ?ys] y by simp
  then have d: "2 ^ z dvd addr_val addr \<longleftrightarrow> addr_val ?ys = 0 \<and> 2 ^ (z mod 8) dvd addr_val ?xs"
    using dvd_split[of "addr_val ?ys" "8 * c" "z mod 8" "addr_val ?xs"] addr_val_less[of ?ys] y z(3) by simp
  have e: "(\<exists>i \<in> set [1..<Suc c]. addr ! (length addr - i) \<noteq> 0) \<longleftrightarrow> addr_val ?ys \<noteq> 0"
  proof -
    have "(\<exists>i \<in> set [1..<Suc c]. addr ! (length addr - i) \<noteq> 0) \<longleftrightarrow> (\<exists>j < c. ?ys ! j \<noteq> 0)"
    proof
      assume "\<exists>i \<in> set [1..<Suc c]. addr ! (length addr - i) \<noteq> 0"
      then obtain i where "1 \<le> i" "i \<le> c" "addr ! (length addr - i) \<noteq> 0" by auto
      then show "\<exists>j < c. ?ys ! j \<noteq> 0" using z(4) by (intro exI[of _ "c - i"]) (simp add: add.commute)
    next
      assume "\<exists>j < c. ?ys ! j \<noteq> 0"
      then obtain j where "j < c" "?ys ! j \<noteq> 0" by blast
      then show "\<exists>i \<in> set [1..<Suc c]. addr ! (length addr - i) \<noteq> 0" using z(4) by (intro bexI[of _ "c - j"]) (simp_all add: add.commute, linarith)
    qed
    then show ?thesis using addr_val_zero[of ?ys] y by (metis in_set_conv_nth)
  qed
  have m: "is_cidr_mask_valid addr k \<longleftrightarrow> addr_val ?ys = 0
      \<and> (z mod 8 = 0 \<or> push_bit (z mod 8) (drop_bit (z mod 8) (addr ! (length addr - c - 1))) = addr ! (length addr - c - 1))"
    unfolding is_cidr_mask_valid_def z_def[symmetric] c_def[symmetric] Let_def e using True by simp
  show ?thesis
  proof (cases "z mod 8 = 0")
    case False
    then have l: "c < length addr" using z(2,3) by linarith
    then have "length addr - c = Suc (length addr - c - 1)" "length addr - c - 1 < length addr" by simp_all
    then have x: "?xs = take (length addr - c - 1) addr @ [addr ! (length addr - c - 1)]"
      by (metis take_Suc_conv_app_nth)
    have "addr_val ?xs = addr_val (take (length addr - c - 1) addr) * 2 ^ 8 + unat (addr ! (length addr - c - 1))"
      unfolding x addr_val_append by simp
    then have "2 ^ (z mod 8) dvd addr_val ?xs \<longleftrightarrow> 2 ^ (z mod 8) dvd unat (addr ! (length addr - c - 1))"
      using dvd_add_right_iff[OF dvd_mult[OF le_imp_power_dvd[of "z mod 8" 8 "2 :: nat"]], of "addr_val (take (length addr - c - 1) addr)"]
      by simp
    then show ?thesis using True d m z(1) False shifted_byte[of "z mod 8"] by simp
  qed (use True d m z(1) in simp)
qed (auto simp: is_cidr_mask_valid_def)

lemma tiles_valid: "tiles w lo hi ns \<Longrightarrow> n \<in> set ns \<Longrightarrow> is_cidr_mask_valid (lo_addr n) (net_bits n)"
proof (induction ns arbitrary: lo)
  case (Cons x ns)
  then obtain b where b: "b \<le> w" "net_bits x = int w - int b" "8 * length (lo_addr x) = w" "2 ^ b dvd addr_val (lo_addr x)"
    "tiles w (lo + 2 ^ b) hi ns" by auto
  have "nat (int (length (lo_addr x)) * 8 - net_bits x) = b" using b(2,3) by linarith
  then have "is_cidr_mask_valid (lo_addr x) (net_bits x)" unfolding is_cidr_mask_valid_val using b by auto
  then show ?case using Cons b(5) by auto
qed simp

text \<open>
  C17. The networks that a range of addresses is turned into are a partition of it: every
  address between the two ends lies in exactly one of them, every other one in none, and
  each is a valid network. The ends may be given in any order. The loop ends for every
  range, the range of all addresses included.
\<close>

theorem range2cidr_partition:
  assumes "length lo = length hi" "length a = length hi"
  shows "\<exists>nets. range2cidr (Some []) (Some lo) (Some hi) = (ISC_R_SUCCESS, Some nets)
    \<and> length (filter (in_network a) nets)
        = (if min (addr_val lo) (addr_val hi) \<le> addr_val a \<and> addr_val a \<le> max (addr_val lo) (addr_val hi) then 1 else 0)
    \<and> (\<forall>n \<in> set nets. is_cidr_mask_valid (lo_addr n) (net_bits n))"
proof -
  let ?loop = "\<lambda>h l. cidr_loop h l 0 (replicate (length l) 0) []"
  have part: "length (filter (in_network a) (?loop h l)) = (if addr_val l \<le> addr_val a \<and> addr_val a \<le> addr_val h then 1 else 0)"
      "\<forall>n \<in> set (?loop h l). is_cidr_mask_valid (lo_addr n) (net_bits n)"
    if r: "addr_val l \<le> addr_val h" "length l = length h" "length h = length a" for l h
  proof -
    obtain ns where ns: "?loop h l = rev ns" "tiles (8 * length h) (addr_val l) (addr_val h) ns"
      using cidr_loop_tiles[of l h "replicate (length l) 0" 0 "[]"] r by auto
    show "length (filter (in_network a) (?loop h l)) = (if addr_val l \<le> addr_val a \<and> addr_val a \<le> addr_val h then 1 else 0)"
      "\<forall>n \<in> set (?loop h l). is_cidr_mask_valid (lo_addr n) (net_bits n)"
      unfolding ns(1) using tiles_count[of a "addr_val l" "addr_val h" ns] tiles_valid[OF ns(2)] ns(2) r
      by (simp_all add: rev_filter[symmetric])
  qed
  show ?thesis
  proof (cases "addr_val lo > addr_val hi")
    case True
    then have r: "range2cidr (Some []) (Some lo) (Some hi) = (ISC_R_SUCCESS, Some (?loop lo hi))" using assms(1) addr_cmp_val(2)[OF assms(1)] by (simp add: range2cidr_def)
    have m: "min (addr_val lo) (addr_val hi) = addr_val hi" "max (addr_val lo) (addr_val hi) = addr_val lo" using True by simp_all
    have le: "addr_val hi \<le> addr_val lo" "length hi = length lo" "length lo = length a" using True assms by simp_all
    show ?thesis unfolding r m using part[OF le] by (intro exI[of _ "?loop lo hi"] conjI refl)
  next
    case False
    then have r: "range2cidr (Some []) (Some lo) (Some hi) = (ISC_R_SUCCESS, Some (?loop hi lo))" using assms(1) addr_cmp_val(2)[OF assms(1)] by (simp add: range2cidr_def)
    have m: "min (addr_val lo) (addr_val hi) = addr_val lo" "max (addr_val lo) (addr_val hi) = addr_val hi" using False by simp_all
    have le: "addr_val lo \<le> addr_val hi" "length lo = length hi" "length hi = length a" using False assms by simp_all
    show ?thesis unfolding r m using part[OF le] by (intro exI[of _ "?loop hi lo"] conjI refl)
  qed
qed

theorem range2cidr_partition_witness:
  "\<exists>nets. range2cidr (Some []) (Some [10, 0, 1, 127]) (Some [10, 0, 0, 5]) = (ISC_R_SUCCESS, Some nets)
    \<and> length (filter (in_network [10, 0, 1, 0]) nets) = 1
    \<and> (\<forall>n \<in> set nets. is_cidr_mask_valid (lo_addr n) (net_bits n))"
  using range2cidr_partition[of "[10, 0, 1, 127]" "[10, 0, 0, 5]" "[10, 0, 1, 0]"] by simp

subsection \<open>Subnet and host\<close>

lemma host_bytes: "htonl_bytes (ntohl_bytes [a, b, c, d]) = [a, b, c, d]"
proof -
  let ?w = "ntohl_bytes [a, b, c, d]"
  have "ucast (drop_bit 24 ?w) = a" "ucast (drop_bit 16 ?w) = b" "ucast (drop_bit 8 ?w) = c" "ucast ?w = d"
    by (rule bit_word_eqI; auto simp: ntohl_bytes_def bit_simps dest: bit_imp_le_length)+
  then show ?thesis by (simp add: htonl_bytes_def)
qed


lemma host_byte:
  fixes x m :: u8
  shows "(x AND m) OR (x AND NOT m) = x" "x AND NOT m \<le> m XOR 0xFF" "x AND 0xFF = x" "x AND NOT 0xFF = 0"
proof -
  have f: "(0xFF :: u8) = NOT 0" by simp
  show "(x AND m) OR (x AND NOT m) = x" by (simp flip: bit.conj_disj_distrib)
  have "(x AND NOT m) OR NOT m = NOT m" by (rule bit_word_eqI) (auto simp: bit_simps)
  then have "x AND NOT m \<le> NOT m" by (metis word_and_le1 word_ao_absorbs(2) word_bw_comms(1))
  moreover have "m XOR 0xFF = NOT m" unfolding f by (rule bit_word_eqI) (auto simp: bit_simps)
  ultimately show "x AND NOT m \<le> m XOR 0xFF" by simp
  show "x AND 0xFF = x" "x AND NOT 0xFF = 0" unfolding f by simp_all
qed

lemma ip_addr_loop_parts:
  assumes "length msk = length a" "length a = d + 4" "length rv = length a" "length hs = 4" "i \<le> 4" "d \<le> p"
    "\<forall>k < p. k < length a \<longrightarrow> msk ! k = 0xFF" "\<forall>k < length a. p < k \<longrightarrow> msk ! k = 0"
    "\<forall>k < 4. hs ! k = a ! (k + d) AND NOT (msk ! (k + d))"
    "\<forall>k < length a. rv ! k = (if i + d \<le> k then a ! k else a ! k AND msk ! k)"
  shows "ip_addr_loop d i hs msk rv = a"
  using assms(3,5,10)
proof (induction i arbitrary: rv)
  case 0
  have "rv ! k = a ! k" if "k < length a" for k
    using 0(3) assms(6,7) that host_byte(3)[of "a ! k"] by (cases "d \<le> k") simp_all
  then show ?case using 0(1) by (simp add: nth_equalityI)
next
  case (Suc i)
  have i: "i < 4" "i + d < length a" using Suc.prems(2) assms(2) by simp_all
  show ?case
  proof (cases "msk ! (i + d) = 0")
    case True
    have "ip_addr_loop d i hs msk (rv[i + d := hs ! i]) = a"
      using Suc.prems i assms(9) True by (intro Suc.IH) (auto simp: nth_list_update)
    then show ?thesis using True by simp
  next
    case False
    then have "i + d \<le> p" using assms(8) i by (meson not_le)
    then have f: "msk ! k = 0xFF" if "k < i + d" for k using assms(7) i that by simp
    have "hs ! k = 0" if "k < i" for k using f[of "k + d"] assms(9) i that host_byte(4)[of "a ! (k + d)"] by simp
    then have z: "\<not> (\<exists>h \<in> set (take i hs). h \<noteq> 0)" using assms(4) i by (auto simp: in_set_conv_nth)
    have g: "\<not> hs ! i > msk ! (i + d) XOR 0xFF" using assms(9) i host_byte(2)[of "a ! (i + d)" "msk ! (i + d)"] by (simp add: not_less)
    have "rv[i + d := rv ! (i + d) OR hs ! i] ! k = a ! k" if k: "k < length a" for k
    proof (cases k "i + d" rule: linorder_cases)
      case less
      then show ?thesis using Suc.prems(3) k f[OF less] host_byte(3)[of "a ! k"] by simp
    next
      case equal
      then show ?thesis using Suc.prems(1,3) k i assms(9) host_byte(1)[of "a ! k" "msk ! k"] by simp
    qed (use Suc.prems(3) k in simp)
    then have "rv[i + d := rv ! (i + d) OR hs ! i] = a" using Suc.prems(1) by (intro nth_equalityI) simp_all
    then show ?thesis using False z g by simp
  qed
qed

text \<open>
  C18. The subnet number and the host number of an address give the address back, for a mask of
  leading ones with at most 32 bits for the host: the bytes in front of some byte have all bits
  set, the bytes behind it none.
\<close>

theorem address_parts_roundtrip:
  assumes "length msk = length a" "4 \<le> length a" "length a \<le> 16" "length a - 4 \<le> p"
    "\<forall>k < p. k < length a \<longrightarrow> msk ! k = 0xFF" "\<forall>k < length a. p < k \<longrightarrow> msk ! k = 0"
  shows "\<exists>subnet hst. subnet_number a msk = Some subnet \<and> host_addr a msk = Some hst
    \<and> ip_addr subnet msk hst = Some a \<and> addr_match a (subnet, msk)"
proof -
  let ?d = "length a - 4"
  define hs where "hs = drop ?d (map2 (\<lambda>a m. a AND NOT m) a msk)"
  have l: "length hs = 4" using assms(1,2) by (simp add: hs_def)
  then obtain w x y z where "hs = [w, x, y, z]" by (auto simp: length_Suc_conv eval_nat_numeral)
  then have h: "htonl_bytes (ntohl_bytes hs) = hs" using host_bytes by simp
  have "ip_addr_loop ?d 4 hs msk (map2 (AND) a msk) = a"
    using assms l by (intro ip_addr_loop_parts[of _ _ _ _ _ _ p]) (auto simp: hs_def add.commute)
  then show ?thesis using assms h
    by (simp add: subnet_number_def host_addr_def ip_addr_def addr_match_def hs_def)
qed

theorem address_parts_roundtrip_witness:
  "\<exists>subnet hst. subnet_number [192, 168, 73, 200] [255, 255, 255, 192] = Some subnet
    \<and> host_addr [192, 168, 73, 200] [255, 255, 255, 192] = Some hst
    \<and> ip_addr subnet [255, 255, 255, 192] hst = Some [192, 168, 73, 200]
    \<and> addr_match [192, 168, 73, 200] (subnet, [255, 255, 255, 192])"
  using address_parts_roundtrip[of "[255, 255, 255, 192]" "[192, 168, 73, 200]" 3]
  by (simp add: All_less_Suc less_Suc_eq numeral_eq_Suc)

subsection \<open>Printing\<close>

text \<open>
  The text of an IPv4 address is written out; the one of an IPv6 address is what inet_ntop
  gives, the parameter \<open>ntop6\<close>. The result \<open>None\<close> is log_fatal.
\<close>

definition inet_ntop4 :: "iaddr \<Rightarrow> string" where
  "inet_ntop4 a = show_nat (unat (a ! 0)) @ ''.'' @ show_nat (unat (a ! 1)) @ ''.'' @ show_nat (unat (a ! 2)) @ ''.'' @ show_nat (unat (a ! 3))"

definition piaddr :: "(iaddr \<Rightarrow> string) \<Rightarrow> iaddr \<Rightarrow> string option" where
  "piaddr ntop6 addr =
     (if length addr = 0 then Some ''<null address>''
      else if length addr = 4 then Some (inet_ntop4 addr)
      else if length addr = 16 then Some (ntop6 addr)
      else None)"

text \<open>The outer \<open>None\<close> is log_fatal, the inner one the null pointer.\<close>

definition piaddrcidr :: "(iaddr \<Rightarrow> string) \<Rightarrow> iaddr \<Rightarrow> nat \<Rightarrow> string option option" where
  "piaddrcidr ntop6 addr bits =
     (if bits > length addr * 8 then Some None
      else map_option (\<lambda>s. Some (s @ ''/'' @ show_nat bits)) (piaddr ntop6 addr))"

function mask_width :: "iaddr \<Rightarrow> int \<Rightarrow> int" where
  "mask_width msk mw =
     (if mw > 0 then
        (let byte = msk ! nat ((mw - 1) div 8)
         in if byte = 0 then mask_width msk (mw - 8)
            else if byte AND drop_bit (nat ((mw - 1) mod 8)) 0x80 \<noteq> 0 then mw
            else mask_width msk (mw - 1))
      else mw)"
  by pat_completeness auto
termination mask_width
  by (relation "measure (\<lambda>(msk, mw). nat mw)") simp_all

declare mask_width.simps [simp del]

definition piaddrmask :: "(iaddr \<Rightarrow> string) \<Rightarrow> iaddr \<Rightarrow> iaddr \<Rightarrow> string option option" where
  "piaddrmask ntop6 addr msk =
     (if length addr \<noteq> 4 \<and> length addr \<noteq> 16 then None
      else if length addr \<noteq> length msk then None
      else let mw = mask_width msk (int (length msk) * 8)
           in if mw < 0 then None else piaddrcidr ntop6 addr (nat mw))"

text \<open>Ports in host order; \<open>None\<close> is log_fatal. strtol of the empty text sets no error.\<close>

definition validate_upto :: "int \<Rightarrow> string \<Rightarrow> u16 option" where
  "validate_upto upper port =
     (case strtol port of (v, r, erange) \<Rightarrow>
        if r \<noteq> [] \<or> erange then None else if v < 1 \<or> v > upper then None else Some (word_of_int v))"

definition validate_port :: "string \<Rightarrow> u16 option" where
  "validate_port port = validate_upto 65535 port"

definition validate_port_pair :: "string \<Rightarrow> u16 option" where
  "validate_port_pair port = validate_upto 65534 port"

text \<open>The bits of a mask, the first one the highest of the first byte.\<close>

definition mask_bit :: "iaddr \<Rightarrow> nat \<Rightarrow> bool" where
  "mask_bit msk k = bit (msk ! (k div 8)) (7 - k mod 8)"

lemma high_bit: "j < 8 \<Longrightarrow> (x :: u8) AND drop_bit j 0x80 \<noteq> 0 \<longleftrightarrow> bit x (7 - j)"
proof -
  assume j: "j < 8"
  have "j = 0 \<or> j = 1 \<or> j = 2 \<or> j = 3 \<or> j = 4 \<or> j = 5 \<or> j = 6 \<or> j = 7" using j by linarith
  then have "drop_bit j (0x80 :: u8) = 2 ^ (7 - j)" by (elim disjE) simp_all
  then show ?thesis by (simp add: and_exp_eq_0_iff_not_bit)
qed

lemma mask_width_spec:
  assumes "n \<le> 8 * length msk" "\<forall>k. n \<le> k \<longrightarrow> k < 8 * length msk \<longrightarrow> \<not> mask_bit msk k" "8 dvd n \<or> msk ! (n div 8) \<noteq> 0"
  shows "\<exists>w \<le> n. mask_width msk (int n) = int w \<and> (\<forall>k. w \<le> k \<longrightarrow> k < 8 * length msk \<longrightarrow> \<not> mask_bit msk k)
    \<and> (w = 0 \<or> mask_bit msk (w - 1))"
  using assms
proof (induction n rule: less_induct)
  case (less n)
  show ?case
  proof (cases n)
    case 0
    then show ?thesis using less.prems(2) by (simp add: mask_width.simps[of msk 0])
  next
    case (Suc m)
    let ?x = "msk ! (m div 8)"
    have "int n - 1 = int m" using Suc by simp
    then have i: "nat ((int n - 1) div 8) = m div 8" "nat ((int n - 1) mod 8) = m mod 8"
      using zdiv_int[of m 8] zmod_int[of m 8] by simp_all
    have j: "m mod 8 < 8" by simp
    note step = mask_width.simps[of msk "int n", unfolded i Let_def high_bit[OF j]]
    show ?thesis
    proof (cases "?x = 0")
      case True
      have "8 dvd n"
      proof (rule ccontr)
        assume "\<not> 8 dvd n"
        moreover from this have "n div 8 = m div 8" using Suc by (simp add: div_Suc dvd_eq_mod_eq_0)
        ultimately show False using less.prems(3) True by simp
      qed
      then obtain q where q: "n = 8 * Suc q" using Suc by (metis dvdE mult_0_right nat.distinct(1) not0_implies_Suc)
      then have m: "m div 8 = q" "int n - 8 = int (n - 8)" using Suc by simp_all
      have z: "\<not> mask_bit msk k" if "n - 8 \<le> k" "k < 8 * length msk" for k
      proof (cases "n \<le> k")
        case False
        then have "k div 8 = q" using q that(1) by simp
        then show ?thesis using True m by (simp add: mask_bit_def)
      qed (use less.prems(2) that(2) in simp)
      have "n - 8 < n" "n - 8 \<le> 8 * length msk" "8 dvd n - 8 \<or> msk ! ((n - 8) div 8) \<noteq> 0" using q less.prems(1) by simp_all
      with less.IH[of "n - 8"] z obtain w where "w \<le> n - 8" "mask_width msk (int (n - 8)) = int w" "\<forall>k. w \<le> k \<longrightarrow> k < 8 * length msk \<longrightarrow> \<not> mask_bit msk k"
        "w = 0 \<or> mask_bit msk (w - 1)"
        by blast
      moreover have "mask_width msk (int n) = mask_width msk (int (n - 8))" unfolding m(2)[symmetric] using step True Suc by simp
      ultimately show ?thesis by (intro exI[of _ w]) auto
    next
      case False
      show ?thesis
      proof (cases "bit ?x (7 - m mod 8)")
        case True
        then show ?thesis using step False Suc less.prems(2) by (intro exI[of _ n]) (simp add: mask_bit_def)
      next
        case nb: False
        have z: "\<not> mask_bit msk k" if "m \<le> k" "k < 8 * length msk" for k
          using less.prems(2) that nb Suc by (cases "k = m") (simp_all add: mask_bit_def)
        have "m < n" "m \<le> 8 * length msk" using Suc less.prems(1) by simp_all
        with less.IH[of m] z False obtain w where "w \<le> m" "mask_width msk (int m) = int w" "\<forall>k. w \<le> k \<longrightarrow> k < 8 * length msk \<longrightarrow> \<not> mask_bit msk k"
          "w = 0 \<or> mask_bit msk (w - 1)"
          by blast
        then show ?thesis using step False nb Suc by (intro exI[of _ w]) simp
      qed
    qed
  qed
qed

text \<open>
  The mask of a subnet is printed with the number of its leading ones; the loop does not step
  below 0.
\<close>

lemma piaddrmask_leading_ones:
  assumes "length addr = 4 \<or> length addr = 16" "length msk = length addr" "n \<le> 8 * length addr"
    "\<forall>k < 8 * length addr. mask_bit msk k \<longleftrightarrow> k < n"
  shows "piaddrmask ntop6 addr msk = piaddrcidr ntop6 addr n"
proof -
  obtain w where w: "w \<le> 8 * length msk" "mask_width msk (int (8 * length msk)) = int w"
    "\<forall>k. w \<le> k \<longrightarrow> k < 8 * length msk \<longrightarrow> \<not> mask_bit msk k" "w = 0 \<or> mask_bit msk (w - 1)"
    using mask_width_spec[of "8 * length msk" msk] by auto
  have "\<not> n < w" using w(1,4) assms(2,4) by (cases w) auto
  moreover have "\<not> w < n" using w(3) assms(2-4) by auto
  ultimately show ?thesis using assms(1,2) w(2) by (auto simp: piaddrmask_def Let_def mult.commute)
qed

end
