(* ===== verification/Dhcp_Packet.thy ===== *)
theory Dhcp_Packet
  imports Dhcp_Inet
begin

text \<open>
  The packets of DHCP on Linux packet sockets: dhcp/common/packet.c, ethernet.c and the functions
  lpf_send_packet and lpf_receive_packet of lpf.c. Neither Token Ring nor FDDI is built in, and packets
  are filtered by the kernel (USERLAND_FILTER is not set, as on Linux). The checksum is the sum in
  ones' complement; a frame that is sent is received with its payload and its sender; no frame
  that has a whole hardware header makes the receiver read or write outside its buffers.
\<close>

subsection \<open>Checksums\<close>

text \<open>
  The sum of the 16-bit words of a text, with the carry added back. A last byte that is left
  over is the high byte of a word. \<^verbatim>\<open>wrapsum\<close> also brings the result into network order, which
  is left to \<open>net16\<close>.
\<close>

definition add_carry :: "u32 \<Rightarrow> u32" where
  "add_carry sm = (if sm > 0xFFFF then sm - 0xFFFF else sm)"

fun checksum :: "u8 list \<Rightarrow> u32 \<Rightarrow> u32" where
  "checksum [] sm = sm"
| "checksum [x] sm = add_carry (sm + push_bit 8 (ucast x))"
| "checksum (x # y # bs) sm = checksum bs (add_carry (sm + (push_bit 8 (ucast x) OR ucast y)))"

definition wrapsum :: "u32 \<Rightarrow> u32" where
  "wrapsum sm = NOT sm AND 0xFFFF"

subsection \<open>Headers\<close>

text \<open>
  The fields of a header hold the numbers that their bytes stand for in network order, the ones
  that the program keeps in network order itself as well: addresses and ports.
\<close>

definition net16 :: "u16 \<Rightarrow> u8 list" where
  "net16 w = [ucast (drop_bit 8 w), ucast w]"

definition host16 :: "u8 \<Rightarrow> u8 \<Rightarrow> u16" where
  "host16 x y = push_bit 8 (ucast x) OR ucast y"

record ip =
  ip_fvhl :: u8
  ip_tos :: u8
  ip_len :: u16
  ip_id :: u16
  ip_off :: u16
  ip_ttl :: u8
  ip_p :: u8
  ip_sum :: u16
  ip_src :: u32
  ip_dst :: u32

record udphdr =
  uh_sport :: u16
  uh_dport :: u16
  uh_ulen :: u16
  uh_sum :: u16

definition ip_bytes :: "ip \<Rightarrow> u8 list" where
  "ip_bytes h = [ip_fvhl h, ip_tos h] @ net16 (ip_len h) @ net16 (ip_id h) @ net16 (ip_off h) @ [ip_ttl h, ip_p h]
     @ net16 (ip_sum h) @ htonl_bytes (ip_src h) @ htonl_bytes (ip_dst h)"

definition ip_of_bytes :: "u8 list \<Rightarrow> ip" where
  "ip_of_bytes bs = \<lparr>ip_fvhl = bs ! 0, ip_tos = bs ! 1, ip_len = host16 (bs ! 2) (bs ! 3), ip_id = host16 (bs ! 4) (bs ! 5),
     ip_off = host16 (bs ! 6) (bs ! 7), ip_ttl = bs ! 8, ip_p = bs ! 9, ip_sum = host16 (bs ! 10) (bs ! 11),
     ip_src = ntohl_bytes (take 4 (drop 12 bs)), ip_dst = ntohl_bytes (take 4 (drop 16 bs))\<rparr>"

definition udp_bytes :: "udphdr \<Rightarrow> u8 list" where
  "udp_bytes h = net16 (uh_sport h) @ net16 (uh_dport h) @ net16 (uh_ulen h) @ net16 (uh_sum h)"

definition udp_of_bytes :: "u8 list \<Rightarrow> udphdr" where
  "udp_of_bytes bs = \<lparr>uh_sport = host16 (bs ! 0) (bs ! 1), uh_dport = host16 (bs ! 2) (bs ! 3),
     uh_ulen = host16 (bs ! 4) (bs ! 5), uh_sum = host16 (bs ! 6) (bs ! 7)\<rparr>"

definition IP_V_SET :: "u8 \<Rightarrow> ip \<Rightarrow> ip" where
  "IP_V_SET x h = h\<lparr>ip_fvhl := (ip_fvhl h AND 0x0F) OR push_bit 4 x\<rparr>"

definition IP_HL_SET :: "u8 \<Rightarrow> ip \<Rightarrow> ip" where
  "IP_HL_SET x h = h\<lparr>ip_fvhl := (ip_fvhl h AND 0xF0) OR (drop_bit 2 x AND 0x0F)\<rparr>"

subsection \<open>Buffers\<close>

text \<open>memcpy from and to a place of a buffer; \<open>None\<close> if it goes past the end.\<close>

definition buf_read :: "u8 list \<Rightarrow> nat \<Rightarrow> nat \<Rightarrow> u8 list option" where
  "buf_read buf i n = (if i + n \<le> length buf then Some (take n (drop i buf)) else None)"

definition buf_write :: "u8 list \<Rightarrow> nat \<Rightarrow> u8 list \<Rightarrow> u8 list option" where
  "buf_write buf i bs = (if i + length bs \<le> length buf then Some (take i buf @ bs @ drop (i + length bs) buf) else None)"

subsection \<open>Hardware headers\<close>

record hardware =
  hlen :: nat
  hbuf :: "u8 list"

record interface_info =
  if_name :: string
  hw_address :: hardware
  anycast_mac_addr :: hardware

definition HTYPE_INFINIBAND :: u8 where
  "HTYPE_INFINIBAND = 32"

definition assemble_ethernet_header :: "interface_info \<Rightarrow> u8 list \<Rightarrow> nat \<Rightarrow> hardware option \<Rightarrow> (u8 list \<times> nat) option" where
  "assemble_ethernet_header ifc buf bufix dest =
     (let dhost = (case dest of Some h \<Rightarrow> if hlen h = 7 then take 6 (drop 1 (hbuf h)) else replicate 6 0xFF
                    | None \<Rightarrow> replicate 6 0xFF);
          shost = (if hlen (hw_address ifc) = 7 then take 6 (drop 1 (hbuf (hw_address ifc))) else replicate 6 0)
      in map_option (\<lambda>b. (b, bufix + 14)) (buf_write buf bufix (dhost @ shost @ net16 0x0800)))"

definition assemble_hw_header :: "interface_info \<Rightarrow> u8 list \<Rightarrow> nat \<Rightarrow> hardware option \<Rightarrow> (u8 list \<times> nat) option" where
  "assemble_hw_header ifc buf bufix dest =
     (if hbuf (hw_address ifc) ! 0 = HTYPE_INFINIBAND then Some (buf, bufix)
      else assemble_ethernet_header ifc buf bufix dest)"

text \<open>The offset behind the header and the sender. The type of an Ethernet address is 1.\<close>

definition decode_ethernet_header :: "u8 list \<Rightarrow> nat \<Rightarrow> hardware \<Rightarrow> (nat \<times> hardware) option" where
  "decode_ethernet_header buf bufix from =
     map_option (\<lambda>eh. (14, \<lparr>hlen = 7, hbuf = 1 # take 6 (drop 6 eh) @ drop 7 (hbuf from)\<rparr>)) (buf_read buf bufix 14)"

definition decode_hw_header :: "interface_info \<Rightarrow> u8 list \<Rightarrow> nat \<Rightarrow> hardware \<Rightarrow> (nat \<times> hardware) option" where
  "decode_hw_header ifc buf bufix from =
     (if hbuf (hw_address ifc) ! 0 = HTYPE_INFINIBAND then Some (0, from)
      else decode_ethernet_header buf bufix from)"

subsection \<open>The UDP and IP headers\<close>

definition assemble_udp_ip_header :: "u16 \<Rightarrow> u8 list \<Rightarrow> nat \<Rightarrow> u32 \<Rightarrow> u32 \<Rightarrow> u16 \<Rightarrow> u8 list \<Rightarrow> (u8 list \<times> nat) option" where
  "assemble_udp_ip_header local_port buf bufix from dest port data =
     (let h0 = \<lparr>ip_fvhl = 0, ip_tos = 0x10, ip_len = word_of_nat (20 + 8 + length data), ip_id = 0, ip_off = 0, ip_ttl = 128,
               ip_p = 17, ip_sum = 0, ip_src = from, ip_dst = dest\<rparr>;
          h1 = IP_HL_SET 20 (IP_V_SET 4 h0);
          h = h1\<lparr>ip_sum := ucast (wrapsum (checksum (ip_bytes h1) 0))\<rparr>;
          u0 = \<lparr>uh_sport = local_port, uh_dport = port, uh_ulen = word_of_nat (8 + length data), uh_sum = 0\<rparr>;
          u = u0\<lparr>uh_sum := ucast (wrapsum (checksum (udp_bytes u0) (checksum data
                (checksum (htonl_bytes from @ htonl_bytes dest) (17 + ucast (uh_ulen u0))))))\<rparr>
      in case buf_write buf bufix (ip_bytes h) of None \<Rightarrow> None
         | Some b \<Rightarrow> map_option (\<lambda>b'. (b', bufix + 20 + 8)) (buf_write b (bufix + 20) (udp_bytes u)))"

text \<open>
  The counters that the decoder keeps: of the packets seen and the bad ones among them, for the
  lengths, the IP headers and the UDP headers.
\<close>

definition count_bad :: "u32 \<times> u32 \<Rightarrow> u32 \<times> u32" where
  "count_bad c = (let seen = fst c + 1; bad = snd c + 1
     in if seen > 4 \<and> bad \<noteq> 0 \<and> seen div bad < 2 then (0, 0) else (seen, bad))"

definition count_good :: "u32 \<times> u32 \<Rightarrow> u32 \<times> u32" where
  "count_good c = (if fst c + 1 > 4 then (0, 0) else (fst c + 1, snd c))"

record decode_stats =
  udp_length :: "u32 \<times> u32"
  ip_packets :: "u32 \<times> u32"
  udp_packets :: "u32 \<times> u32"

record sockaddr_in =
  sin_addr :: u32
  sin_port :: u16

text \<open>
  The result is the index of the payload, or -1, the length of the payload if it is stored, the
  address of the sender and the counters. \<open>None\<close> is a read behind the end of the buffer.
\<close>

definition decode_udp_ip_header :: "decode_stats \<Rightarrow> u8 list \<Rightarrow> nat \<Rightarrow> sockaddr_in \<Rightarrow> nat \<Rightarrow> bool
    \<Rightarrow> (int \<times> nat option \<times> sockaddr_in \<times> decode_stats) option" where
  "decode_udp_ip_header st buf bufix from buflen csum_ready =
     (if 20 > buflen then Some (-1, None, from, st)
      else case buf_read buf bufix 20 of None \<Rightarrow> None
      | Some ib \<Rightarrow>
        (let h = ip_of_bytes ib; hl = unat (push_bit 2 (ib ! 0 AND 0x0F)); pkt_len = unat (ip_len h)
         in if hl > buflen \<or> pkt_len > buflen \<or> hl + 8 > buflen then Some (-1, None, from, st)
         else case buf_read buf (bufix + hl) 8 of None \<Rightarrow> None
         | Some ub \<Rightarrow>
           (let u = udp_of_bytes ub; ulen = unat (uh_ulen u)
            in if ulen < 8 then Some (-1, None, from, st)
            else if hl + ulen > buflen then Some (-1, None, from, st\<lparr>udp_length := count_bad (udp_length st)\<rparr>)
            else let st1 = st\<lparr>udp_length := count_good (udp_length st)\<rparr>
            in case buf_read buf bufix hl of None \<Rightarrow> None
            | Some hdr \<Rightarrow>
              if wrapsum (checksum hdr 0) \<noteq> 0 then Some (-1, None, from, st1\<lparr>ip_packets := count_bad (ip_packets st1)\<rparr>)
              else let st2 = st1\<lparr>ip_packets := count_good (ip_packets st1)\<rparr>; from1 = from\<lparr>sin_addr := ip_src h\<rparr>
              in case buf_read buf (bufix + hl + 8) (ulen - 8) of None \<Rightarrow> None
              | Some data \<Rightarrow>
                if uh_sum u \<noteq> 0 \<and> csum_ready \<and> wrapsum (checksum ub (checksum data
                     (checksum (take 8 (drop 12 ib)) (17 + word_of_nat ulen)))) \<noteq> 0
                then Some (-1, None, from1, st2\<lparr>udp_packets := count_bad (udp_packets st2)\<rparr>)
                else Some (int (hl + 8), Some (ulen - 8), from1\<lparr>sin_port := uh_sport u\<rparr>,
                       st2\<lparr>udp_packets := count_good (udp_packets st2)\<rparr>))))"

subsection \<open>Packet sockets\<close>

text \<open>
  Sending: the bytes that the buffer on the stack happens to hold and what write returns are
  arguments. The result is the frame that is written. An interface with the name fallback is
  handled by a socket.
\<close>

datatype send_result = Send_fallback | Send_frame "u8 list" int

definition lpf_send_packet :: "u16 \<Rightarrow> u8 list \<Rightarrow> int \<Rightarrow> interface_info \<Rightarrow> u8 list \<Rightarrow> u32 \<Rightarrow> sockaddr_in \<Rightarrow> hardware option \<Rightarrow> send_result option" where
  "lpf_send_packet local_port ih wrote ifc raw from dest hto =
     (if if_name ifc = ''fallback'' then Some Send_fallback
      else let hto1 = (if hto = None \<and> hlen (anycast_mac_addr ifc) \<noteq> 0 then Some (anycast_mac_addr ifc) else hto)
      in case assemble_hw_header ifc (replicate 128 0) 0 hto1 of None \<Rightarrow> None
      | Some (hh, hbufp) \<Rightarrow>
        (let fudge = hbufp mod 4
         in case buf_write ih fudge (take hbufp hh) of None \<Rightarrow> None
         | Some buf \<Rightarrow>
           (case assemble_udp_ip_header local_port buf (hbufp + fudge) from (sin_addr dest) (sin_port dest) raw of None \<Rightarrow> None
            | Some (buf1, ibufp) \<Rightarrow>
              (case buf_write buf1 ibufp raw of None \<Rightarrow> None
               | Some buf2 \<Rightarrow> Some (Send_frame (take (ibufp + length raw - fudge) (drop fudge buf2)) wrote)))))"

text \<open>
  Receiving: what recvmsg returns is an error or the end, or a frame with the auxiliary data that
  the kernel attaches, the VLAN tag and whether the checksum is ready. Of a frame of more than
  1536 bytes the rest is lost. The buffer of the caller has \<open>n\<close> bytes. \<open>None\<close> is a read of bytes
  that were not received, a write behind the caller's buffer, or log_fatal.
\<close>

datatype recv_result = Recv_none int | Recv_frame "u8 list" "(u16 \<times> bool) list"

definition lpf_receive_packet :: "interface_info \<Rightarrow> decode_stats \<Rightarrow> recv_result \<Rightarrow> nat \<Rightarrow> sockaddr_in \<Rightarrow> hardware
    \<Rightarrow> (int \<times> u8 list \<times> sockaddr_in \<times> hardware \<times> decode_stats) option" where
  "lpf_receive_packet ifc st r n from hfrom =
     (case r of Recv_none e \<Rightarrow> Some (e, [], from, hfrom, st)
      | Recv_frame fr aux \<Rightarrow>
        (let ibuf = take 1536 fr; len = length ibuf
         in if len = 0 then Some (0, [], from, hfrom, st)
         else if \<exists>a \<in> set aux. fst a AND 0x0FFF \<noteq> 0 then Some (0, [], from, hfrom, st)
         else let csum_ready = (aux = [] \<or> snd (last aux))
         in case decode_hw_header ifc ibuf 0 hfrom of None \<Rightarrow> None
         | Some (off, hfrom1) \<Rightarrow>
           (case decode_udp_ip_header st ibuf off from (len - off) csum_ready of None \<Rightarrow> None
            | Some (off2, paylen, from1, st1) \<Rightarrow>
              if off2 < 0 then Some (0, [], from1, hfrom1, st1)
              else if len - off - nat off2 < the paylen then None
              else if the paylen > n then None
              else map_option (\<lambda>p. (int (the paylen), p, from1, hfrom1, st1)) (buf_read ibuf (off + nat off2) (the paylen)))))"

subsection \<open>The sum in ones' complement\<close>

text \<open>
  The 16-bit words of a text and the number between 1 and 65535 that a positive sum is reduced
  to: the checksum is that number.
\<close>

fun words :: "u8 list \<Rightarrow> nat" where
  "words [] = 0"
| "words [x] = 256 * unat x"
| "words (x # y # bs) = 256 * unat x + unat y + words bs"

definition ones :: "nat \<Rightarrow> nat" where
  "ones n = (if n = 0 then 0 else (n - 1) mod 65535 + 1)"

lemma ones_le: "ones n \<le> 65535"
  by (cases n) (simp_all add: ones_def less_Suc_eq_le[symmetric])

lemma ones_small: "n \<le> 65535 \<Longrightarrow> ones n = n"
  by (simp add: ones_def)

lemma mod_wrap:
  assumes "r < N" "w \<le> (N :: nat)"
  shows "(r + w) mod N = (if r + w < N then r + w else r + w - N)"
proof (cases "r + w < N")
  case False
  moreover from this have "r + w - N < N" using assms by linarith
  ultimately show ?thesis by (simp add: le_mod_geq)
qed simp

lemma ones_add:
  assumes "w \<le> 65535"
  shows "(if ones m + w > 65535 then ones m + w - 65535 else ones m + w) = ones (m + w)"
proof (cases m)
  case 0
  then show ?thesis using assms ones_small[of w] by (simp add: ones_def)
next
  case (Suc k)
  define r where "r = k mod 65535"
  then have r: "r < 65535" by simp
  have "(k + w) mod 65535 = (r + w) mod 65535" by (simp add: r_def mod_add_left_eq)
  also have "\<dots> = (if r + w < 65535 then r + w else r + w - 65535)" using r assms by (rule mod_wrap)
  finally have "ones (m + w) = (if r + w < 65535 then r + w else r + w - 65535) + 1" "ones m = r + 1"
    using Suc by (simp_all add: ones_def r_def)
  then show ?thesis by (cases "r + w < 65535") simp_all
qed

lemma unat_byte: "unat (x :: u8) < 256"
  using unsigned_less[of x, where ?'a = nat] by simp

lemma unat_word_bytes:
  "unat (push_bit 8 (ucast x) OR ucast y :: u32) = 256 * unat (x :: u8) + unat (y :: u8)" "unat (push_bit 8 (ucast x) :: u32) = 256 * unat x"
proof -
  have u: "unat (ucast z :: u32) = unat z" for z :: u8 using unat_byte[of z] by (simp add: unsigned_ucast_eq take_bit_nat_eq_self)
  show p: "unat (push_bit 8 (ucast x) :: u32) = 256 * unat x"
    using unat_byte[of x] by (subst unsigned_push_bit_eq) (simp add: u push_bit_eq_mult take_bit_nat_eq_self)
  show "unat (push_bit 8 (ucast x) OR ucast y :: u32) = 256 * unat x + unat y"
    using or_split(1)[of 0 8 "unat y" "unat x" 0] unat_byte[of y] by (simp add: unsigned_or_eq u p mult.commute)
qed

lemma add_carry_ones:
  assumes "unat sm = ones m" "unat w \<le> 65535"
  shows "unat (add_carry (sm + w)) = ones (m + unat w)"
proof -
  have "unat (sm + w) = ones m + unat w"
    using assms ones_le[of m] by (subst unat_word_ariths) simp
  then have "unat (add_carry (sm + w)) = (if ones m + unat w > 65535 then ones m + unat w - 65535 else ones m + unat w)"
    by (simp add: add_carry_def word_less_nat_alt unat_sub word_le_nat_alt)
  then show ?thesis using ones_add[OF assms(2)] by simp
qed

lemma checksum_ones: "unat sm = ones m \<Longrightarrow> unat (checksum bs sm) = ones (m + words bs)"
proof (induction bs sm arbitrary: m rule: checksum.induct)
  case (2 x sm)
  then show ?case using add_carry_ones[OF 2, of "push_bit 8 (ucast x)"] unat_byte[of x] by (simp add: unat_word_bytes)
next
  case (3 x y bs sm)
  have "unat (push_bit 8 (ucast x) OR ucast y :: u32) \<le> 65535" using unat_byte[of x] unat_byte[of y] by (simp add: unat_word_bytes)
  from 3(1)[OF add_carry_ones[OF 3(2) this]] show ?case by (simp add: unat_word_bytes add.assoc)
qed simp

lemma wrapsum_ones:
  assumes "unat sm = ones n"
  shows "unat (ucast (wrapsum sm) :: u16) = 65535 - ones n" "wrapsum sm = 0 \<longleftrightarrow> ones n = 65535"
proof -
  have "NOT sm = - 1 - sm" by (simp add: not_eq_complement)
  then have "unat (NOT sm) = 4294967295 - ones n" using assms by (simp add: unat_sub unsigned_minus_1_eq_mask mask_eq_exp_minus_1)
  moreover have "4294967295 - ones n = (65535 - ones n) + 65536 * 65535" using ones_le[of n] by simp
  ultimately have n: "unat (NOT sm) = (65535 - ones n) + 65536 * 65535" by (rule trans)
  have "wrapsum sm = take_bit 16 (NOT sm)" by (simp add: wrapsum_def take_bit_eq_mask mask_eq_exp_minus_1)
  then have "unat (wrapsum sm) = unat (NOT sm) mod 65536" using take_bit_eq_mod[of 16 "unat (NOT sm)"] by (simp only: unsigned_take_bit_eq) simp
  also have "\<dots> = (65535 - ones n) mod 65536" unfolding n by (rule mod_mult_self2)
  finally have u: "unat (wrapsum sm) = 65535 - ones n" by simp
  then show "unat (ucast (wrapsum sm) :: u16) = 65535 - ones n" by (simp add: unsigned_ucast_eq take_bit_nat_eq_self)
  show "wrapsum sm = 0 \<longleftrightarrow> ones n = 65535" using u ones_le[of n] by (simp flip: unat_eq_0)
qed

text \<open>A sum with its own complement added is all ones.\<close>

lemma ones_complement:
  assumes "n > 0"
  shows "ones (n + (65535 - ones n)) = 65535"
proof -
  obtain k where k: "n = Suc k" using assms by (cases n) simp_all
  have r: "k mod 65535 < 65535" by simp
  have d: "k = k div 65535 * 65535 + k mod 65535" by simp
  have "k + (65535 - (k mod 65535 + 1)) = k div 65535 * 65535 + 65534" using r d by linarith
  then have "(k + (65535 - (k mod 65535 + 1))) mod 65535 = 65534" by simp
  then show ?thesis using k by (simp add: ones_def)
qed

lemma words_append: "even (length xs) \<Longrightarrow> words (xs @ ys) = words xs + words ys"
  by (induction xs rule: words.induct) simp_all

lemma words_net16 [simp]: "words (net16 w) = unat w" "length (net16 w) = 2"
proof -
  have "unat w = 256 * (unat w div 256) + unat w mod 256" by simp
  moreover have "unat (ucast (drop_bit 8 w) :: u8) = take_bit 8 (drop_bit 8 (take_bit 16 (unat w)))" "unat (ucast w :: u8) = take_bit 8 (unat w)"
    by (simp_all add: unsigned_ucast_eq unsigned_drop_bit_eq)
  moreover have "unat w < 65536" using unsigned_less[of w, where ?'a = nat] by simp
  ultimately show "words (net16 w) = unat w" by (simp add: net16_def take_bit_eq_mod drop_bit_eq_div)
qed (simp add: net16_def)

lemma host16_net16: "host16 (net16 w ! 0) (net16 w ! 1) = w"
  by (rule bit_word_eqI) (auto simp: host16_def net16_def bit_simps dest: bit_imp_le_length)

lemma length_htonl [simp]: "length (htonl_bytes w) = 4"
  by (simp add: htonl_bytes_def)

lemma ntohl_htonl: "ntohl_bytes (htonl_bytes w) = w"
proof (rule bit_word_eqI)
  fix n :: nat assume "n < LENGTH(32)"
  then consider "n < 8" | "8 \<le> n" "n < 16" | "16 \<le> n" "n < 24" | "24 \<le> n" "n < 32" by fastforce
  then show "bit (ntohl_bytes (htonl_bytes w)) n = bit w n"
    by cases (auto simp: ntohl_bytes_def htonl_bytes_def bit_simps)
qed

subsection \<open>The headers as bytes\<close>

lemma bytes_length [simp]: "length (ip_bytes h) = 20" "length (udp_bytes u) = 8"
  by (simp_all add: ip_bytes_def udp_bytes_def)

lemma ip_of_bytes_ip_bytes: "ip_of_bytes (ip_bytes h) = h"
  using host_bytes ntohl_htonl host16_net16
  by (cases h) (simp add: ip_of_bytes_def ip_bytes_def net16_def htonl_bytes_def)

lemma udp_of_bytes_udp_bytes: "udp_of_bytes (udp_bytes u) = u"
  using host16_net16 by (cases u) (simp add: udp_of_bytes_def udp_bytes_def net16_def)

text \<open>
  What the decoder relies on for both headers: they have a fixed size, and the bytes that are
  written give the header back from any place of a buffer.
\<close>

locale header_codec =
  fixes enc :: "'h \<Rightarrow> u8 list" and dec :: "u8 list \<Rightarrow> 'h" and len :: nat
  assumes enc_length: "length (enc h) = len" and dec_enc: "dec (enc h) = h"
begin

lemma read_back: "length pre = i \<Longrightarrow> buf_read (pre @ enc h @ post) i len = Some (enc h)"
  by (simp add: buf_read_def enc_length)

lemma enc_inject: "enc h = enc h' \<longleftrightarrow> h = h'"
  by (metis dec_enc)

end

interpretation ip_hdr: header_codec ip_bytes ip_of_bytes 20
  by unfold_locales (simp_all add: ip_of_bytes_ip_bytes)

interpretation udp_hdr: header_codec udp_bytes udp_of_bytes 8
  by unfold_locales (simp_all add: udp_of_bytes_udp_bytes)

lemma words_ip_bytes: "words (ip_bytes (h\<lparr>ip_sum := s\<rparr>)) + unat (ip_sum h) = words (ip_bytes h) + unat s"
  by (simp add: ip_bytes_def words_append)

lemma words_udp_bytes: "words (udp_bytes (u\<lparr>uh_sum := s\<rparr>)) + unat (uh_sum u) = words (udp_bytes u) + unat s"
  by (simp add: udp_bytes_def words_append)

text \<open>A header with its checksum filled in passes the check.\<close>

lemma ip_checksum_ok:
  assumes "ip_sum h = 0" "words (ip_bytes h) > 0"
  shows "wrapsum (checksum (ip_bytes (h\<lparr>ip_sum := ucast (wrapsum (checksum (ip_bytes h) 0))\<rparr>)) 0) = 0"
proof -
  have z: "unat (0 :: u32) = ones 0" by (simp add: ones_def)
  let ?s = "ucast (wrapsum (checksum (ip_bytes h) 0)) :: u16"
  have s: "unat ?s = 65535 - ones (words (ip_bytes h))" using wrapsum_ones(1)[OF checksum_ones[OF z]] by simp
  have "words (ip_bytes (h\<lparr>ip_sum := ?s\<rparr>)) = words (ip_bytes h) + (65535 - ones (words (ip_bytes h)))"
    using words_ip_bytes[where h = h and s = ?s] assms(1) s by simp
  then show ?thesis using wrapsum_ones(2)[OF checksum_ones[OF z]] ones_complement[OF assms(2)] by simp
qed

lemma udp_checksum_ok:
  assumes "uh_sum u = 0" "unat sm = ones m" "m > 0"
  shows "wrapsum (checksum (udp_bytes (u\<lparr>uh_sum := ucast (wrapsum (checksum (udp_bytes u) (checksum data (checksum pseudo sm))))\<rparr>))
    (checksum data (checksum pseudo sm))) = 0"
proof -
  let ?s = "ucast (wrapsum (checksum (udp_bytes u) (checksum data (checksum pseudo sm)))) :: u16" and ?n = "m + words pseudo + words data"
  note c = checksum_ones[OF checksum_ones[OF checksum_ones[OF assms(2)]]]
  have s: "unat ?s = 65535 - ones (?n + words (udp_bytes u))" using wrapsum_ones(1)[OF c] .
  have "?n + words (udp_bytes (u\<lparr>uh_sum := ?s\<rparr>)) = (?n + words (udp_bytes u)) + (65535 - ones (?n + words (udp_bytes u)))"
    using words_udp_bytes[where u = u and s = ?s] assms(1) s by simp
  then show ?thesis using wrapsum_ones(2)[OF c] ones_complement[of "?n + words (udp_bytes u)"] assms(3) by (simp only: trans_less_add1)
qed

subsection \<open>Decoding\<close>

text \<open>
  The counters stay small: at most four good packets are counted, and bad ones only as long as
  they are not more than the good ones or four packets in all.
\<close>

definition counter_ok :: "u32 \<times> u32 \<Rightarrow> bool" where
  "counter_ok c \<longleftrightarrow> unat (snd c) \<le> unat (fst c) \<and> unat (fst c) \<le> unat (snd c) + 4 \<and> unat (fst c) \<le> 8"

definition stats_ok :: "decode_stats \<Rightarrow> bool" where
  "stats_ok st \<longleftrightarrow> counter_ok (udp_length st) \<and> counter_ok (ip_packets st) \<and> counter_ok (udp_packets st)"

lemma unat_next: "unat (x :: u32) \<le> 8 \<Longrightarrow> unat (x + 1) = unat x + 1"
  by (subst unat_word_ariths) simp

lemma count_good_ok: "counter_ok c \<Longrightarrow> counter_ok (count_good c)"
  by (auto simp: counter_ok_def count_good_def unat_next word_less_nat_alt)

lemma count_bad_ok:
  assumes "counter_ok c"
  shows "counter_ok (count_bad c)"
proof -
  let ?s = "fst c + 1" and ?b = "snd c + 1"
  have u: "unat ?s = unat (fst c) + 1" "unat ?b = unat (snd c) + 1" using assms by (simp_all add: counter_ok_def unat_next)
  have d: "?s div ?b < 2 \<longleftrightarrow> unat ?s < 2 * unat ?b"
    using u(2) by (simp add: word_less_nat_alt unat_div less_mult_imp_div_less div_less_iff_less_mult)
  show ?thesis
  proof (cases "?s > 4 \<and> ?b \<noteq> 0 \<and> ?s div ?b < 2")
    case True
    then show ?thesis by (simp add: count_bad_def counter_ok_def)
  next
    case False
    have "?b \<noteq> 0" using u(2) by (metis add_is_0 one_neq_zero unsigned_0)
    then have "unat ?s \<le> 4 \<or> 2 * unat ?b \<le> unat ?s" using False d by (auto simp: word_less_nat_alt)
    then have "counter_ok (?s, ?b)" using assms u unfolding counter_ok_def fst_conv snd_conv by linarith
    then show ?thesis unfolding count_bad_def Let_def if_not_P[OF False] .
  qed
qed

lemma buf_read_some: "i + n \<le> length buf \<Longrightarrow> buf_read buf i n = Some (take n (drop i buf))"
  by (simp add: buf_read_def)

lemma decode_udp_ip_header_safe:
  assumes "bufix + buflen \<le> length buf"
  shows "\<exists>off paylen from' st'. decode_udp_ip_header st buf bufix from buflen csum_ready = Some (off, paylen, from', st')
    \<and> (off = -1 \<or> (\<exists>k n. off = int k \<and> paylen = Some n \<and> 8 \<le> k \<and> k + n \<le> buflen)) \<and> (stats_ok st \<longrightarrow> stats_ok st')"
proof -
  define ib where "ib = take 20 (drop bufix buf)"
  define hl where "hl = unat (push_bit 2 (ib ! 0 AND 0x0F))"
  define ub where "ub = take 8 (drop (bufix + hl) buf)"
  define ulen where "ulen = unat (uh_ulen (udp_of_bytes ub))"
  note d = decode_udp_ip_header_def[of st buf bufix "from" buflen csum_ready]
  let ?bad = "hl > buflen \<or> unat (ip_len (ip_of_bytes ib)) > buflen \<or> hl + 8 > buflen"
  consider "20 > buflen" | "20 \<le> buflen" ?bad | "20 \<le> buflen" "\<not> ?bad" by linarith
  then show ?thesis
  proof cases
    case 3
    have r: "buf_read buf bufix 20 = Some ib" "buf_read buf (bufix + hl) 8 = Some ub" "buf_read buf bufix hl = Some (take hl (drop bufix buf))"
      using 3 assms by (simp_all add: buf_read_some ib_def ub_def)
    have p: "buf_read buf (bufix + hl + 8) (ulen - 8) = Some (take (ulen - 8) (drop (bufix + hl + 8) buf))"
      "\<exists>k n. int (hl + 8) = int k \<and> ulen - 8 = n \<and> 8 \<le> k \<and> k + n \<le> buflen"
      if "\<not> ulen < 8" "\<not> hl + ulen > buflen" using that assms by (simp_all add: buf_read_some) (intro exI[of _ "hl + 8"], simp)
    show ?thesis
      using 3 p unfolding d Let_def r option.case hl_def[symmetric] ulen_def[symmetric]
      by (auto simp: stats_ok_def count_good_ok count_bad_ok simp del: of_nat_add)
  qed (use assms in \<open>simp_all add: d buf_read_some Let_def ib_def hl_def ub_def\<close>)
qed

text \<open>
  C16. Whatever frame arrives on an Ethernet interface, if it has at least the 14 bytes of the
  hardware header, lpf_receive_packet reads no byte that was not received, writes no byte behind the
  buffer of its caller and does not end the program. What it hands over is nothing or a piece of
  the frame behind the headers, of the length it returns. The counters keep their bounds.
\<close>

theorem lpf_receive_packet_safe:
  assumes "hbuf (hw_address ifc) ! 0 \<noteq> HTYPE_INFINIBAND" "14 \<le> length fr" "1536 \<le> n" "stats_ok st"
  shows "\<exists>pl from' hfrom' st'. lpf_receive_packet ifc st (Recv_frame fr aux) n from hfrom = Some (int (length pl), pl, from', hfrom', st')
    \<and> (pl = [] \<or> (\<exists>i \<ge> 22. i + length pl \<le> length fr \<and> pl = take (length pl) (drop i fr))) \<and> stats_ok st'"
proof -
  let ?b = "take 1536 fr" and ?c = "aux = [] \<or> snd (last aux)"
  have l: "14 + (length ?b - 14) \<le> length ?b" "min (length fr) 1536 \<noteq> 0" using assms(2) by auto
  obtain off pay from' st' where d: "decode_udp_ip_header st ?b 14 from (length ?b - 14) ?c = Some (off, pay, from', st')"
    "off = -1 \<or> (\<exists>k m. off = int k \<and> pay = Some m \<and> 8 \<le> k \<and> k + m \<le> length ?b - 14)" "stats_ok st'"
    using decode_udp_ip_header_safe[OF l(1), of st "from" ?c] assms(4) by blast
  obtain hf where h: "decode_hw_header ifc ?b 0 hfrom = Some (14, hf)"
    using assms(1,2) by (simp add: decode_hw_header_def decode_ethernet_header_def buf_read_some)
  note r = lpf_receive_packet_def[of ifc st "Recv_frame fr aux" n "from" hfrom, unfolded recv_result.case Let_def h option.case prod.case d(1)]
  show ?thesis
  proof (cases "\<exists>a \<in> set aux. fst a AND 0x0FFF \<noteq> 0")
    case True
    then show ?thesis using r l(2) assms(4) by simp
  next
    case ok: False
    show ?thesis
    proof (cases "off = -1")
      case True
      then show ?thesis using r ok l(2) d(3) by simp
    next
      case False
      then obtain k m where k: "off = int k" "pay = Some m" "8 \<le> k" "k + m \<le> length ?b - 14" using d(2) by blast
      let ?pl = "take m (drop (14 + k) ?b)"
      have m: "14 + k + m \<le> length ?b" "length ?pl = m" using k(4) l(1) assms(2) by auto
      then have "buf_read ?b (14 + k) m = Some ?pl" by (simp add: buf_read_some)
      moreover have "m \<le> n" "\<not> length ?b - 14 - k < m" using k(4) assms(3) by auto
      ultimately have "lpf_receive_packet ifc st (Recv_frame fr aux) n from hfrom = Some (int m, ?pl, from', hf, st')"
        using r ok l(2) k(1,2) by simp
      moreover have "min m (1522 - k) = m" using m(1) by auto
      then have "?pl = take m (drop (14 + k) fr)" by (simp add: drop_take)
      moreover have "14 + k + m \<le> length fr" using m(1) by simp
      ultimately show ?thesis using d(3) k(3) m(2)
        by (intro exI[of _ ?pl] exI[of _ from'] exI[of _ hf] exI[of _ st'] conjI disjI2 exI[of _ "14 + k"]) simp_all
    qed
  qed
qed

definition example_nic :: "u8 \<Rightarrow> interface_info" where
  "example_nic x = \<lparr>if_name = ''eth0'', hw_address = \<lparr>hlen = 7, hbuf = [1, 2, 0, 0, 0, 0, x] @ replicate 14 0\<rparr>,
     anycast_mac_addr = \<lparr>hlen = 0, hbuf = replicate 21 0\<rparr>\<rparr>"

definition example_stats :: decode_stats where
  "example_stats = \<lparr>udp_length = (0, 0), ip_packets = (3, 2), udp_packets = (1, 0)\<rparr>"

theorem lpf_receive_packet_safe_witness:
  "\<exists>pl from' hfrom' st'. lpf_receive_packet (example_nic 7) example_stats (Recv_frame (replicate 60 0x4F) [(0x2000, True)]) 4095
      \<lparr>sin_addr = 0, sin_port = 0\<rparr> \<lparr>hlen = 0, hbuf = replicate 21 0\<rparr> = Some (int (length pl), pl, from', hfrom', st')
    \<and> (pl = [] \<or> (\<exists>i \<ge> 22. i + length pl \<le> 60 \<and> pl = take (length pl) (drop i (replicate 60 0x4F)))) \<and> stats_ok st'"
  using lpf_receive_packet_safe[of "example_nic 7" "replicate 60 0x4F" 4095 example_stats "[(0x2000, True)]"
      "\<lparr>sin_addr = 0, sin_port = 0\<rparr>" "\<lparr>hlen = 0, hbuf = replicate 21 0\<rparr>"]
  by (simp add: HTYPE_INFINIBAND_def stats_ok_def counter_ok_def example_nic_def example_stats_def)

text \<open>A shorter frame is not noticed: the header is copied from bytes that were not received.\<close>

lemma lpf_receive_packet_short:
  assumes "hbuf (hw_address ifc) ! 0 \<noteq> HTYPE_INFINIBAND" "fr \<noteq> []" "length fr < 14" "\<forall>a \<in> set aux. fst a AND 0x0FFF = 0"
  shows "lpf_receive_packet ifc st (Recv_frame fr aux) n from hfrom = None"
  using assms by (simp add: lpf_receive_packet_def Let_def decode_hw_header_def decode_ethernet_header_def buf_read_def)

subsection \<open>From sender to receiver\<close>

lemma decode_assembled:
  assumes "length pre = bufix" "ip_fvhl h = 0x45" "unat (ip_len h) \<le> 28 + length data + length pad" "uh_ulen u = word_of_nat (8 + length data)"
    "8 + length data < 65536" "wrapsum (checksum (ip_bytes h) 0) = 0"
    "wrapsum (checksum (udp_bytes u) (checksum data (checksum (htonl_bytes (ip_src h) @ htonl_bytes (ip_dst h)) (17 + word_of_nat (8 + length data))))) = 0"
  shows "decode_udp_ip_header st (pre @ ip_bytes h @ udp_bytes u @ data @ pad) bufix from (28 + length data + length pad) csum_ready
    = Some (28, Some (length data), \<lparr>sin_addr = ip_src h, sin_port = uh_sport u\<rparr>,
        st\<lparr>udp_length := count_good (udp_length st), ip_packets := count_good (ip_packets st), udp_packets := count_good (udp_packets st)\<rparr>)"
proof -
  let ?buf = "pre @ ip_bytes h @ udp_bytes u @ data @ pad"
  have r: "buf_read ?buf bufix 20 = Some (ip_bytes h)" "buf_read ?buf (bufix + 20) 8 = Some (udp_bytes u)"
    "buf_read ?buf (bufix + 20 + 8) (length data) = Some data"
    using assms(1) ip_hdr.read_back[of pre] udp_hdr.read_back[of "pre @ ip_bytes h"] by (simp_all add: buf_read_def)
  have n: "ip_bytes h ! 0 = 0x45" "take 8 (drop 12 (ip_bytes h)) = htonl_bytes (ip_src h) @ htonl_bytes (ip_dst h)"
    using assms(2) by (simp_all add: ip_bytes_def net16_def)
  have hl: "unat (push_bit 2 ((0x45 :: u8) AND 0x0F)) = 20" by simp
  have ul: "unat (uh_ulen u) = 8 + length data" unfolding assms(4) unat_of_nat using assms(5) by (simp add: take_bit_nat_eq_self)
  show ?thesis
    unfolding decode_udp_ip_header_def r(1) option.case Let_def n hl r(2) ip_hdr.dec_enc udp_hdr.dec_enc ul
    using assms(3,6,7) r(3) by (simp add: r(1))
qed

lemma buf_write_at: "length bs \<le> length ys \<Longrightarrow> buf_write (xs @ ys) (length xs) bs = Some (xs @ bs @ drop (length bs) ys)"
  by (simp add: buf_write_def)

lemma ucast_of_nat16: "n < 65536 \<Longrightarrow> (ucast (word_of_nat n :: u16) :: u32) = word_of_nat n"
  by (simp add: unsigned_of_nat take_bit_nat_eq_self)

lemma assemble_udp_ip_header_bytes:
  assumes "28 \<le> length ys" "25 + length data < 65536"
  shows "\<exists>h u. assemble_udp_ip_header local_port (xs @ ys) (length xs) from dest port data
        = Some (xs @ ip_bytes h @ udp_bytes u @ drop 28 ys, length xs + 28)
    \<and> ip_fvhl h = 0x45 \<and> ip_len h = word_of_nat (28 + length data) \<and> ip_src h = from \<and> ip_dst h = dest
    \<and> uh_sport u = local_port \<and> uh_dport u = port \<and> uh_ulen u = word_of_nat (8 + length data)
    \<and> wrapsum (checksum (ip_bytes h) 0) = 0
    \<and> wrapsum (checksum (udp_bytes u) (checksum data (checksum (htonl_bytes from @ htonl_bytes dest) (17 + word_of_nat (8 + length data))))) = 0"
proof -
  define h1 where "h1 = IP_HL_SET 20 (IP_V_SET 4 \<lparr>ip_fvhl = 0, ip_tos = 0x10, ip_len = word_of_nat (20 + 8 + length data), ip_id = 0,
    ip_off = 0, ip_ttl = 128, ip_p = 17, ip_sum = 0, ip_src = from, ip_dst = dest\<rparr>)"
  define h where "h = h1\<lparr>ip_sum := ucast (wrapsum (checksum (ip_bytes h1) 0))\<rparr>"
  define sm :: u32 where "sm = 17 + ucast (word_of_nat (8 + length data) :: u16)"
  define u0 where "u0 = \<lparr>uh_sport = local_port, uh_dport = port, uh_ulen = word_of_nat (8 + length data), uh_sum = 0\<rparr>"
  define u where "u = u0\<lparr>uh_sum := ucast (wrapsum (checksum (udp_bytes u0) (checksum data (checksum (htonl_bytes from @ htonl_bytes dest) sm))))\<rparr>"
  have f: "ip_fvhl h1 = 0x45" "ip_len h1 = word_of_nat (28 + length data)" "ip_src h1 = from" "ip_dst h1 = dest" "ip_sum h1 = 0"
    by (simp_all add: h1_def IP_HL_SET_def IP_V_SET_def)
  have "words (ip_bytes h1) > 0" using f(1) by (simp add: ip_bytes_def)
  from ip_checksum_ok[OF f(5) this] have i: "wrapsum (checksum (ip_bytes h) 0) = 0" unfolding h_def .
  have "(ucast (word_of_nat (8 + length data) :: u16) :: u32) = word_of_nat (8 + length data)"
    using assms(2) by (intro ucast_of_nat16) simp
  then have s: "sm = 17 + word_of_nat (8 + length data)" unfolding sm_def by simp
  also have "\<dots> = word_of_nat (25 + length data)" by simp
  finally have "unat sm = unat (word_of_nat (25 + length data) :: u32)" by (rule arg_cong)
  then have "unat sm = 25 + length data" unfolding unat_of_nat using assms(2) by (simp add: take_bit_nat_eq_self)
  then have "unat sm = ones (25 + length data)" using assms(2) ones_small[of "25 + length data"] by simp
  from udp_checksum_ok[OF _ this, of u0 data "htonl_bytes from @ htonl_bytes dest"]
  have v: "wrapsum (checksum (udp_bytes u) (checksum data (checksum (htonl_bytes from @ htonl_bytes dest) sm))) = 0"
    unfolding u_def by (simp add: u0_def)
  have "assemble_udp_ip_header local_port (xs @ ys) (length xs) from dest port data = Some (xs @ ip_bytes h @ udp_bytes u @ drop 28 ys, length xs + 28)"
    using buf_write_at[of "ip_bytes h" ys xs] buf_write_at[of "udp_bytes u" "drop 20 ys" "xs @ ip_bytes h"] assms(1)
    unfolding assemble_udp_ip_header_def Let_def h1_def[symmetric] h_def[symmetric] u0_def[symmetric]
    by (simp add: u_def sm_def u0_def)
  then show ?thesis using f i v[unfolded s] by (intro exI[of _ h] exI[of _ u]) (simp add: h_def u_def u0_def)
qed

definition hw_ok :: "hardware \<Rightarrow> bool" where
  "hw_ok h \<longleftrightarrow> length (hbuf h) = 21"

lemma assemble_hw_header_bytes:
  assumes "hbuf (hw_address ifc) ! 0 \<noteq> HTYPE_INFINIBAND" "hw_ok (hw_address ifc)" "\<forall>h. dest = Some h \<longrightarrow> hw_ok h"
  shows "\<exists>eth. length eth = 14 \<and> assemble_hw_header ifc (replicate 128 0) 0 dest = Some (eth @ replicate 114 0, 14)
    \<and> (hlen (hw_address ifc) = 7 \<longrightarrow> take 6 (drop 6 eth) = take 6 (drop 1 (hbuf (hw_address ifc))))"
proof -
  let ?d = "case dest of Some h \<Rightarrow> if hlen h = 7 then take 6 (drop 1 (hbuf h)) else replicate 6 0xFF | None \<Rightarrow> replicate 6 0xFF"
  let ?s = "if hlen (hw_address ifc) = 7 then take 6 (drop 1 (hbuf (hw_address ifc))) else replicate 6 0"
  have l: "length ?d = 6" "length ?s = 6" using assms(2,3) by (auto simp: hw_ok_def split: option.split)
  have "assemble_hw_header ifc (replicate 128 0) 0 dest = Some ((?d @ ?s @ net16 0x0800) @ replicate 114 0, 14)"
    unfolding assemble_hw_header_def assemble_ethernet_header_def Let_def using assms(1) l by (simp add: buf_write_def)
  then show ?thesis using l assms(2) by (intro exI[of _ "?d @ ?s @ net16 0x0800"]) (simp add: hw_ok_def)
qed

lemma lpf_send_packet_frame:
  assumes "if_name ifc \<noteq> ''fallback''" "hbuf (hw_address ifc) ! 0 \<noteq> HTYPE_INFINIBAND" "hlen (hw_address ifc) = 7" "hw_ok (hw_address ifc)"
    "hw_ok (anycast_mac_addr ifc)" "\<forall>h. hto = Some h \<longrightarrow> hw_ok h" "length ih = 1536" "length raw \<le> 1492"
  shows "\<exists>eth h u. length eth = 14 \<and> take 6 (drop 6 eth) = take 6 (drop 1 (hbuf (hw_address ifc)))
    \<and> lpf_send_packet local_port ih wrote ifc raw from dest hto = Some (Send_frame (eth @ ip_bytes h @ udp_bytes u @ raw) wrote)
    \<and> ip_fvhl h = 0x45 \<and> ip_len h = word_of_nat (28 + length raw) \<and> ip_src h = from \<and> ip_dst h = sin_addr dest
    \<and> uh_sport u = local_port \<and> uh_dport u = sin_port dest \<and> uh_ulen u = word_of_nat (8 + length raw)
    \<and> wrapsum (checksum (ip_bytes h) 0) = 0
    \<and> wrapsum (checksum (udp_bytes u) (checksum raw (checksum (htonl_bytes from @ htonl_bytes (sin_addr dest)) (17 + word_of_nat (8 + length raw))))) = 0"
proof -
  let ?t = "if hto = None \<and> hlen (anycast_mac_addr ifc) \<noteq> 0 then Some (anycast_mac_addr ifc) else hto"
  have "\<forall>h. ?t = Some h \<longrightarrow> hw_ok h" using assms(5,6) by auto
  from assemble_hw_header_bytes[OF assms(2,4) this] assms(3) obtain eth where e: "length eth = 14"
    "assemble_hw_header ifc (replicate 128 0) 0 ?t = Some (eth @ replicate 114 0, 14)" "take 6 (drop 6 eth) = take 6 (drop 1 (hbuf (hw_address ifc)))" by blast
  let ?xs = "take 2 ih @ eth" and ?ys = "drop 16 ih"
  have x: "length ?xs = 16" "28 \<le> length ?ys" "25 + length raw < 65536" using e(1) assms(7,8) by simp_all
  have b: "buf_write ih 2 eth = Some (?xs @ ?ys)" using e(1) assms(7) by (simp add: buf_write_def)
  obtain h u where a: "assemble_udp_ip_header local_port (?xs @ ?ys) 16 from (sin_addr dest) (sin_port dest) raw
      = Some (?xs @ ip_bytes h @ udp_bytes u @ drop 28 ?ys, 44)"
    and p: "ip_fvhl h = 0x45" "ip_len h = word_of_nat (28 + length raw)" "ip_src h = from" "ip_dst h = sin_addr dest"
      "uh_sport u = local_port" "uh_dport u = sin_port dest" "uh_ulen u = word_of_nat (8 + length raw)" "wrapsum (checksum (ip_bytes h) 0) = 0"
      "wrapsum (checksum (udp_bytes u) (checksum raw (checksum (htonl_bytes from @ htonl_bytes (sin_addr dest)) (17 + word_of_nat (8 + length raw))))) = 0"
    using assemble_udp_ip_header_bytes[OF x(2,3), of local_port ?xs "from" "sin_addr dest" "sin_port dest"] unfolding x(1) by auto
  have w: "buf_write (?xs @ ip_bytes h @ udp_bytes u @ drop 28 ?ys) 44 raw = Some (?xs @ ip_bytes h @ udp_bytes u @ raw @ drop (length raw) (drop 28 ?ys))"
    using buf_write_at[of raw "drop 28 ?ys" "?xs @ ip_bytes h @ udp_bytes u"] e(1) assms(7,8) by simp
  have "lpf_send_packet local_port ih wrote ifc raw from dest hto
      = Some (Send_frame (take (44 + length raw - 2) (drop 2 (?xs @ ip_bytes h @ udp_bytes u @ raw @ drop (length raw) (drop 28 ?ys)))) wrote)"
    unfolding lpf_send_packet_def Let_def e(2) using assms(1) e(1) b a w by simp
  also have "take (44 + length raw - 2) (drop 2 (?xs @ ip_bytes h @ udp_bytes u @ raw @ drop (length raw) (drop 28 ?ys))) = eth @ ip_bytes h @ udp_bytes u @ raw"
    using e(1) assms(7) by simp
  finally show ?thesis using e(1,3) p by blast
qed

text \<open>
  C15. What lpf_send_packet writes for an Ethernet interface, lpf_receive_packet takes apart again: it
  returns the length and the bytes of the payload, the address and the port of the sender and its
  hardware address, whatever padding follows the frame and whether the kernel reports the checksum
  as ready or not. Both checksums that are written pass their check.
\<close>

theorem send_receive_roundtrip:
  assumes "if_name ifc \<noteq> ''fallback''" "hbuf (hw_address ifc) ! 0 \<noteq> HTYPE_INFINIBAND" "hlen (hw_address ifc) = 7" "hw_ok (hw_address ifc)"
    "hw_ok (anycast_mac_addr ifc)" "\<forall>h. hto = Some h \<longrightarrow> hw_ok h" "length ih = 1536"
    "hbuf (hw_address ifc') ! 0 \<noteq> HTYPE_INFINIBAND" "\<forall>a \<in> set aux. fst a AND 0x0FFF = 0" "42 + length raw + length pad \<le> 1534" "length raw \<le> n"
  shows "\<exists>frame st'. lpf_send_packet local_port ih wrote ifc raw from dest hto = Some (Send_frame frame wrote)
    \<and> lpf_receive_packet ifc' st (Recv_frame (frame @ pad) aux) n from0 hfrom
      = Some (int (length raw), raw, \<lparr>sin_addr = from, sin_port = local_port\<rparr>,
          \<lparr>hlen = 7, hbuf = 1 # take 6 (drop 1 (hbuf (hw_address ifc))) @ drop 7 (hbuf hfrom)\<rparr>, st')"
proof -
  have "length raw \<le> 1492" using assms(10) by simp
  from lpf_send_packet_frame[OF assms(1-7) this, of local_port wrote "from" dest] obtain eth h u where e: "length eth = 14"
      "take 6 (drop 6 eth) = take 6 (drop 1 (hbuf (hw_address ifc)))"
    and s: "lpf_send_packet local_port ih wrote ifc raw from dest hto = Some (Send_frame (eth @ ip_bytes h @ udp_bytes u @ raw) wrote)"
    and p: "ip_fvhl h = 0x45" "ip_len h = word_of_nat (28 + length raw)" "ip_src h = from" "ip_dst h = sin_addr dest"
      "uh_sport u = local_port" "uh_ulen u = word_of_nat (8 + length raw)" "wrapsum (checksum (ip_bytes h) 0) = 0"
      "wrapsum (checksum (udp_bytes u) (checksum raw (checksum (htonl_bytes from @ htonl_bytes (sin_addr dest)) (17 + word_of_nat (8 + length raw))))) = 0"
    by blast
  let ?f = "eth @ ip_bytes h @ udp_bytes u @ raw @ pad" and ?c = "aux = [] \<or> snd (last aux)"
  have "unat (ip_len h) \<le> 28 + length raw + length pad" unfolding p(2) unat_of_nat using assms(10) by (simp add: take_bit_nat_eq_self)
  moreover have "8 + length raw < 65536" using assms(10) by simp
  ultimately obtain st' where d: "decode_udp_ip_header st ?f 14 from0 (28 + length raw + length pad) ?c
      = Some (28, Some (length raw), \<lparr>sin_addr = from, sin_port = local_port\<rparr>, st')"
    using decode_assembled[OF e(1) p(1) _ p(6) _ p(7) p(8)[folded p(3,4)], where pad = pad] unfolding p(3,5) by blast
  have t: "take 1536 ?f = ?f" "length ?f - 14 = 28 + length raw + length pad" "length ?f \<noteq> 0" using e(1) assms(10) by simp_all
  have hw: "decode_hw_header ifc' ?f 0 hfrom = Some (14, \<lparr>hlen = 7, hbuf = 1 # take 6 (drop 1 (hbuf (hw_address ifc))) @ drop 7 (hbuf hfrom)\<rparr>)"
    using assms(8) e by (simp add: decode_hw_header_def decode_ethernet_header_def buf_read_def)
  have r: "buf_read ?f 42 (length raw) = Some raw" using e(1) by (simp add: buf_read_def)
  have "\<not> (\<exists>a \<in> set aux. fst a AND 0x0FFF \<noteq> 0)" using assms(9) by simp
  then have "lpf_receive_packet ifc' st (Recv_frame ?f aux) n from0 hfrom
      = Some (int (length raw), raw, \<lparr>sin_addr = from, sin_port = local_port\<rparr>,
          \<lparr>hlen = 7, hbuf = 1 # take 6 (drop 1 (hbuf (hw_address ifc))) @ drop 7 (hbuf hfrom)\<rparr>, st')"
    unfolding lpf_receive_packet_def recv_result.case Let_def t hw option.case prod.case d using t(3) assms(11) r by simp
  then show ?thesis using s by (intro exI[of _ "eth @ ip_bytes h @ udp_bytes u @ raw"] exI[of _ st']) simp
qed

theorem send_receive_roundtrip_witness:
  "\<exists>frame st'. lpf_send_packet 68 (replicate 1536 0xAA) 60 (example_nic 7) [1, 1, 6, 0, 0x39] 0xC0A80002 \<lparr>sin_addr = 0xC0A80001, sin_port = 67\<rparr> None
      = Some (Send_frame frame 60)
    \<and> lpf_receive_packet (example_nic 9) example_stats (Recv_frame (frame @ replicate 13 0) [(0, True)]) 4095 \<lparr>sin_addr = 0, sin_port = 0\<rparr>
        \<lparr>hlen = 0, hbuf = replicate 21 0\<rparr>
      = Some (5, [1, 1, 6, 0, 0x39], \<lparr>sin_addr = 0xC0A80002, sin_port = 68\<rparr>,
          \<lparr>hlen = 7, hbuf = [1, 2, 0, 0, 0, 0, 7] @ replicate 14 0\<rparr>, st')"
  using send_receive_roundtrip[of "example_nic 7" None "replicate 1536 0xAA" "example_nic 9" "[(0, True)]" "[1, 1, 6, 0, 0x39]" "replicate 13 0" 4095
      68 60 "0xC0A80002" "\<lparr>sin_addr = 0xC0A80001, sin_port = 67\<rparr>" example_stats "\<lparr>sin_addr = 0, sin_port = 0\<rparr>" "\<lparr>hlen = 0, hbuf = replicate 21 0\<rparr>"]
  by (simp add: HTYPE_INFINIBAND_def hw_ok_def example_nic_def)

end
