(* ===== verification/Spec2Isabelle.thy ===== *)
theory Spec2Isabelle
  imports Pgld Dns_Filter Seccrond Sup Springs Redis_Lock Dhcp_Packet
begin

text \<open>
  A verification library for dowse, the hub for a local network: the programs in C that filter
  DNS queries and packets, run jobs, gain privileges and carry events to other systems, and the
  parts of the two imported suites (mosquitto and ISC DHCP) that they rest on.

  \<^bold>\<open>The program and its parts.\<close> A plugin of the DNS proxy (\<^verbatim>\<open>src/src/dnscrypt-plugin\<close>) sees every
  query of the network. It keeps the known domains in the hash map of \<^verbatim>\<open>src/src/libdowse\<close>, finds the
  hardware address of the client, asks redis whether the client may browse, and forwards, answers
  or kills the query; it publishes what it saw on a channel of redis. The programs
  \<^verbatim>\<open>src/src/dowse-*.c\<close> subscribe to that channel and hand the events on: as a log for gource, as OSC
  messages, as a command for a shell, or to an MQTT broker through the client library in
  \<^verbatim>\<open>src/src/mosquitto/lib\<close>. The daemon \<^verbatim>\<open>src/src/pgld\<close> drops packets from and to listed addresses. The
  daemon \<^verbatim>\<open>src/src/seccrond\<close> runs jobs, \<^verbatim>\<open>src/src/sup\<close> starts programs with privileges, and
  \<^verbatim>\<open>src/src/hiredis-lock.c\<close> keeps scripts from running into each other. Addresses of the network are
  leased by the DHCP server in \<^verbatim>\<open>src/src/dhcp\<close>.

  \<^bold>\<open>Conventions.\<close> A struct is a record, an enumeration a datatype, a machine integer a word of its
  width. An operation that changes a structure takes it and returns it. The result \<open>None\<close> is
  undefined behaviour or the end of the process at that point: a dereferenced null pointer, a read
  or write outside of a buffer, a failed assertion. An error that the code reports is a value.
  Other processes, the kernel, and libraries outside of the repository are arguments: the redis
  server is a function on its state, a network connection is a list of the events it will have,
  signals are steps that may come between any two steps of a daemon. Memory is found unless a
  theory says otherwise. What a theorem needs of such an argument is one of its assumptions, with
  the documented behaviour only, and its witness has a concrete instance.

  \<^bold>\<open>The theories.\<close>

  \<^item> \<open>Dowse_Prelude\<close>, \<open>C_Stdlib\<close>: machine types, C strings, numbers in decimal, \<^verbatim>\<open>sscanf\<close>, \<^verbatim>\<open>fgets\<close>,
    \<^verbatim>\<open>strtok\<close>, \<^verbatim>\<open>getopt\<close>, and the lemmas that the components share.

  \<^item> \<open>Crc32\<close>, \<open>Hashmap\<close> (\<^verbatim>\<open>libdowse/hashmap.c\<close>): the table-driven checksum is the bitwise one; the map
    with open addressing and rehashing refines a map, which the locale \<open>string_store\<close> states for
    its clients; storing always returns. Removal can uncover an old value.

  \<^item> \<open>Blocklist\<close>, \<open>Blocklist_Parser\<close> (\<^verbatim>\<open>pgld/blocklist.c\<close>, \<^verbatim>\<open>parser.c\<close>, \<^verbatim>\<open>stream.c\<close>): sorting, merging and
    binary search, for every sorting function that meets the contract of \<^verbatim>\<open>qsort\<close> (the locale
    \<open>block_sorter\<close>): an address is found exactly if a range contains it. The text formats and the
    binary ones, the order in which they are tried, and the round trip through the dump.

  \<^item> \<open>Redis_Client\<close> (\<^verbatim>\<open>libdowse/redis.c\<close>): commands as texts, printed into a buffer and used as a format.

  \<^item> \<open>Pgld\<close> (\<^verbatim>\<open>pgld/pgld.c\<close>): from the command line to the verdicts: the packets dropped are those
    with a listed address; the list stays ascending and disjoint under signals and reloads.

  \<^item> \<open>Domainlist\<close>, \<open>Ip2mac\<close>, \<open>Dns_Filter\<close> (\<^verbatim>\<open>dnscrypt-plugin\<close>): loading the lists, the registered
    domain of a query, the hardware address, and the filter stage by stage: it forwards only for
    clients that are allowed, and redirects the others to this machine.

  \<^item> \<open>Tailq\<close>, \<open>Seccrond\<close> (\<^verbatim>\<open>seccrond/queue.h\<close>, \<^verbatim>\<open>seccrond.c\<close>): queues on a store of pointers refine lists
    (the locale \<open>tail_queue\<close>); the table of jobs is read as it is written; the daemon as a step
    function with signals between its steps runs no command twice and starts what is due.

  \<^item> \<open>Sha256\<close>, \<open>Sup\<close> (\<^verbatim>\<open>sup/sha256.c\<close>, \<^verbatim>\<open>sup.c\<close>): the implementation on 64-bit words is the function of
    the standard; a program is executed only after all checks of the first rule that matches.

  \<^item> \<open>Mqtt_Topic\<close>, \<open>Mqtt_Packet\<close>, \<open>Mqtt_Client\<close>, \<open>Mqtt_Safety\<close>, \<open>Mqtt_Roundtrip\<close> (\<^verbatim>\<open>mosquitto/lib\<close>): matching of
    topics against the rules on their levels; packets byte by byte; the client with its queues,
    acknowledgements, retries and reconnections. Every call keeps the state well-formed, the
    messages not yet acknowledged are an outbox, and a PUBLISH is received as it was sent, in
    whatever pieces it arrives.

  \<^item> \<open>Springs\<close> (\<^verbatim>\<open>dowse-to-gource.c\<close>, \<^verbatim>\<open>dowse-to-osc.c\<close>, \<^verbatim>\<open>dowse-cmd-fifo.c\<close>, \<^verbatim>\<open>dowse-to-mqtt.c\<close>): the programs
    composed with the DNS filter on one side and the MQTT client on the other: what the filter
    publishes becomes a line of the log; the bridge loses no message.

  \<^item> \<open>Redis_Lock\<close> (\<^verbatim>\<open>hiredis-lock.c\<close>): mutual exclusion in every interleaving of the commands of
    several processes, and the race that a time limit opens.

  \<^item> \<open>Dhcp_Inet\<close>, \<open>Dhcp_Packet\<close> (\<^verbatim>\<open>dhcp/common/inet.c\<close>, \<^verbatim>\<open>packet.c\<close>, \<^verbatim>\<open>ethernet.c\<close>, \<^verbatim>\<open>lpf.c\<close>): a range of addresses is
    split into networks without gap and overlap; an address is the sum of its parts; the frame
    that is sent is received with payload and sender (both headers are instances of the locale
    \<open>header_codec\<close>), and no frame with a whole hardware header makes the receiver leave its buffers.

  \<^bold>\<open>Loops.\<close> Most loops are recursions on their data or have a termination proof with a measure.
  \<^verbatim>\<open>hashmap_put\<close> and \<^verbatim>\<open>hashmap_rehash\<close> call each other and have a depth; the depth is enough because
  every rehash doubles the table and a limit bounds the memory, as \<open>Hashmap\<close> proves. Loops that
  may run forever, over the directory of domain lists and over the pointers of a queue, are partial
  functions with the result \<open>None\<close>; that they return on a well-formed queue is proved with the
  refinement of queues. The rounds of the loops of the MQTT client are counted by the code itself. The
  daemons are functions on the list of events that they see.

  \<^bold>\<open>Not modelled.\<close> The rest of the DHCP suite (leases, configuration language, options, failover) and
  of mosquitto (broker, command line programs, C++ interface, TLS, SRV, SOCKS, threads): imported
  sources of more than 100,000 lines that the programs of dowse only run or link. Logging
  (\<^verbatim>\<open>libdowse/log.c\<close>), the printing of times (\<^verbatim>\<open>parsetime.c\<close>), the variant of \<^verbatim>\<open>stream.c\<close> with zlib,
  \<^verbatim>\<open>modprobe.c\<close> and \<^verbatim>\<open>kmod_log.c\<close>: calls of libraries and output. The handlers of SIGINT of the programs
  in \<open>Springs\<close> and \<open>Redis_Lock\<close>: they free what the interrupted code is using. The web interface, the
  plugin for netdata, and the shell scripts that install and start everything. Of the queues in
  \<^verbatim>\<open>queue.h\<close> only the kind that is used.
\<close>

end
